(* ===== verification/Bus_Prelude.thy ===== *)
theory Bus_Prelude
  imports Main "HOL-Library.Word" "HOL-Library.AList" "HOL-Library.Multiset" "HOL-Library.Sublist"
begin

text \<open>
  Shared ground of the development: the byte and word types, Go strings as byte
  sequences, big-endian integers, association lists standing for Go maps, the order in
  which a Go map is iterated, and the generic notion of a reachable state with the
  invariant rule every step relation of the library uses.
\<close>

named_theorems io_simps \<open>functional behaviour of the stream operations\<close>
named_theorems codec_simps \<open>what the message readers return on what the writers wrote\<close>

section \<open>Bytes, words and Go strings\<close>

type_synonym byte = "8 word"
type_synonym u16 = "16 word"
type_synonym u32 = "32 word"
type_synonym u64 = "64 word"

text \<open>
  A Go string is a sequence of bytes; HOL characters are bytes, so \<open>string\<close> is the same
  data. The conversions \<open>[]byte(s)\<close> and \<open>string(data)\<close> are maps over the elements.
\<close>

definition byte_of_char :: "char \<Rightarrow> byte" where
  "byte_of_char c = word_of_nat (of_char c)"

definition char_of_byte :: "byte \<Rightarrow> char" where
  "char_of_byte b = char_of (unat b)"

definition bytes_of_string :: "string \<Rightarrow> byte list" where
  "bytes_of_string s = map byte_of_char s"

definition string_of_bytes :: "byte list \<Rightarrow> string" where
  "string_of_bytes bs = map char_of_byte bs"

text \<open>The four functions of \<open>encoding/binary.BigEndian\<close> the source calls.\<close>

definition put_uint16 :: "u16 \<Rightarrow> byte list" where
  "put_uint16 v = [ucast (drop_bit 8 v), ucast v]"

definition put_uint32 :: "u32 \<Rightarrow> byte list" where
  "put_uint32 v = [ucast (drop_bit 24 v), ucast (drop_bit 16 v), ucast (drop_bit 8 v), ucast v]"

definition get_uint16 :: "byte list \<Rightarrow> u16" where
  "get_uint16 bs = or (push_bit 8 (ucast (bs ! 0))) (ucast (bs ! 1))"

definition get_uint32 :: "byte list \<Rightarrow> u32" where
  "get_uint32 bs = or (push_bit 24 (ucast (bs ! 0))) (or (push_bit 16 (ucast (bs ! 1)))
     (or (push_bit 8 (ucast (bs ! 2))) (ucast (bs ! 3))))"

section \<open>Go maps\<close>

text \<open>
  A Go map is an association list with distinct keys: its length is \<open>len(m)\<close>, lookup is
  \<open>map_of\<close>, store and delete are \<open>AList.update\<close> and \<open>AList.delete\<close>. A \<open>range\<close> loop visits
  the entries in an order the language leaves open; a definition that ranges over a map
  takes that order as the argument \<open>iter\<close>, and the theorems assume of it only that it
  enumerates the entries.
\<close>

type_synonym ('k, 'v) gomap = "('k \<times> 'v) list"
type_synonym 'a iter = "'a list \<Rightarrow> 'a list"

definition iteration_order :: "'a iter \<Rightarrow> bool" where
  "iteration_order iter \<longleftrightarrow> (\<forall>xs. mset (iter xs) = mset xs)"

abbreviation wf_map :: "('k, 'v) gomap \<Rightarrow> bool" where
  "wf_map m \<equiv> distinct (map fst m)"

text \<open>Reading a missing key of a Go map gives the zero value of its element type.\<close>

definition map_get :: "'v \<Rightarrow> ('k, 'v) gomap \<Rightarrow> 'k \<Rightarrow> 'v" where
  "map_get zero m k = (case map_of m k of None \<Rightarrow> zero | Some v \<Rightarrow> v)"

section \<open>Reachable states\<close>

inductive reach :: "('s \<Rightarrow> bool) \<Rightarrow> ('s \<Rightarrow> 's \<Rightarrow> bool) \<Rightarrow> 's \<Rightarrow> bool" for init step where
  reach_init: "init s \<Longrightarrow> reach init step s"
| reach_step: "reach init step s \<Longrightarrow> step s t \<Longrightarrow> reach init step t"

text \<open>
  The contract of an inductive invariant: true of every initial state, kept by every
  step. Every step relation of the library is an instance.
\<close>

locale invariant_system =
  fixes init :: "'s \<Rightarrow> bool"
    and step :: "'s \<Rightarrow> 's \<Rightarrow> bool"
    and inv :: "'s \<Rightarrow> bool"
  assumes inv_init: "init s \<Longrightarrow> inv s"
    and inv_step: "inv s \<Longrightarrow> step s t \<Longrightarrow> inv t"
begin

lemma reach_inv: "reach init step s \<Longrightarrow> inv s"
  by (induction rule: reach.induct) (auto intro: inv_init inv_step)

lemma steps_inv: "step\<^sup>*\<^sup>* s t \<Longrightarrow> inv s \<Longrightarrow> inv t"
  by (induction rule: rtranclp_induct) (auto intro: inv_step)

end

lemma reach_steps: "step\<^sup>*\<^sup>* s t \<Longrightarrow> reach init step s \<Longrightarrow> reach init step t"
  by (induction rule: rtranclp_induct) (auto intro: reach_step)

section \<open>Lemmas on bytes and strings\<close>

lemma char_of_byte_of_char [simp]: "char_of_byte (byte_of_char c) = c"
proof -
  have "unat (word_of_nat (of_char c) :: byte) = of_char c mod 256"
    by (simp add: unat_of_nat)
  also have "\<dots> = of_char c"
    by (rule of_char_mod_256)
  finally have "unat (word_of_nat (of_char c) :: byte) = of_char c" .
  then show ?thesis by (simp add: char_of_byte_def byte_of_char_def)
qed

lemma byte_of_char_of_byte [simp]: "byte_of_char (char_of_byte b) = b"
proof -
  have "unat b < 256" using unsigned_less [of b] by simp
  then show ?thesis by (simp add: char_of_byte_def byte_of_char_def of_char_of)
qed

lemma string_of_bytes_of_string [simp]: "string_of_bytes (bytes_of_string s) = s"
  by (simp add: string_of_bytes_def bytes_of_string_def o_def)

lemma bytes_of_string_of_bytes [simp]: "bytes_of_string (string_of_bytes bs) = bs"
  by (simp add: string_of_bytes_def bytes_of_string_def o_def)

lemma length_bytes_of_string [simp]: "length (bytes_of_string s) = length s"
  by (simp add: bytes_of_string_def)

lemma length_string_of_bytes [simp]: "length (string_of_bytes bs) = length bs"
  by (simp add: string_of_bytes_def)

lemma bytes_of_string_Nil [simp]: "bytes_of_string [] = []"
  by (simp add: bytes_of_string_def)

lemma string_of_bytes_Nil [simp]: "string_of_bytes [] = []"
  by (simp add: string_of_bytes_def)

lemma length_put_uint16 [simp]: "length (put_uint16 v) = 2"
  by (simp add: put_uint16_def)

lemma length_put_uint32 [simp]: "length (put_uint32 v) = 4"
  by (simp add: put_uint32_def)

lemma list_length_2: "length xs = 2 \<Longrightarrow> xs = [xs ! 0, xs ! 1]"
  by (auto simp: numeral_eq_Suc length_Suc_conv)

lemma list_length_4: "length xs = 4 \<Longrightarrow> xs = [xs ! 0, xs ! 1, xs ! 2, xs ! 3]"
  by (auto simp: numeral_eq_Suc length_Suc_conv)

lemma get_put_uint16 [simp]: "get_uint16 (put_uint16 v) = v"
  unfolding get_uint16_def put_uint16_def
  by (rule bit_word_eqI) (auto simp: bit_simps)

lemma get_put_uint32 [simp]: "get_uint32 (put_uint32 v) = v"
proof (rule bit_word_eqI)
  fix n assume "n < LENGTH(32)"
  then show "bit (get_uint32 (put_uint32 v)) n = bit v n"
    unfolding get_uint32_def put_uint32_def
    by (cases "n < 16"; cases "n < 24") (auto simp: bit_simps)
qed

lemma bit_byte_beyond [simp]: "8 \<le> n \<Longrightarrow> \<not> bit (b :: byte) n"
  using bit_imp_le_length [of b n] by auto

lemma put_get_uint16_pair: "put_uint16 (get_uint16 [a, b]) = [a, b]"
  unfolding get_uint16_def put_uint16_def
  by (auto intro!: bit_word_eqI simp: bit_simps)

lemma put_get_uint32_quad: "put_uint32 (get_uint32 [a, b, c, d]) = [a, b, c, d]"
  unfolding get_uint32_def put_uint32_def
  by (auto intro!: bit_word_eqI simp: bit_simps)

lemma put_get_uint16: "length bs = 2 \<Longrightarrow> put_uint16 (get_uint16 bs) = bs"
  by (metis list_length_2 put_get_uint16_pair)

lemma put_get_uint32: "length bs = 4 \<Longrightarrow> put_uint32 (get_uint32 bs) = bs"
  by (metis list_length_4 put_get_uint32_quad)

section \<open>Lemmas on maps and their iteration\<close>

lemma set_AList_update:
  "wf_map m \<Longrightarrow> set (AList.update k v m) = insert (k, v) {e \<in> set m. fst e \<noteq> k}"
proof (induction m)
  case Nil
  then show ?case by simp
next
  case (Cons e m)
  then show ?case by (cases e) (auto simp: image_iff)
qed

lemma set_AList_delete: "set (AList.delete k m) = {e \<in> set m. fst e \<noteq> k}"
  by (auto simp: AList.delete_eq)

lemma Some_map_option_iff: "Some y = map_option f x \<longleftrightarrow> (\<exists>z. x = Some z \<and> y = f z)"
  by (cases x) auto

lemma nth_update_at: "j < length xs \<Longrightarrow> xs[i := x] ! j = (if i = j then x else xs ! j)"
  by (cases "i = j") simp_all

lemma set_AList_update_subset: "set (AList.update k v m) \<subseteq> insert (k, v) (set m)"
  by (induction m) auto

lemma set_AList_delete_subset: "set (AList.delete k m) \<subseteq> set m"
  by (induction m) auto

lemma wf_map_update: "wf_map m \<Longrightarrow> wf_map (AList.update k v m)"
  by (rule distinct_update)

lemma wf_map_delete: "wf_map m \<Longrightarrow> wf_map (AList.delete k m)"
  by (rule distinct_delete)

lemma map_get_update [simp]: "map_get z (AList.update k v m) k' = (if k' = k then v else map_get z m k')"
  by (simp add: map_get_def update_conv')

lemma map_get_delete [simp]: "map_get z (AList.delete k m) k' = (if k' = k then z else map_get z m k')"
  by (simp add: map_get_def delete_conv')

lemma map_get_in:
  assumes "wf_map m" "(k, v) \<in> set m"
  shows "map_get z m k = v"
  using assms by (simp add: map_get_def)

lemma map_get_cases:
  obtains "map_get z m k = z" "map_of m k = None" | v where "(k, v) \<in> set m" "map_get z m k = v"
  by (cases "map_of m k") (auto simp: map_get_def dest: map_of_SomeD)

lemma iteration_order_set [simp]: "iteration_order f \<Longrightarrow> set (f xs) = set xs"
  unfolding iteration_order_def by (metis set_mset_mset)

lemma iteration_order_Nil [simp]: "iteration_order f \<Longrightarrow> f xs = [] \<longleftrightarrow> xs = []"
  unfolding iteration_order_def by (metis mset_zero_iff)

lemma iteration_order_distinct: "iteration_order f \<Longrightarrow> distinct xs \<Longrightarrow> distinct (f xs)"
  unfolding iteration_order_def by (metis mset_eq_imp_distinct_iff)

lemma iteration_order_id [simp]: "iteration_order id" "iteration_order (\<lambda>xs. xs)" "iteration_order rev"
  by (simp_all add: iteration_order_def)

end
