(* ===== verification/Go_Runtime.thy ===== *)
theory Go_Runtime
  imports Bus_Prelude
begin

text \<open>
  What the source uses of the Go language and its standard library: error values and
  their texts, buffered channels, contexts, \<open>io.Reader\<close> with \<open>io.ReadFull\<close> and
  \<open>bytes.Reader\<close>, \<open>io.Writer\<close> with \<open>bytes.Buffer\<close>. Two contracts are stated here as
  locales, the queue contract of a channel and the stream contract of a reader; both are
  interpreted on the definitions of this theory.
\<close>

section \<open>Definitions\<close>

subsection \<open>Error values\<close>

text \<open>
  One value per error variable of the repository, the library errors it tests or returns,
  \<open>ErrorsNew\<close> for a text made in place with \<open>errors.New\<close> or \<open>fmt.Errorf\<close>, and
  \<open>NetError\<close> for whatever the network reports.
\<close>

datatype go_error =
    ErrClosed | ErrDraining | ErrQueueFull | ErrSubscription
  | ErrFrameTooLarge | ErrFrameTooLargeBytes nat | ErrInvalidFrame
  | ErrInvalidPayload
  | IoEOF | IoUnexpectedEOF | IoShortWrite
  | ContextCanceled | ContextDeadlineExceeded
  | ErrNotConnected | ErrClientClosed | ErrNoBrokerAvailable
  | ErrorsNew string
  | NetError string

fun digits10 :: "nat \<Rightarrow> string" where
  "digits10 n = (if n < 10 then [char_of (48 + n)] else digits10 (n div 10) @ [char_of (48 + n mod 10)])"

declare digits10.simps [simp del]

text \<open>The \<open>Error()\<close> method.\<close>

fun error_text :: "go_error \<Rightarrow> string" where
  "error_text ErrClosed = ''broker is closed''"
| "error_text ErrDraining = ''broker is draining''"
| "error_text ErrQueueFull = ''subscriber queue is full''"
| "error_text ErrSubscription = ''subscription is closed''"
| "error_text ErrFrameTooLarge = ''frame payload exceeds maximum size''"
| "error_text (ErrFrameTooLargeBytes n) =
     ''frame payload exceeds maximum size: '' @ digits10 n @ '' bytes''"
| "error_text ErrInvalidFrame = ''invalid frame''"
| "error_text ErrInvalidPayload = ''invalid message payload''"
| "error_text IoEOF = ''EOF''"
| "error_text IoUnexpectedEOF = ''unexpected EOF''"
| "error_text IoShortWrite = ''short write''"
| "error_text ContextCanceled = ''context canceled''"
| "error_text ContextDeadlineExceeded = ''context deadline exceeded''"
| "error_text ErrNotConnected = ''client must send CONNECT first''"
| "error_text ErrClientClosed = ''tcp client is closed''"
| "error_text ErrNoBrokerAvailable = ''no broker is currently available''"
| "error_text (ErrorsNew t) = t"
| "error_text (NetError t) = t"

text \<open>
  A context at one instant: \<open>None\<close> while it is live, its \<open>Err()\<close> once it is done.
\<close>

type_synonym ctx = "go_error option"

subsection \<open>Channels\<close>

record 'a chan =
  chan_buf :: "'a list"
  chan_cap :: nat
  chan_closed :: bool

datatype 'a send_result = SendOk "'a chan" | SendBlocks | SendPanics
datatype 'a recv_result = RecvOk 'a "'a chan" | RecvClosed | RecvBlocks

definition make_chan :: "nat \<Rightarrow> 'a chan" where
  "make_chan n = \<lparr>chan_buf = [], chan_cap = n, chan_closed = False\<rparr>"

definition chan_send :: "'a \<Rightarrow> 'a chan \<Rightarrow> 'a send_result" where
  "chan_send x c =
     (if chan_closed c then SendPanics
      else if length (chan_buf c) < chan_cap c then SendOk (c\<lparr>chan_buf := chan_buf c @ [x]\<rparr>)
      else SendBlocks)"

definition chan_recv :: "'a chan \<Rightarrow> 'a recv_result" where
  "chan_recv c =
     (case chan_buf c of
        x # xs \<Rightarrow> RecvOk x (c\<lparr>chan_buf := xs\<rparr>)
      | [] \<Rightarrow> if chan_closed c then RecvClosed else RecvBlocks)"

text \<open>Closing a closed channel panics: \<open>None\<close>.\<close>

definition chan_close :: "'a chan \<Rightarrow> 'a chan option" where
  "chan_close c = (if chan_closed c then None else Some (c\<lparr>chan_closed := True\<rparr>))"

text \<open>
  Loops over a channel, with the operation as a parameter: sending a list (\<open>None\<close> as
  soon as one send does not go through) and receiving a number of times.
\<close>

primrec send_all :: "('a \<Rightarrow> 'q \<Rightarrow> 'q option) \<Rightarrow> 'a list \<Rightarrow> 'q \<Rightarrow> 'q option" where
  "send_all send [] q = Some q"
| "send_all send (x # xs) q = (case send x q of None \<Rightarrow> None | Some q' \<Rightarrow> send_all send xs q')"

primrec recv_many :: "('q \<Rightarrow> ('a \<times> 'q) option) \<Rightarrow> nat \<Rightarrow> 'q \<Rightarrow> 'a list \<times> 'q" where
  "recv_many rcv 0 q = ([], q)"
| "recv_many rcv (Suc n) q =
     (case rcv q of
        None \<Rightarrow> ([], q)
      | Some (x, q') \<Rightarrow> (case recv_many rcv n q' of (xs, q'') \<Rightarrow> (x # xs, q'')))"

definition chan_send_opt :: "'a \<Rightarrow> 'a chan \<Rightarrow> 'a chan option" where
  "chan_send_opt x c = (case chan_send x c of SendOk c' \<Rightarrow> Some c' | _ \<Rightarrow> None)"

definition chan_recv_opt :: "'a chan \<Rightarrow> ('a \<times> 'a chan) option" where
  "chan_recv_opt c = (case chan_recv c of RecvOk x c' \<Rightarrow> Some (x, c') | _ \<Rightarrow> None)"

subsection \<open>Readers\<close>

text \<open>
  An \<open>io.Reader\<close> is the sequence of chunks its \<open>Read\<close> calls find available, then the
  error it ends with. \<open>Read\<close> returns at most the current chunk, so the same bytes may
  arrive in any segmentation, an empty chunk included.
\<close>

record reader =
  rd_chunks :: "byte list list"
  rd_end :: go_error

text \<open>The loop of \<open>io.ReadFull\<close>: \<open>need\<close> bytes are missing, \<open>acc\<close> have been read.\<close>

fun read_loop :: "byte list list \<Rightarrow> go_error \<Rightarrow> nat \<Rightarrow> byte list \<Rightarrow>
    (go_error + byte list) \<times> byte list list" where
  "read_loop [] e need acc =
     (if need = 0 then (Inr acc, [])
      else (Inl (if acc \<noteq> [] \<and> e = IoEOF then IoUnexpectedEOF else e), []))"
| "read_loop (c # cs) e need acc =
     (if need = 0 then (Inr acc, c # cs)
      else if length c \<le> need then read_loop cs e (need - length c) (acc @ c)
      else (Inr (acc @ take need c), drop need c # cs))"

definition read_full :: "nat \<Rightarrow> reader \<Rightarrow> (go_error + byte list) \<times> reader" where
  "read_full n r =
     (case read_loop (rd_chunks r) (rd_end r) n [] of (res, cs) \<Rightarrow> (res, r\<lparr>rd_chunks := cs\<rparr>))"

definition rd_pending :: "reader \<Rightarrow> byte list" where
  "rd_pending r = concat (rd_chunks r)"

text \<open>\<open>bytes.NewReader\<close>, its \<open>Len\<close> and its \<open>ReadByte\<close>.\<close>

definition bytes_reader :: "byte list \<Rightarrow> reader" where
  "bytes_reader bs = \<lparr>rd_chunks = [bs], rd_end = IoEOF\<rparr>"

definition reader_len :: "reader \<Rightarrow> nat" where
  "reader_len r = length (rd_pending r)"

definition read_byte :: "reader \<Rightarrow> (go_error + byte) \<times> reader" where
  "read_byte r = (case read_full 1 r of
      (Inl e, r') \<Rightarrow> (Inl e, r')
    | (Inr bs, r') \<Rightarrow> (Inr (hd bs), r'))"

subsection \<open>Writers\<close>

text \<open>
  An \<open>io.Writer\<close> records the bytes it has taken and what its next \<open>Write\<close> calls do:
  take at most \<open>n\<close> bytes, or take some and fail. When the script is used up every call
  takes all it is given, so \<open>bytes.Buffer\<close> is the writer with an empty script.
\<close>

datatype write_step = Accept nat | Fail nat go_error

record writer =
  wr_bytes :: "byte list"
  wr_script :: "write_step list"

definition writer_write :: "byte list \<Rightarrow> writer \<Rightarrow> (nat \<times> go_error option) \<times> writer" where
  "writer_write data w =
     (case wr_script w of
        [] \<Rightarrow> ((length data, None), w\<lparr>wr_bytes := wr_bytes w @ data\<rparr>)
      | Accept n # s \<Rightarrow>
          ((min n (length data), None),
           w\<lparr>wr_bytes := wr_bytes w @ take n data, wr_script := s\<rparr>)
      | Fail n e # s \<Rightarrow>
          ((min n (length data), Some e),
           w\<lparr>wr_bytes := wr_bytes w @ take n data, wr_script := s\<rparr>))"

definition empty_buffer :: writer where
  "empty_buffer = \<lparr>wr_bytes = [], wr_script = []\<rparr>"

text \<open>A writer whose remaining calls neither fail nor take nothing.\<close>

fun takes_some :: "write_step \<Rightarrow> bool" where
  "takes_some (Accept n) = (0 < n)"
| "takes_some (Fail _ _) = False"

definition healthy :: "writer \<Rightarrow> bool" where
  "healthy w \<longleftrightarrow> list_all takes_some (wr_script w)"

section \<open>Channels keep the order of what is sent\<close>

text \<open>
  The contract of a bounded FIFO queue, as the clients of a channel use it: the contents
  as a list, a fixed capacity, a send that appends while there is room, a receive that
  takes the front.
\<close>

locale bounded_queue =
  fixes send :: "'a \<Rightarrow> 'q \<Rightarrow> 'q option"
    and recv :: "'q \<Rightarrow> ('a \<times> 'q) option"
    and contents :: "'q \<Rightarrow> 'a list"
    and capacity :: "'q \<Rightarrow> nat"
    and open_q :: "'q \<Rightarrow> bool"
  assumes send_room: "open_q q \<Longrightarrow> length (contents q) < capacity q \<Longrightarrow>
      \<exists>q'. send x q = Some q' \<and> contents q' = contents q @ [x]
        \<and> capacity q' = capacity q \<and> open_q q'"
    and send_full: "capacity q \<le> length (contents q) \<Longrightarrow> send x q = None"
    and recv_front: "contents q = x # xs \<Longrightarrow>
      \<exists>q'. recv q = Some (x, q') \<and> contents q' = xs \<and> capacity q' = capacity q"
    and recv_empty: "contents q = [] \<Longrightarrow> recv q = None"
begin

lemma send_all_fits:
  "open_q q \<Longrightarrow> length (contents q) + length xs \<le> capacity q \<Longrightarrow>
     \<exists>q'. send_all send xs q = Some q' \<and> contents q' = contents q @ xs
       \<and> capacity q' = capacity q \<and> open_q q'"
proof (induction xs arbitrary: q)
  case Nil
  then show ?case by simp
next
  case (Cons x xs)
  then obtain q1 where "send x q = Some q1" "contents q1 = contents q @ [x]"
    "capacity q1 = capacity q" "open_q q1"
    using send_room [of q x] by auto
  with Cons.IH [of q1] Cons.prems show ?case by auto
qed

lemma send_bounded:
  assumes "open_q q" "send x q = Some q'" "length (contents q) \<le> capacity q"
  shows "length (contents q') \<le> capacity q'"
proof -
  have "length (contents q) < capacity q"
    using assms send_full [of q x] by (cases "capacity q \<le> length (contents q)") auto
  then show ?thesis using send_room [OF assms(1), of x] assms(2) by auto
qed

text \<open>Receiving everything returns the contents in the order they were sent.\<close>

lemma recv_many_contents:
  "n \<le> length (contents q) \<Longrightarrow>
     \<exists>q'. recv_many recv n q = (take n (contents q), q') \<and> contents q' = drop n (contents q)"
proof (induction n arbitrary: q)
  case 0
  then show ?case by simp
next
  case (Suc n)
  then obtain x xs where xs: "contents q = x # xs" by (cases "contents q") auto
  then obtain q1 where "recv q = Some (x, q1)" "contents q1 = xs"
    using recv_front by blast
  with Suc xs show ?case using Suc.IH [of q1] by auto
qed

end

section \<open>Readers return a prefix of what is pending\<close>

text \<open>
  The contract of a byte stream: a full read returns exactly the next bytes when enough
  are pending, and an error, never a short result, when they are not.
\<close>

locale byte_stream =
  fixes readn :: "nat \<Rightarrow> 'r \<Rightarrow> (go_error + byte list) \<times> 'r"
    and pending :: "'r \<Rightarrow> byte list"
    and stop :: "'r \<Rightarrow> go_error"
  assumes readn_enough: "n \<le> length (pending r) \<Longrightarrow>
      \<exists>r'. readn n r = (Inr (take n (pending r)), r')
        \<and> pending r' = drop n (pending r) \<and> stop r' = stop r"
    and readn_short: "length (pending r) < n \<Longrightarrow>
      \<exists>r'. readn n r = (Inl (if pending r \<noteq> [] \<and> stop r = IoEOF then IoUnexpectedEOF else stop r), r')
        \<and> pending r' = [] \<and> stop r' = stop r"
begin

lemma readn_cases:
  obtains (enough) r' where "n \<le> length (pending r)" "readn n r = (Inr (take n (pending r)), r')"
      "pending r' = drop n (pending r)" "stop r' = stop r"
    | (short) e r' where "length (pending r) < n" "readn n r = (Inl e, r')"
      "pending r' = []" "stop r' = stop r"
  using readn_enough [of n r] readn_short [of r n] by (cases "n \<le> length (pending r)") auto

lemma readn_append:
  assumes "pending r = xs @ ys"
  shows "\<exists>r'. readn (length xs) r = (Inr xs, r') \<and> pending r' = ys \<and> stop r' = stop r"
  using readn_enough [of "length xs" r] assms by auto

lemma readn_Inr:
  assumes "readn n r = (Inr bs, r')"
  shows "pending r = bs @ pending r' \<and> length bs = n \<and> stop r' = stop r"
  using assms by (cases rule: readn_cases [of n r]) (auto simp: append_take_drop_id)

end

section \<open>The interpretations on the runtime's definitions\<close>

lemma read_loop_enough:
  "n \<le> length (concat cs) \<Longrightarrow>
     \<exists>cs'. read_loop cs e n acc = (Inr (acc @ take n (concat cs)), cs')
       \<and> concat cs' = drop n (concat cs)"
  by (induction cs e n acc rule: read_loop.induct) auto

lemma read_loop_short:
  "length (concat cs) < n \<Longrightarrow>
     read_loop cs e n acc =
       (Inl (if acc @ concat cs \<noteq> [] \<and> e = IoEOF then IoUnexpectedEOF else e), [])"
  by (induction cs e n acc rule: read_loop.induct) auto

interpretation rs: byte_stream read_full rd_pending rd_end
proof unfold_locales
  fix n r
  assume "n \<le> length (rd_pending r)"
  then show "\<exists>r'. read_full n r = (Inr (take n (rd_pending r)), r')
      \<and> rd_pending r' = drop n (rd_pending r) \<and> rd_end r' = rd_end r"
    using read_loop_enough [of n "rd_chunks r" "rd_end r" "[]"]
    by (auto simp: read_full_def rd_pending_def)
next
  fix n r
  assume "length (rd_pending r) < n"
  then show "\<exists>r'. read_full n r =
        (Inl (if rd_pending r \<noteq> [] \<and> rd_end r = IoEOF then IoUnexpectedEOF else rd_end r), r')
      \<and> rd_pending r' = [] \<and> rd_end r' = rd_end r"
    using read_loop_short [of "rd_chunks r" n "rd_end r" "[]"]
    by (auto simp: read_full_def rd_pending_def)
qed

interpretation cq: bounded_queue chan_send_opt chan_recv_opt chan_buf chan_cap "\<lambda>c. \<not> chan_closed c"
  by unfold_locales
    (auto simp: chan_send_opt_def chan_send_def chan_recv_opt_def chan_recv_def split: list.splits)

lemma rd_pending_bytes_reader [simp]: "rd_pending (bytes_reader bs) = bs"
  by (simp add: rd_pending_def bytes_reader_def)

lemma rd_end_bytes_reader [simp]: "rd_end (bytes_reader bs) = IoEOF"
  by (simp add: bytes_reader_def)

lemma read_byte_Cons:
  assumes "rd_pending r = b # bs"
  shows "\<exists>r'. read_byte r = (Inr b, r') \<and> rd_pending r' = bs \<and> rd_end r' = rd_end r"
  using rs.readn_append [of r "[b]" bs] assms by (auto simp: read_byte_def)

lemma read_byte_Inr:
  assumes "read_byte r = (Inr b, r')"
  shows "rd_pending r = b # rd_pending r' \<and> rd_end r' = rd_end r"
  using assms rs.readn_Inr [of 1 r]
  by (auto simp: read_byte_def length_Suc_conv split: prod.splits sum.splits)

section \<open>Writers\<close>

lemma writer_write_bytes:
  "writer_write data w = ((n, err), w') \<Longrightarrow>
     n \<le> length data \<and> wr_bytes w' = wr_bytes w @ take n data"
  by (auto simp: writer_write_def min_def split: list.splits write_step.splits if_splits)

lemma writer_write_healthy:
  assumes "healthy w" "data \<noteq> []"
  shows "\<exists>n w'. writer_write data w = ((n, None), w') \<and> 0 < n \<and> healthy w'"
  using assms by (auto simp: writer_write_def healthy_def split: list.splits write_step.splits)

lemma healthy_empty_script [simp]: "wr_script w = [] \<Longrightarrow> healthy w"
  by (simp add: healthy_def)

lemma writer_write_buffer [simp]:
  "wr_script w = [] \<Longrightarrow>
     writer_write data w = ((length data, None), w\<lparr>wr_bytes := wr_bytes w @ data\<rparr>)"
  by (simp add: writer_write_def)

end
