(* ===== verification/Subscription.thy ===== *)
theory Subscription
  imports Go_Runtime
begin

text \<open>
  Events and subscriptions of \<open>broker/broker.go\<close>. A subscription is a buffered channel
  with the flags that stop it: \<open>closed\<close> and the \<open>done\<close> channel set together under its
  mutex, the wait group that counts the \<open>enqueue\<close> calls in progress, and the \<open>sync.Once\<close>
  around \<open>close\<close>. Every critical section and every \<open>select\<close> is a definition of its own;
  \<open>enqueue\<close> and \<open>sub_close\<close> compose them for a caller that is not interrupted, and
  \<open>Concurrency\<close> interleaves the same pieces.
\<close>

section \<open>Definitions\<close>

record event =
  ev_ID :: string
  ev_IdempotencyKey :: string
  ev_Topic :: string
  ev_Key :: string
  ev_Payload :: "byte list"

text \<open>\<open>BackpressurePolicy\<close> is an \<open>int\<close>; every value other than \<open>Drop\<close> blocks.\<close>

type_synonym BackpressurePolicy = int

definition Block :: BackpressurePolicy where "Block = 0"
definition Drop :: BackpressurePolicy where "Drop = 1"

datatype once = OnceFresh | OnceRunning | OnceDone

record subscription =
  sub_topic :: string
  sub_id :: u64
  sub_events :: "event chan"
  sub_done :: bool
  sub_once :: once
  sub_closed :: bool
  sub_wg :: nat

definition newSubscription :: "string \<Rightarrow> u64 \<Rightarrow> int \<Rightarrow> subscription" where
  "newSubscription topic sid queueSize =
     \<lparr>sub_topic = topic, sub_id = sid, sub_events = make_chan (nat queueSize), sub_done = False,
      sub_once = OnceFresh, sub_closed = False, sub_wg = 0\<rparr>"

definition idempotencyKey :: "event \<Rightarrow> string" where
  "idempotencyKey event =
     (if ev_IdempotencyKey event \<noteq> [] then ev_IdempotencyKey event else ev_ID event)"

subsection \<open>Enqueue\<close>

text \<open>The critical section at the start: refuse when closed, else join the wait group.\<close>

definition enqueue_enter :: "subscription \<Rightarrow> go_error + subscription" where
  "enqueue_enter s =
     (if sub_closed s then Inl ErrSubscription else Inr (s\<lparr>sub_wg := sub_wg s + 1\<rparr>))"

text \<open>
  A \<open>select\<close> is the list of the outcomes of its ready cases, any of which the runtime may
  take; with no \<open>default\<close> and no ready case it blocks, the empty list. A send on a closed
  channel is ready and panics.
\<close>

datatype outcome = Returns "go_error option" subscription | Panics

definition done_case :: "subscription \<Rightarrow> outcome list" where
  "done_case s = (if sub_done s then [Returns (Some ErrSubscription) s] else [])"

definition ctx_case :: "ctx \<Rightarrow> subscription \<Rightarrow> outcome list" where
  "ctx_case c s = (case c of Some e \<Rightarrow> [Returns (Some e) s] | None \<Rightarrow> [])"

definition send_case :: "event \<Rightarrow> subscription \<Rightarrow> outcome list" where
  "send_case event s =
     (case chan_send event (sub_events s) of
        SendOk c \<Rightarrow> [Returns None (s\<lparr>sub_events := c\<rparr>)]
      | SendBlocks \<Rightarrow> []
      | SendPanics \<Rightarrow> [Panics])"

definition enqueue_select :: "ctx \<Rightarrow> event \<Rightarrow> BackpressurePolicy \<Rightarrow> subscription \<Rightarrow> outcome list" where
  "enqueue_select c event policy s =
     (if policy = Drop then
        (let ready = done_case s @ send_case event s in
         if ready = [] then [Returns (Some ErrQueueFull) s] else ready)
      else ctx_case c s @ done_case s @ send_case event s)"

text \<open>The deferred \<open>wg.Done()\<close>; a counter below zero panics.\<close>

fun enqueue_exit :: "outcome \<Rightarrow> outcome" where
  "enqueue_exit (Returns err s) =
     (if sub_wg s = 0 then Panics else Returns err (s\<lparr>sub_wg := sub_wg s - 1\<rparr>))"
| "enqueue_exit Panics = Panics"

definition enqueue :: "ctx \<Rightarrow> event \<Rightarrow> BackpressurePolicy \<Rightarrow> subscription \<Rightarrow> outcome list" where
  "enqueue c event policy s =
     (case enqueue_enter s of
        Inl e \<Rightarrow> [Returns (Some e) s]
      | Inr s1 \<Rightarrow>
          map enqueue_exit
            (if sub_done s1 then [Returns (Some ErrSubscription) s1]
             else enqueue_select c event policy s1))"

subsection \<open>Close\<close>

text \<open>
  The function given to \<open>once.Do\<close>: mark under the mutex, wait for the wait group, then
  discard what is buffered unless \<open>drain\<close> is set, then close the event channel. The
  discarding loop receives until the channel has nothing ready; on a closed channel it
  would receive for ever, \<open>None\<close>, as a second \<open>close\<close> of the channel panics, \<open>None\<close>.
\<close>

definition close_mark :: "subscription \<Rightarrow> subscription option" where
  "close_mark s = (if sub_done s then None else Some (s\<lparr>sub_closed := True, sub_done := True\<rparr>))"

function discard_events :: "event chan \<Rightarrow> event chan option" where
  "discard_events c =
     (case chan_recv c of
        RecvOk _ c' \<Rightarrow> discard_events c'
      | RecvClosed \<Rightarrow> None
      | RecvBlocks \<Rightarrow> chan_close c)"
  by pat_completeness auto
termination
  by (relation "measure (\<lambda>c. length (chan_buf c))")
    (auto simp: chan_recv_def split: list.splits if_splits)

declare discard_events.simps [simp del]

definition close_events :: "bool \<Rightarrow> subscription \<Rightarrow> subscription option" where
  "close_events drain s =
     map_option (\<lambda>c. s\<lparr>sub_events := c\<rparr>)
       (if \<not> drain then discard_events (sub_events s) else chan_close (sub_events s))"

text \<open>
  The whole call without interruption: a second call finds the once done and returns. It
  does not return, \<open>None\<close>, while an \<open>enqueue\<close> is counted in the wait group.
\<close>

definition sub_close :: "bool \<Rightarrow> subscription \<Rightarrow> subscription option" where
  "sub_close drain s =
     (case sub_once s of
        OnceDone \<Rightarrow> Some s
      | OnceRunning \<Rightarrow> None
      | OnceFresh \<Rightarrow>
          (case close_mark s of
             None \<Rightarrow> None
           | Some s1 \<Rightarrow>
               if sub_wg s1 \<noteq> 0 then None
               else map_option (\<lambda>s2. s2\<lparr>sub_once := OnceDone\<rparr>) (close_events drain s1)))"

subsection \<open>Well-formed subscriptions\<close>

text \<open>
  Between two calls of an uninterrupted caller: the two flags agree, the once and the
  event channel follow them, no call is in progress, the queue is within its capacity.
\<close>

definition wf_sub :: "subscription \<Rightarrow> bool" where
  "wf_sub s \<longleftrightarrow>
     sub_done s = sub_closed s \<and> chan_closed (sub_events s) = sub_closed s
     \<and> sub_once s = (if sub_closed s then OnceDone else OnceFresh)
     \<and> sub_wg s = 0
     \<and> length (chan_buf (sub_events s)) \<le> chan_cap (sub_events s)
     \<and> 0 < chan_cap (sub_events s)"

abbreviation queue :: "subscription \<Rightarrow> event list" where
  "queue s \<equiv> chan_buf (sub_events s)"

abbreviation push :: "event \<Rightarrow> subscription \<Rightarrow> subscription" where
  "push event s \<equiv> s\<lparr>sub_events := (sub_events s)\<lparr>chan_buf := queue s @ [event]\<rparr>\<rparr>"

abbreviation has_room :: "subscription \<Rightarrow> bool" where
  "has_room s \<equiv> length (queue s) < chan_cap (sub_events s)"

section \<open>Lemmas\<close>

lemmas enqueue_defs = enqueue_def enqueue_enter_def enqueue_select_def done_case_def
  ctx_case_def send_case_def chan_send_def

lemma wf_newSubscription: "1 \<le> n \<Longrightarrow> wf_sub (newSubscription t i n)"
  by (simp add: wf_sub_def newSubscription_def make_chan_def)

text \<open>What an uninterrupted \<open>enqueue\<close> can do, on every branch.\<close>

lemma enqueue_closed: "sub_closed s \<Longrightarrow> enqueue c ev p s = [Returns (Some ErrSubscription) s]"
  by (simp add: enqueue_def enqueue_enter_def)

lemma enqueue_Drop:
  "wf_sub s \<Longrightarrow> \<not> sub_closed s \<Longrightarrow>
     enqueue c ev Drop s =
       (if has_room s then [Returns None (push ev s)] else [Returns (Some ErrQueueFull) s])"
  by (simp add: enqueue_defs wf_sub_def)

lemma enqueue_Block:
  "wf_sub s \<Longrightarrow> \<not> sub_closed s \<Longrightarrow> p \<noteq> Drop \<Longrightarrow>
     enqueue c ev p s =
       (case c of Some e \<Rightarrow> [Returns (Some e) s] | None \<Rightarrow> [])
       @ (if has_room s then [Returns None (push ev s)] else [])"
  by (simp add: enqueue_defs wf_sub_def split: option.splits)

lemma enqueue_outcome:
  assumes "wf_sub s" "out \<in> set (enqueue c ev p s)"
  shows "(\<exists>e. out = Returns (Some e) s) \<or> (\<not> sub_closed s \<and> has_room s \<and> out = Returns None (push ev s))"
proof (cases "sub_closed s")
  case True
  with assms show ?thesis by (simp add: enqueue_closed)
next
  case False
  with assms show ?thesis
    by (cases "p = Drop") (auto simp: enqueue_Drop enqueue_Block split: if_splits option.splits)
qed

lemma wf_sub_push: "wf_sub s \<Longrightarrow> has_room s \<Longrightarrow> wf_sub (push ev s)"
  by (simp add: wf_sub_def)

lemma discard_events_open:
  "\<not> chan_closed c \<Longrightarrow> discard_events c = Some (c\<lparr>chan_buf := [], chan_closed := True\<rparr>)"
proof (induction c rule: discard_events.induct)
  case (1 c)
  show ?case
  proof (cases "chan_buf c")
    case Nil
    with "1.prems" show ?thesis
      by (simp add: discard_events.simps [of c] chan_recv_def chan_close_def)
  next
    case (Cons x xs)
    with "1.prems" "1.IH" [of x "c\<lparr>chan_buf := xs\<rparr>"] show ?thesis
      by (simp add: discard_events.simps [of c] chan_recv_def)
  qed
qed

abbreviation shut :: "bool \<Rightarrow> subscription \<Rightarrow> subscription" where
  "shut drain s \<equiv> s\<lparr>sub_closed := True, sub_done := True, sub_once := OnceDone,
     sub_events := (sub_events s)\<lparr>chan_buf := (if drain then queue s else []), chan_closed := True\<rparr>\<rparr>"

lemma sub_close_wf:
  "wf_sub s \<Longrightarrow> sub_close drain s = Some (if sub_closed s then s else shut drain s)"
  by (auto simp: sub_close_def wf_sub_def close_mark_def close_events_def chan_close_def
      discard_events_open)

lemma wf_sub_shut: "wf_sub s \<Longrightarrow> wf_sub (shut drain s)"
  by (simp add: wf_sub_def)

lemma wf_sub_recv:
  assumes "wf_sub s" "chan_recv (sub_events s) = RecvOk x c"
  shows "wf_sub (s\<lparr>sub_events := c\<rparr>) \<and> queue s = x # chan_buf c"
  using assms by (auto simp: wf_sub_def chan_recv_def split: list.splits if_splits)

end
