(* ===== verification/Broker.thy ===== *)
theory Broker
  imports Subscription
begin

text \<open>
  The broker of \<open>broker/broker.go\<close>. Its mutex makes each critical section atomic, so each
  section is one definition on the record \<open>broker\<close>; the operations compose the sections
  for a caller that is not interrupted. Subscriptions are reached through pointers
  in the code: here they live in the list \<open>b_heap\<close> and the topic maps hold their addresses.
  The well-formedness invariant of the broker and its preservation by every operation are
  in this theory, the properties in \<open>Broker_Properties\<close>.
\<close>

section \<open>Definitions\<close>

record Config =
  QueueSize :: int
  CacheSize :: int
  DeduplicationSize :: int
  Backpressure :: BackpressurePolicy

type_synonym addr = nat

record broker =
  b_closed :: bool
  b_draining :: bool
  b_config :: Config
  b_sequence :: u64
  b_topics :: "(string, (u64, addr) gomap) gomap"
  b_cache :: "(string, event list) gomap"
  b_dedup :: "(string, string list) gomap"
  b_heap :: "subscription list"

definition put_sub :: "addr \<Rightarrow> subscription \<Rightarrow> broker \<Rightarrow> broker" where
  "put_sub a s b = b\<lparr>b_heap := (b_heap b)[a := s]\<rparr>"

record State =
  st_Closed :: bool
  st_Draining :: bool
  st_Topics :: nat
  st_Subscriptions :: nat
  st_PendingEvents :: nat
  st_CachedEvents :: nat

definition broker_State :: "broker \<Rightarrow> State" where
  "broker_State b =
     \<lparr>st_Closed = b_closed b, st_Draining = b_draining b, st_Topics = length (b_topics b),
      st_Subscriptions = sum_list (map (\<lambda>(_, subs). length subs) (b_topics b)),
      st_PendingEvents =
        sum_list (map (\<lambda>(_, subs). sum_list (map (\<lambda>(_, a). length (queue (b_heap b ! a))) subs))
          (b_topics b)),
      st_CachedEvents = sum_list (map (\<lambda>(_, evs). length evs) (b_cache b))\<rparr>"

definition broker_New :: "Config \<Rightarrow> broker" where
  "broker_New config =
     (let c1 = (if QueueSize config < 1 then config\<lparr>QueueSize := 1\<rparr> else config);
          c2 = (if CacheSize c1 < 0 then c1\<lparr>CacheSize := 0\<rparr> else c1);
          c3 = (if DeduplicationSize c2 < 0 then c2\<lparr>DeduplicationSize := 0\<rparr> else c2)
      in \<lparr>b_closed = False, b_draining = False, b_config = c3, b_sequence = 0, b_topics = [],
          b_cache = [], b_dedup = [], b_heap = []\<rparr>)"

subsection \<open>Subscribe\<close>

text \<open>
  \<open>None\<close> stands for a call that never returns: the replay sends to the new channel while
  the broker's mutex is held, and a send that blocks there would block for ever.
\<close>

definition Subscribe :: "string \<Rightarrow> broker \<Rightarrow> ((go_error + addr) \<times> broker) option" where
  "Subscribe topic b =
     (if b_closed b \<or> b_draining b then Some (Inl ErrClosed, b)
      else
        (let sequence = b_sequence b + 1;
             s = newSubscription topic sequence (QueueSize (b_config b));
             a = length (b_heap b);
             subs = AList.update sequence a (map_get [] (b_topics b) topic);
             b1 = b\<lparr>b_sequence := sequence, b_topics := AList.update topic subs (b_topics b)\<rparr>;
             cached = map_get [] (b_cache b) topic
         in if 0 < length cached then
              (let replayCount =
                     (if chan_cap (sub_events s) < length cached then chan_cap (sub_events s)
                      else length cached)
               in case send_all chan_send_opt (take replayCount cached) (sub_events s) of
                    None \<Rightarrow> None
                  | Some c \<Rightarrow>
                      Some (Inr a,
                        b1\<lparr>b_heap := b_heap b @ [s\<lparr>sub_events := c\<rparr>],
                           b_cache :=
                             (if replayCount = length cached then AList.delete topic (b_cache b)
                              else AList.update topic (drop replayCount cached) (b_cache b))\<rparr>))
            else Some (Inr a, b1\<lparr>b_heap := b_heap b @ [s]\<rparr>)))"

definition BeginShutdown :: "broker \<Rightarrow> broker" where
  "BeginShutdown b = b\<lparr>b_draining := True\<rparr>"

subsection \<open>Publish\<close>

datatype PublishResult = Published | Duplicate

definition seen :: "string \<Rightarrow> string \<Rightarrow> broker \<Rightarrow> bool" where
  "seen topic key b =
     (if key = [] \<or> DeduplicationSize (b_config b) = 0 then False
      else key \<in> set (map_get [] (b_dedup b) topic))"

text \<open>
  The key that makes room is the first one the \<open>range\<close> loop over the map visits, which is
  the argument \<open>ki\<close> here and an arbitrary key in Go.
\<close>

definition remember :: "string iter \<Rightarrow> string \<Rightarrow> string \<Rightarrow> broker \<Rightarrow> broker" where
  "remember ki topic key b =
     (if key = [] \<or> DeduplicationSize (b_config b) = 0 then b
      else
        (let keys = map_get [] (b_dedup b) topic;
             kept = (if DeduplicationSize (b_config b) \<le> int (length keys)
                     then (case ki keys of [] \<Rightarrow> keys | oldest # _ \<Rightarrow> remove1 oldest keys)
                     else keys)
         in b\<lparr>b_dedup := AList.update topic (List.insert key kept) (b_dedup b)\<rparr>))"

definition cacheEvent :: "event \<Rightarrow> broker \<Rightarrow> broker" where
  "cacheEvent event b =
     (if CacheSize (b_config b) = 0 then b
      else
        (let cached = map_get [] (b_cache b) (ev_Topic event);
             cached' = (if CacheSize (b_config b) \<le> int (length cached) then tl cached else cached)
         in b\<lparr>b_cache := AList.update (ev_Topic event) (cached' @ [event]) (b_cache b)\<rparr>))"

text \<open>
  The critical section at the start of \<open>PublishWithResult\<close>: it returns, or it hands the
  caller the subscribers, in map order, and the policy, and releases the mutex.
\<close>

datatype publish_start =
    StartReturns PublishResult "go_error option" broker
  | StartRoutes "addr list" BackpressurePolicy

definition publish_begin ::
    "(u64 \<times> addr) iter \<Rightarrow> string iter \<Rightarrow> event \<Rightarrow> broker \<Rightarrow> publish_start" where
  "publish_begin si ki event b =
     (if b_closed b then StartReturns Published (Some ErrClosed) b
      else if b_draining b then StartReturns Published (Some ErrDraining) b
      else
        (let key = idempotencyKey event in
         if key \<noteq> [] \<and> seen (ev_Topic event) key b then StartReturns Duplicate None b
         else
           (let subscribers = map snd (si (map_get [] (b_topics b) (ev_Topic event))) in
            if subscribers = []
            then StartReturns Published None (remember ki (ev_Topic event) key (cacheEvent event b))
            else StartRoutes subscribers (Backpressure (b_config b)))))"

text \<open>
  The loop over the subscribers. A run that may take several courses is the list of its
  results, empty when it blocks for ever; \<open>None\<close> in it is a panic.
\<close>

fun fan_out :: "ctx \<Rightarrow> event \<Rightarrow> BackpressurePolicy \<Rightarrow> addr list \<Rightarrow> broker \<Rightarrow>
    (go_error option \<times> broker) option list" where
  "fan_out c event policy [] b = [Some (None, b)]"
| "fan_out c event policy (a # as) b =
     concat (map (\<lambda>out. case out of
         Panics \<Rightarrow> [None]
       | Returns (Some e) s \<Rightarrow> [Some (Some e, put_sub a s b)]
       | Returns None s \<Rightarrow> fan_out c event policy as (put_sub a s b))
       (enqueue c event policy (b_heap b ! a)))"

definition publish_end :: "string iter \<Rightarrow> event \<Rightarrow> go_error option \<times> broker \<Rightarrow>
    (PublishResult \<times> go_error option) \<times> broker" where
  "publish_end ki event r =
     (case r of
        (Some e, b) \<Rightarrow> ((Published, Some e), b)
      | (None, b) \<Rightarrow> ((Published, None), remember ki (ev_Topic event) (idempotencyKey event) b))"

definition PublishWithResult ::
    "(u64 \<times> addr) iter \<Rightarrow> string iter \<Rightarrow> ctx \<Rightarrow> event \<Rightarrow> broker \<Rightarrow>
     ((PublishResult \<times> go_error option) \<times> broker) option list" where
  "PublishWithResult si ki c event b =
     (case publish_begin si ki event b of
        StartReturns r err b' \<Rightarrow> [Some ((r, err), b')]
      | StartRoutes subscribers policy \<Rightarrow>
          map (map_option (publish_end ki event)) (fan_out c event policy subscribers b))"

definition Publish ::
    "(u64 \<times> addr) iter \<Rightarrow> string iter \<Rightarrow> ctx \<Rightarrow> event \<Rightarrow> broker \<Rightarrow>
     (go_error option \<times> broker) option list" where
  "Publish si ki c event b =
     map (map_option (\<lambda>((_, err), b'). (err, b'))) (PublishWithResult si ki c event b)"

subsection \<open>Close\<close>

text \<open>\<open>Subscription.Close\<close>: leave the topic map under the broker's mutex, then close.\<close>

definition unregister :: "addr \<Rightarrow> broker \<Rightarrow> broker" where
  "unregister a b =
     (let s = b_heap b ! a in
      case map_of (b_topics b) (sub_topic s) of
        None \<Rightarrow> b
      | Some subs \<Rightarrow>
          (let subs' = AList.delete (sub_id s) subs in
           b\<lparr>b_topics :=
               (if length subs' = 0 then AList.delete (sub_topic s) (b_topics b)
                else AList.update (sub_topic s) subs' (b_topics b))\<rparr>))"

definition Subscription_Close :: "addr \<Rightarrow> broker \<Rightarrow> broker option" where
  "Subscription_Close a b =
     (let b1 = unregister a b in
      map_option (\<lambda>s. put_sub a s b1) (sub_close True (b_heap b1 ! a)))"

fun close_all :: "addr list \<Rightarrow> broker \<Rightarrow> broker option" where
  "close_all [] b = Some b"
| "close_all (a # as) b =
     (case sub_close False (b_heap b ! a) of
        None \<Rightarrow> None
      | Some s \<Rightarrow> close_all as (put_sub a s b))"

definition registered :: "broker \<Rightarrow> addr list" where
  "registered b = concat (map (\<lambda>(_, subs). map snd subs) (b_topics b))"

definition broker_Close :: "addr iter \<Rightarrow> broker \<Rightarrow> broker option" where
  "broker_Close ai b =
     (if b_closed b then Some b
      else close_all (ai (registered b)) (b\<lparr>b_closed := True, b_topics := []\<rparr>))"

subsection \<open>Receiving and draining\<close>

text \<open>A consumer takes the next event of \<open>Events()\<close>, if one is buffered.\<close>

definition Receive :: "addr \<Rightarrow> broker \<Rightarrow> (event \<times> broker) option" where
  "Receive a b =
     (case chan_recv (sub_events (b_heap b ! a)) of
        RecvOk x c \<Rightarrow> Some (x, put_sub a ((b_heap b ! a)\<lparr>sub_events := c\<rparr>) b)
      | _ \<Rightarrow> None)"

text \<open>
  \<open>Drain\<close> polls: each turn of its loop sees the broker as it is at that moment, and then
  either the context's error or a tick. \<open>None\<close> means it has not returned after these turns.
\<close>

datatype drain_wake = CtxDone go_error | Tick

fun Drain :: "addr \<Rightarrow> (broker \<times> drain_wake) list \<Rightarrow> (go_error option \<times> broker) option" where
  "Drain a [] = None"
| "Drain a ((b, wake) # turns) =
     (if length (queue (b_heap b ! a)) = 0
      then map_option (\<lambda>b'. (None, b')) (Subscription_Close a b)
      else case wake of CtxDone e \<Rightarrow> Some (Some e, b) | Tick \<Rightarrow> Drain a turns)"

subsection \<open>The invariant\<close>

definition wf_config :: "Config \<Rightarrow> bool" where
  "wf_config c \<longleftrightarrow> 1 \<le> QueueSize c \<and> 0 \<le> CacheSize c \<and> 0 \<le> DeduplicationSize c"

text \<open>
  The heap: subscriptions are numbered by the sequence counter, well-formed, and all have
  the configured capacity.
\<close>

definition wf_heap :: "broker \<Rightarrow> bool" where
  "wf_heap b \<longleftrightarrow> b_sequence b = word_of_nat (length (b_heap b))
     \<and> (\<forall>a < length (b_heap b).
          wf_sub (b_heap b ! a) \<and> sub_id (b_heap b ! a) = word_of_nat (Suc a)
          \<and> chan_cap (sub_events (b_heap b ! a)) = nat (QueueSize (b_config b)))"

text \<open>
  The topic maps: distinct keys, no topic without subscribers, each entry an open
  subscription to that topic under its own identifier; none after \<open>Close\<close>.
\<close>

definition wf_entry :: "broker \<Rightarrow> string \<Rightarrow> u64 \<times> addr \<Rightarrow> bool" where
  "wf_entry b t e \<longleftrightarrow>
     snd e < length (b_heap b) \<and> sub_topic (b_heap b ! snd e) = t
     \<and> sub_id (b_heap b ! snd e) = fst e \<and> \<not> sub_closed (b_heap b ! snd e)"

definition wf_topics :: "broker \<Rightarrow> bool" where
  "wf_topics b \<longleftrightarrow> wf_map (b_topics b) \<and> (b_closed b \<longrightarrow> b_topics b = [])
     \<and> (\<forall>(t, subs) \<in> set (b_topics b). subs \<noteq> [] \<and> wf_map subs \<and> (\<forall>e \<in> set subs. wf_entry b t e))"

text \<open>Every open subscription is registered, until the identifiers wrap around.\<close>

definition all_registered :: "broker \<Rightarrow> bool" where
  "all_registered b \<longleftrightarrow> length (b_heap b) < 2 ^ 64 \<longrightarrow>
     (\<forall>a < length (b_heap b). \<not> sub_closed (b_heap b ! a) \<longrightarrow>
        (sub_id (b_heap b ! a), a) \<in> set (map_get [] (b_topics b) (sub_topic (b_heap b ! a))))"

definition wf_cache :: "broker \<Rightarrow> bool" where
  "wf_cache b \<longleftrightarrow> wf_map (b_cache b)
     \<and> (\<forall>(t, evs) \<in> set (b_cache b).
          evs \<noteq> [] \<and> int (length evs) \<le> CacheSize (b_config b) \<and> (\<forall>ev \<in> set evs. ev_Topic ev = t))"

definition wf_dedup :: "broker \<Rightarrow> bool" where
  "wf_dedup b \<longleftrightarrow> wf_map (b_dedup b)
     \<and> (\<forall>(t, keys) \<in> set (b_dedup b).
          distinct keys \<and> [] \<notin> set keys \<and> int (length keys) \<le> DeduplicationSize (b_config b))"

definition wf_broker :: "broker \<Rightarrow> bool" where
  "wf_broker b \<longleftrightarrow> wf_config (b_config b) \<and> wf_heap b \<and> wf_topics b \<and> all_registered b
     \<and> wf_cache b \<and> wf_dedup b"

section \<open>Reading the invariant\<close>

lemma wf_brokerD:
  assumes "wf_broker b"
  shows "wf_config (b_config b)" "wf_heap b" "wf_topics b" "all_registered b" "wf_cache b" "wf_dedup b"
  using assms by (simp_all add: wf_broker_def)

lemma wf_heapD:
  assumes "wf_heap b" "a < length (b_heap b)"
  shows "wf_sub (b_heap b ! a)" "sub_id (b_heap b ! a) = word_of_nat (Suc a)"
    "chan_cap (sub_events (b_heap b ! a)) = nat (QueueSize (b_config b))"
  using assms by (auto simp: wf_heap_def)

lemma topic_entries:
  assumes "wf_topics b"
  shows "wf_map (map_get [] (b_topics b) t)"
    and "\<forall>e \<in> set (map_get [] (b_topics b) t). wf_entry b t e"
  using assms by (cases rule: map_get_cases [of "[]" "b_topics b" t]; fastforce simp: wf_topics_def)+

lemma topic_addrs:
  assumes "wf_topics b" "a \<in> snd ` set (map_get [] (b_topics b) t)"
  shows "a < length (b_heap b)" "sub_topic (b_heap b ! a) = t" "\<not> sub_closed (b_heap b ! a)"
  using assms topic_entries(2) [OF assms(1), of t] by (auto simp: wf_entry_def)

lemma topic_addrs_distinct:
  assumes "wf_topics b"
  shows "distinct (map snd (map_get [] (b_topics b) t))"
proof -
  let ?m = "map_get [] (b_topics b) t"
  have "inj_on snd (set ?m)"
    using topic_entries(2) [OF assms, of t]
    by (intro inj_onI) (metis prod_eqI wf_entry_def)
  moreover have "distinct ?m"
    using topic_entries(1) [OF assms] by (simp add: distinct_map)
  ultimately show ?thesis by (simp add: distinct_map)
qed

lemma cached_events:
  assumes "wf_cache b" "wf_config (b_config b)"
  shows "int (length (map_get [] (b_cache b) t)) \<le> CacheSize (b_config b)"
    and "\<forall>ev \<in> set (map_get [] (b_cache b) t). ev_Topic ev = t"
  using assms
  by (cases rule: map_get_cases [of "[]" "b_cache b" t]; fastforce simp: wf_cache_def wf_config_def)+

lemma dedup_keys:
  assumes "wf_dedup b" "wf_config (b_config b)"
  shows "distinct (map_get [] (b_dedup b) t)" "[] \<notin> set (map_get [] (b_dedup b) t)"
    and "int (length (map_get [] (b_dedup b) t)) \<le> DeduplicationSize (b_config b)"
  using assms
  by (cases rule: map_get_cases [of "[]" "b_dedup b" t]; fastforce simp: wf_dedup_def wf_config_def)+

section \<open>Every operation keeps the invariant\<close>

lemma wf_New: "wf_broker (broker_New config)"
  by (auto simp: wf_broker_def broker_New_def wf_config_def wf_heap_def wf_topics_def
      all_registered_def wf_cache_def wf_dedup_def Let_def)

lemma put_sub_simps [simp]:
  "b_closed (put_sub a s b) = b_closed b" "b_draining (put_sub a s b) = b_draining b"
  "b_config (put_sub a s b) = b_config b" "b_sequence (put_sub a s b) = b_sequence b"
  "b_topics (put_sub a s b) = b_topics b" "b_cache (put_sub a s b) = b_cache b"
  "b_dedup (put_sub a s b) = b_dedup b" "b_heap (put_sub a s b) = (b_heap b)[a := s]"
  by (simp_all add: put_sub_def)

text \<open>Changing only the queue of an open or closed subscription.\<close>

lemma wf_put_sub:
  assumes "wf_broker b" "a < length (b_heap b)" "wf_sub s"
    and "sub_id s = sub_id (b_heap b ! a)" "sub_topic s = sub_topic (b_heap b ! a)"
    and "sub_closed s = sub_closed (b_heap b ! a)"
    and "chan_cap (sub_events s) = chan_cap (sub_events (b_heap b ! a))"
  shows "wf_broker (put_sub a s b)"
proof -
  have "wf_heap (put_sub a s b)"
    using assms by (auto simp: wf_broker_def wf_heap_def nth_list_update)
  moreover have "wf_entry (put_sub a s b) t e \<longleftrightarrow> wf_entry b t e" for t e
    using assms by (auto simp: wf_entry_def nth_list_update)
  then have "wf_topics (put_sub a s b)"
    using assms(1) by (auto simp: wf_broker_def wf_topics_def)
  moreover have "all_registered (put_sub a s b)"
    using assms by (auto simp: wf_broker_def all_registered_def nth_list_update)
  ultimately show ?thesis
    using assms(1) by (auto simp: wf_broker_def wf_cache_def wf_dedup_def)
qed

lemma wf_BeginShutdown: "wf_broker b \<Longrightarrow> wf_broker (BeginShutdown b)"
  by (auto simp: wf_broker_def BeginShutdown_def wf_heap_def wf_topics_def wf_entry_def
      all_registered_def wf_cache_def wf_dedup_def)

lemma remember_simps [simp]:
  "b_closed (remember ki t k b) = b_closed b" "b_draining (remember ki t k b) = b_draining b"
  "b_config (remember ki t k b) = b_config b" "b_sequence (remember ki t k b) = b_sequence b"
  "b_topics (remember ki t k b) = b_topics b" "b_cache (remember ki t k b) = b_cache b"
  "b_heap (remember ki t k b) = b_heap b"
  by (simp_all add: remember_def Let_def)

lemma cacheEvent_simps [simp]:
  "b_closed (cacheEvent ev b) = b_closed b" "b_draining (cacheEvent ev b) = b_draining b"
  "b_config (cacheEvent ev b) = b_config b" "b_sequence (cacheEvent ev b) = b_sequence b"
  "b_topics (cacheEvent ev b) = b_topics b" "b_dedup (cacheEvent ev b) = b_dedup b"
  "b_heap (cacheEvent ev b) = b_heap b"
  by (simp_all add: cacheEvent_def Let_def)

lemma wf_frame:
  assumes "wf_broker b" "b_closed b' = b_closed b" "b_config b' = b_config b"
    and "b_sequence b' = b_sequence b" "b_topics b' = b_topics b" "b_heap b' = b_heap b"
    and "wf_cache b'" "wf_dedup b'"
  shows "wf_broker b'"
  using assms
  by (auto simp: wf_broker_def wf_heap_def wf_topics_def wf_entry_def all_registered_def)

lemma wf_cache_update:
  assumes "wf_cache b" "b_cache b' = AList.update t evs (b_cache b)" "b_config b' = b_config b"
    and "evs \<noteq> []" "int (length evs) \<le> CacheSize (b_config b)" "\<forall>ev \<in> set evs. ev_Topic ev = t"
  shows "wf_cache b'"
  using assms by (auto simp: wf_cache_def set_AList_update wf_map_update)

lemma wf_cache_subset:
  assumes "wf_cache b" "wf_map (b_cache b')" "set (b_cache b') \<subseteq> set (b_cache b)" "b_config b' = b_config b"
  shows "wf_cache b'"
  using assms unfolding wf_cache_def by (simp only:) blast

lemma wf_dedup_update:
  assumes "wf_dedup b" "b_dedup b' = AList.update t keys (b_dedup b)" "b_config b' = b_config b"
    and "distinct keys" "[] \<notin> set keys" "int (length keys) \<le> DeduplicationSize (b_config b)"
  shows "wf_dedup b'"
  using assms by (auto simp: wf_dedup_def set_AList_update wf_map_update)

lemma wf_remember:
  assumes "wf_broker b" "iteration_order ki"
  shows "wf_broker (remember ki t k b)"
proof (cases "k = [] \<or> DeduplicationSize (b_config b) = 0")
  case True
  with assms show ?thesis by (auto simp: remember_def)
next
  case False
  define keys where "keys = map_get [] (b_dedup b) t"
  define n where "n = DeduplicationSize (b_config b)"
  define kept where "kept = (if n \<le> int (length keys)
    then (case ki keys of [] \<Rightarrow> keys | oldest # _ \<Rightarrow> remove1 oldest keys) else keys)"
  have d: "distinct keys" "[] \<notin> set keys" "int (length keys) \<le> n"
    unfolding keys_def n_def
    by (rule dedup_keys [OF wf_brokerD(6) [OF assms(1)] wf_brokerD(1) [OF assms(1)]])+
  have pos: "0 < n" using False assms(1) by (auto simp: wf_broker_def wf_config_def n_def)
  have kept: "distinct kept \<and> set kept \<subseteq> set keys \<and> int (length kept) < n"
  proof (cases "n \<le> int (length keys)")
    case False
    with d show ?thesis by (simp add: kept_def)
  next
    case True
    with pos have "keys \<noteq> []" by auto
    then obtain oldest ks where ks: "ki keys = oldest # ks"
      using assms(2) by (metis iteration_order_Nil list.exhaust)
    then have "oldest \<in> set keys"
      using assms(2) by (metis iteration_order_set list.set_intros(1))
    with True ks d show ?thesis
      using length_pos_if_in_set [of oldest keys]
      by (simp add: kept_def length_remove1 set_remove1_subset)
  qed
  have "b_dedup (remember ki t k b) = AList.update t (List.insert k kept) (b_dedup b)"
    using False unfolding remember_def Let_def kept_def keys_def n_def by simp
  moreover have "[] \<notin> set (List.insert k kept)"
    using kept d(2) False by auto
  moreover have "int (length (List.insert k kept)) \<le> n"
    using kept by (simp add: List.insert_def)
  ultimately have "wf_dedup (remember ki t k b)"
    using kept by (intro wf_dedup_update [OF wf_brokerD(6) [OF assms(1)]]) (auto simp: n_def)
  moreover have "wf_cache (remember ki t k b)"
    using assms(1) by (simp add: wf_broker_def wf_cache_def)
  ultimately show ?thesis
    by (intro wf_frame [OF assms(1)]) simp_all
qed

lemma wf_cacheEvent:
  assumes "wf_broker b"
  shows "wf_broker (cacheEvent ev b)"
proof (cases "CacheSize (b_config b) = 0")
  case True
  with assms show ?thesis by (simp add: cacheEvent_def)
next
  case False
  let ?cached = "map_get [] (b_cache b) (ev_Topic ev)"
  have c: "int (length ?cached) \<le> CacheSize (b_config b)" "\<forall>e \<in> set ?cached. ev_Topic e = ev_Topic ev"
    using cached_events [OF wf_brokerD(5) [OF assms] wf_brokerD(1) [OF assms]] by auto
  have "0 < CacheSize (b_config b)"
    using False assms by (auto simp: wf_broker_def wf_config_def)
  let ?new = "(if CacheSize (b_config b) \<le> int (length ?cached) then tl ?cached else ?cached) @ [ev]"
  have "set ?new \<subseteq> insert ev (set ?cached)"
    by (cases ?cached) auto
  then have topic: "\<forall>e \<in> set ?new. ev_Topic e = ev_Topic ev"
    using c(2) by blast
  have len: "int (length ?new) \<le> CacheSize (b_config b)"
    using c(1) \<open>0 < CacheSize (b_config b)\<close> by simp
  have "b_cache (cacheEvent ev b) = AList.update (ev_Topic ev) ?new (b_cache b)"
    using False by (simp add: cacheEvent_def Let_def)
  then have "wf_cache (cacheEvent ev b)"
    using wf_cache_update [OF wf_brokerD(5) [OF assms] _ _ _ len topic] by simp
  moreover have "wf_dedup (cacheEvent ev b)"
    using assms by (simp add: wf_broker_def wf_dedup_def)
  ultimately show ?thesis
    by (intro wf_frame [OF assms]) simp_all
qed

subsection \<open>Publishing\<close>

text \<open>The broker after the event has been appended to the queues of the subscriptions \<open>as\<close>.\<close>

definition push_all :: "event \<Rightarrow> addr list \<Rightarrow> broker \<Rightarrow> broker" where
  "push_all ev as b =
     b\<lparr>b_heap := map (\<lambda>a. if a \<in> set as then push ev (b_heap b ! a) else b_heap b ! a)
         [0..<length (b_heap b)]\<rparr>"

lemma push_all_simps [simp]:
  "b_closed (push_all ev as b) = b_closed b" "b_draining (push_all ev as b) = b_draining b"
  "b_config (push_all ev as b) = b_config b" "b_sequence (push_all ev as b) = b_sequence b"
  "b_topics (push_all ev as b) = b_topics b" "b_cache (push_all ev as b) = b_cache b"
  "b_dedup (push_all ev as b) = b_dedup b" "length (b_heap (push_all ev as b)) = length (b_heap b)"
  by (simp_all add: push_all_def)

lemma push_all_nth [simp]:
  "a < length (b_heap b) \<Longrightarrow>
     b_heap (push_all ev as b) ! a = (if a \<in> set as then push ev (b_heap b ! a) else b_heap b ! a)"
  by (simp add: push_all_def)

lemma broker_heap_eqI:
  assumes "length (b_heap b) = length (b_heap b')"
    and "\<And>a. a < length (b_heap b) \<Longrightarrow> b_heap b ! a = b_heap b' ! a"
    and "b\<lparr>b_heap := []\<rparr> = b'\<lparr>b_heap := []\<rparr>"
  shows "b = b'"
proof -
  have "b_heap b = b_heap b'" using assms(1,2) by (rule nth_equalityI)
  with assms(3) show ?thesis by (cases b; cases b') simp
qed

lemma push_all_Nil [simp]: "push_all ev [] b = b"
  by (rule broker_heap_eqI) (simp_all add: push_all_def)

lemma list_update_other: "a \<notin> set as \<Longrightarrow> x \<in> set as \<Longrightarrow> xs[a := s] ! x = xs ! x"
  by (metis nth_list_update_neq)

lemma push_all_Cons:
  assumes "a \<notin> set as"
  shows "push_all ev as (put_sub a (push ev (b_heap b ! a)) b) = push_all ev (a # as) b"
proof (rule broker_heap_eqI)
  fix x
  assume "x < length (b_heap (push_all ev as (put_sub a (push ev (b_heap b ! a)) b)))"
  then show "b_heap (push_all ev as (put_sub a (push ev (b_heap b ! a)) b)) ! x
      = b_heap (push_all ev (a # as) b) ! x"
    using assms by (auto simp: nth_list_update list_update_other)
qed (simp_all add: push_all_def put_sub_def)

lemma wf_put_push:
  assumes "wf_broker b" "a < length (b_heap b)" "has_room (b_heap b ! a)"
  shows "wf_broker (put_sub a (push ev (b_heap b ! a)) b)"
  using assms wf_heapD(1) [OF wf_brokerD(2) [OF assms(1)] assms(2)]
  by (intro wf_put_sub) (auto intro: wf_sub_push)

text \<open>
  Whatever the policy and the context, the event reaches an initial part of the subscriber
  list, all of it when there is no error, and nothing panics.
\<close>

lemma fan_out_outcome:
  assumes "wf_broker b" "distinct as" "\<forall>a \<in> set as. a < length (b_heap b)"
    and "r \<in> set (fan_out c ev p as b)"
  shows "\<exists>pre err. prefix pre as \<and> r = Some (err, push_all ev pre b) \<and> (err = None \<longleftrightarrow> pre = as)
    \<and> wf_broker (push_all ev pre b)"
  using assms
proof (induction as arbitrary: b)
  case Nil
  then show ?case by auto
next
  case (Cons a as)
  let ?s = "b_heap b ! a"
  have a: "a < length (b_heap b)" and wfs: "wf_sub ?s"
    using Cons.prems wf_heapD(1) [OF wf_brokerD(2)] by auto
  from Cons.prems(4) obtain out where out: "out \<in> set (enqueue c ev p ?s)"
      and r: "r \<in> set (case out of Panics \<Rightarrow> [None] | Returns (Some e) s \<Rightarrow> [Some (Some e, put_sub a s b)]
         | Returns None s \<Rightarrow> fan_out c ev p as (put_sub a s b))"
    by auto
  from enqueue_outcome [OF wfs out] show ?case
  proof (elim disjE exE conjE)
    fix e assume "out = Returns (Some e) ?s"
    with r Cons.prems(1) show ?thesis
      by (intro exI [of _ "[]"]) (simp add: put_sub_def)
  next
    assume room: "has_room ?s" and "out = Returns None (push ev ?s)"
    let ?b = "put_sub a (push ev ?s) b"
    have "wf_broker ?b" using Cons.prems(1) a room by (rule wf_put_push)
    with Cons.IH [of ?b] Cons.prems r \<open>out = _\<close> obtain pre err where
      ih: "prefix pre as" "r = Some (err, push_all ev pre ?b)" "err = None \<longleftrightarrow> pre = as"
        "wf_broker (push_all ev pre ?b)"
      by auto
    have "a \<notin> set pre" using ih(1) Cons.prems(2) by (auto dest: set_mono_prefix)
    with ih show ?thesis
      by (intro exI [of _ "a # pre"] exI [of _ err]) (simp add: push_all_Cons)
  qed
qed

text \<open>With room everywhere the event reaches every subscriber.\<close>

lemma fan_out_room:
  assumes "wf_broker b" "distinct as" "c = None \<or> p = Drop"
    and "\<forall>a \<in> set as. a < length (b_heap b) \<and> \<not> sub_closed (b_heap b ! a) \<and> has_room (b_heap b ! a)"
  shows "fan_out c ev p as b = [Some (None, push_all ev as b)]"
  using assms
proof (induction as arbitrary: b)
  case Nil
  then show ?case by simp
next
  case (Cons a as)
  let ?s = "b_heap b ! a" and ?b = "put_sub a (push ev (b_heap b ! a)) b"
  have wfs: "wf_sub ?s" using Cons.prems wf_heapD(1) [OF wf_brokerD(2)] by auto
  have enq: "enqueue c ev p ?s = [Returns None (push ev ?s)]"
    using Cons.prems wfs by (cases "p = Drop") (auto simp: enqueue_Drop enqueue_Block)
  have "wf_broker ?b" using Cons.prems by (intro wf_put_push) auto
  then have "fan_out c ev p as ?b = [Some (None, push_all ev as ?b)]"
    using Cons.prems by (intro Cons.IH) (auto simp: nth_list_update)
  with enq Cons.prems(2) show ?case by (simp add: push_all_Cons)
qed

text \<open>Under \<open>Drop\<close> the first full queue ends the loop.\<close>

lemma fan_out_Drop:
  assumes "wf_broker b" "distinct as"
    and "\<forall>a \<in> set as. a < length (b_heap b) \<and> \<not> sub_closed (b_heap b ! a)"
  shows "fan_out c ev Drop as b =
    (let pre = takeWhile (\<lambda>a. has_room (b_heap b ! a)) as in
     [Some (if pre = as then None else Some ErrQueueFull, push_all ev pre b)])"
  using assms
proof (induction as arbitrary: b)
  case Nil
  then show ?case by simp
next
  case (Cons a as)
  let ?s = "b_heap b ! a" and ?b = "put_sub a (push ev (b_heap b ! a)) b"
  have wfs: "wf_sub ?s" using Cons.prems wf_heapD(1) [OF wf_brokerD(2)] by auto
  show ?case
  proof (cases "has_room ?s")
    case False
    with wfs Cons.prems show ?thesis by (simp add: enqueue_Drop put_sub_def)
  next
    case True
    have "wf_broker ?b" using Cons.prems True by (intro wf_put_push) auto
    moreover have tw: "takeWhile (\<lambda>x. has_room (b_heap ?b ! x)) as = takeWhile (\<lambda>x. has_room (b_heap b ! x)) as"
      using Cons.prems(2) by (intro takeWhile_cong) (auto simp: list_update_other)
    ultimately have "fan_out c ev Drop as ?b =
      (let pre = takeWhile (\<lambda>a. has_room (b_heap b ! a)) as in
       [Some (if pre = as then None else Some ErrQueueFull, push_all ev pre ?b)])"
      using Cons.IH [of ?b] Cons.prems by (auto simp: nth_list_update)
    moreover have "a \<notin> set (takeWhile (\<lambda>x. has_room (b_heap b ! x)) as)"
      using Cons.prems(2) by (auto dest: set_takeWhileD)
    ultimately show ?thesis
      using True wfs Cons.prems by (simp add: enqueue_Drop push_all_Cons Let_def)
  qed
qed

text \<open>Under any other policy a full queue stops a caller whose context stays live.\<close>

lemma fan_out_blocks:
  assumes "wf_broker b" "distinct as" "p \<noteq> Drop"
    and "\<forall>a \<in> set as. a < length (b_heap b) \<and> \<not> sub_closed (b_heap b ! a)"
    and "\<exists>a \<in> set as. \<not> has_room (b_heap b ! a)"
  shows "fan_out None ev p as b = []"
  using assms
proof (induction as arbitrary: b)
  case Nil
  then show ?case by simp
next
  case (Cons a as)
  let ?s = "b_heap b ! a" and ?b = "put_sub a (push ev (b_heap b ! a)) b"
  have wfs: "wf_sub ?s" using Cons.prems wf_heapD(1) [OF wf_brokerD(2)] by auto
  show ?case
  proof (cases "has_room ?s")
    case False
    with wfs Cons.prems show ?thesis by (simp add: enqueue_Block)
  next
    case True
    have "wf_broker ?b" using Cons.prems True by (intro wf_put_push) auto
    moreover have "\<exists>x \<in> set as. \<not> has_room (b_heap ?b ! x)"
      using Cons.prems(2,5) True by (auto simp: list_update_other)
    ultimately have "fan_out None ev p as ?b = []"
      using Cons.IH [of ?b] Cons.prems by (auto simp: nth_list_update)
    with True wfs Cons.prems show ?thesis by (simp add: enqueue_Block)
  qed
qed

lemma publish_begin_routes:
  assumes "wf_broker b" "iteration_order si" "publish_begin si ki ev b = StartRoutes as p"
  shows "mset as = mset (map snd (map_get [] (b_topics b) (ev_Topic ev)))"
    and "distinct as" "as \<noteq> []" "p = Backpressure (b_config b)"
    and "\<forall>a \<in> set as. a < length (b_heap b) \<and> sub_topic (b_heap b ! a) = ev_Topic ev
      \<and> \<not> sub_closed (b_heap b ! a)"
proof -
  let ?subs = "map_get [] (b_topics b) (ev_Topic ev)"
  from assms(3) have as: "as = map snd (si ?subs)" "as \<noteq> []" "p = Backpressure (b_config b)"
    by (auto simp: publish_begin_def Let_def split: if_splits)
  then show m: "mset as = mset (map snd ?subs)" "as \<noteq> []" "p = Backpressure (b_config b)"
    using assms(2) by (simp_all add: iteration_order_def)
  show "distinct as"
    using topic_addrs_distinct [OF wf_brokerD(3) [OF assms(1)], of "ev_Topic ev"] m(1)
    by (metis mset_eq_imp_distinct_iff)
  have "set as = snd ` set ?subs" using as(1) assms(2) by simp
  then show "\<forall>a \<in> set as. a < length (b_heap b) \<and> sub_topic (b_heap b ! a) = ev_Topic ev
      \<and> \<not> sub_closed (b_heap b ! a)"
    using topic_addrs [OF wf_brokerD(3) [OF assms(1)], of _ "ev_Topic ev"] by simp
qed

lemma wf_PublishWithResult:
  assumes "wf_broker b" "iteration_order si" "iteration_order ki"
    and "r \<in> set (PublishWithResult si ki c ev b)"
  shows "\<exists>res b'. r = Some (res, b') \<and> wf_broker b'"
proof (cases "publish_begin si ki ev b")
  case (StartReturns res err b')
  then have "wf_broker b'"
    using assms(1,3)
    by (auto simp: publish_begin_def Let_def intro: wf_remember wf_cacheEvent split: if_splits)
  with StartReturns assms(4) show ?thesis by (auto simp: PublishWithResult_def)
next
  case (StartRoutes as p)
  note routes = publish_begin_routes [OF assms(1,2) StartRoutes]
  from assms(4) StartRoutes obtain r' where r': "r' \<in> set (fan_out c ev p as b)"
      "r = map_option (publish_end ki ev) r'"
    by (auto simp: PublishWithResult_def)
  then obtain pre err where "r' = Some (err, push_all ev pre b)" "wf_broker (push_all ev pre b)"
    using fan_out_outcome [OF assms(1) routes(2) _ r'(1)] routes(5) by blast
  with r'(2) assms(3) show ?thesis
    by (cases err) (auto simp: publish_end_def wf_remember)
qed

subsection \<open>Subscribing\<close>

lemma chan_eqI: "chan_buf (c :: 'a chan) = chan_buf d \<Longrightarrow> chan_cap c = chan_cap d \<Longrightarrow>
    chan_closed c = chan_closed d \<Longrightarrow> c = d"
  by simp

text \<open>The replay never blocks, since it sends no more than the new channel holds.\<close>

lemma replay_sends:
  assumes "length evs \<le> n"
  shows "send_all chan_send_opt evs (make_chan n) = Some ((make_chan n)\<lparr>chan_buf := evs\<rparr>)"
proof -
  obtain q where "send_all chan_send_opt evs (make_chan n) = Some q" "chan_buf q = evs"
      "chan_cap q = n" "\<not> chan_closed q"
    using cq.send_all_fits [of "make_chan n" evs] assms by (auto simp: make_chan_def)
  then show ?thesis by (auto simp: make_chan_def intro: chan_eqI)
qed

definition subscribed :: "string \<Rightarrow> broker \<Rightarrow> broker" where
  "subscribed topic b =
     (let sequence = b_sequence b + 1; q = nat (QueueSize (b_config b));
          cached = map_get [] (b_cache b) topic;
          s = newSubscription topic sequence (QueueSize (b_config b))
      in b\<lparr>b_sequence := sequence,
           b_topics := AList.update topic
             (AList.update sequence (length (b_heap b)) (map_get [] (b_topics b) topic)) (b_topics b),
           b_heap := b_heap b @ [s\<lparr>sub_events := (make_chan q)\<lparr>chan_buf := take q cached\<rparr>\<rparr>],
           b_cache := (if cached = [] then b_cache b
             else if length cached \<le> q then AList.delete topic (b_cache b)
             else AList.update topic (drop q cached) (b_cache b))\<rparr>)"

lemma Subscribe_eq:
  assumes "\<not> b_closed b" "\<not> b_draining b"
  shows "Subscribe topic b = Some (Inr (length (b_heap b)), subscribed topic b)"
proof -
  let ?cached = "map_get [] (b_cache b) topic" and ?q = "nat (QueueSize (b_config b))"
  have "send_all chan_send_opt (take (if ?q < length ?cached then ?q else length ?cached) ?cached)
      (make_chan ?q) = Some ((make_chan ?q)\<lparr>chan_buf := take ?q ?cached\<rparr>)"
    by (subst replay_sends) auto
  then show ?thesis
    using assms
    by (auto simp: Subscribe_def subscribed_def Let_def newSubscription_def make_chan_def)
qed

lemma wf_entry_append:
  "wf_entry b t e \<Longrightarrow> b_heap b' = b_heap b @ ss \<Longrightarrow> wf_entry b' t e"
  by (auto simp: wf_entry_def nth_append)

lemma word_of_nat_inj_bound:
  assumes "(word_of_nat m :: u64) = word_of_nat n" "m < 2 ^ 64" "n < 2 ^ 64"
  shows "m = n"
  using assms by (simp add: word_of_nat_eq_iff take_bit_nat_eq_self)

lemma wf_subscribed:
  assumes "wf_broker b" "\<not> b_closed b"
  shows "wf_broker (subscribed topic b)"
proof -
  let ?b = "subscribed topic b" and ?seq = "b_sequence b + 1" and ?n = "length (b_heap b)"
  let ?cached = "map_get [] (b_cache b) topic" and ?q = "nat (QueueSize (b_config b))"
  let ?subs = "AList.update ?seq ?n (map_get [] (b_topics b) topic)"
  obtain s where s: "b_heap ?b = b_heap b @ [s]" "wf_sub s" "sub_id s = ?seq" "sub_topic s = topic"
      "\<not> sub_closed s" "chan_cap (sub_events s) = ?q"
    using wf_brokerD(1) [OF assms(1)]
    by (auto simp: subscribed_def Let_def newSubscription_def make_chan_def wf_sub_def wf_config_def)
  have same: "b_config ?b = b_config b" "b_closed ?b = b_closed b" "b_dedup ?b = b_dedup b"
      "b_sequence ?b = ?seq" "b_topics ?b = AList.update topic ?subs (b_topics b)"
    by (simp_all add: subscribed_def Let_def)
  have seq: "?seq = word_of_nat (Suc ?n)"
    using wf_brokerD(2) [OF assms(1)] by (simp add: wf_heap_def)
  have heap: "wf_heap ?b"
    using wf_brokerD(2) [OF assms(1)] s same seq by (auto simp: wf_heap_def nth_append less_Suc_eq)
  have topics: "wf_topics ?b"
  proof -
    have "wf_entry ?b topic (?seq, ?n)"
      using s by (simp add: wf_entry_def)
    moreover have "wf_entry ?b t e" if "wf_entry b t e" for t e
      using that s(1) by (rule wf_entry_append)
    ultimately have "\<forall>e \<in> set ?subs. wf_entry ?b topic e"
      using topic_entries [OF wf_brokerD(3) [OF assms(1)], of topic] by (auto simp: set_AList_update)
    moreover have "wf_map ?subs" "?subs \<noteq> []"
      using topic_entries(1) [OF wf_brokerD(3) [OF assms(1)], of topic]
      by (auto simp: wf_map_update update_nonempty)
    ultimately show ?thesis
      using wf_brokerD(3) [OF assms(1)] assms(2) \<open>\<And>t e. wf_entry b t e \<Longrightarrow> wf_entry ?b t e\<close>
      by (fastforce simp: wf_topics_def same set_AList_update wf_map_update)
  qed
  have "all_registered ?b"
    unfolding all_registered_def
  proof (intro impI allI)
    fix a
    assume len: "length (b_heap ?b) < 2 ^ 64" and a: "a < length (b_heap ?b)"
      and op: "\<not> sub_closed (b_heap ?b ! a)"
    show "(sub_id (b_heap ?b ! a), a) \<in> set (map_get [] (b_topics ?b) (sub_topic (b_heap ?b ! a)))"
    proof (cases "a = ?n")
      case True
      with s same show ?thesis
        using topic_entries(1) [OF wf_brokerD(3) [OF assms(1)], of topic] by (simp add: set_AList_update)
    next
      case False
      with a s(1) have a': "a < ?n" by simp
      then have sid: "sub_id (b_heap b ! a) = word_of_nat (Suc a)"
        using wf_heapD(2) [OF wf_brokerD(2) [OF assms(1)]] by simp
      have "(sub_id (b_heap b ! a), a) \<in> set (map_get [] (b_topics b) (sub_topic (b_heap b ! a)))"
        using wf_brokerD(4) [OF assms(1)] a' op s(1) len by (auto simp: all_registered_def nth_append)
      moreover have "sub_id (b_heap b ! a) \<noteq> ?seq"
        using word_of_nat_inj_bound [of "Suc a" "Suc ?n"] a' len s(1) unfolding sid seq by auto
      ultimately show ?thesis
        using a' s(1) topic_entries(1) [OF wf_brokerD(3) [OF assms(1)], of topic]
        by (auto simp: same nth_append set_AList_update)
    qed
  qed
  moreover have "wf_cache ?b"
  proof (cases "?q < length ?cached")
    case True
    then have upd: "b_cache ?b = AList.update topic (drop ?q ?cached) (b_cache b)"
      by (auto simp: subscribed_def Let_def)
    show ?thesis
      using True cached_events [OF wf_brokerD(5) [OF assms(1)] wf_brokerD(1) [OF assms(1)], of topic]
      by (intro wf_cache_update [OF wf_brokerD(5) [OF assms(1)] upd same(1)]) (auto dest: in_set_dropD)
  next
    case False
    then have "b_cache ?b \<in> {b_cache b, AList.delete topic (b_cache b)}"
      by (auto simp: subscribed_def Let_def)
    then have "set (b_cache ?b) \<subseteq> set (b_cache b)" "wf_map (b_cache ?b)"
      using wf_brokerD(5) [OF assms(1)] by (auto simp: wf_cache_def set_AList_delete wf_map_delete)
    with same(1) show ?thesis
      by (intro wf_cache_subset [OF wf_brokerD(5) [OF assms(1)]])
  qed
  moreover have "wf_dedup ?b"
    using wf_brokerD(6) [OF assms(1)] same by (simp add: wf_dedup_def)
  ultimately show ?thesis
    using heap topics wf_brokerD(1) [OF assms(1)] same by (simp add: wf_broker_def)
qed

subsection \<open>Closing a subscription\<close>

lemma unregister_simps [simp]:
  "b_closed (unregister a b) = b_closed b" "b_draining (unregister a b) = b_draining b"
  "b_config (unregister a b) = b_config b" "b_sequence (unregister a b) = b_sequence b"
  "b_cache (unregister a b) = b_cache b" "b_dedup (unregister a b) = b_dedup b"
  "b_heap (unregister a b) = b_heap b"
  by (simp_all add: unregister_def Let_def split: option.splits)

lemma unregister_topics:
  "map_get [] (b_topics (unregister a b)) t =
     (if t = sub_topic (b_heap b ! a) then AList.delete (sub_id (b_heap b ! a)) (map_get [] (b_topics b) t)
      else map_get [] (b_topics b) t)"
  by (cases "map_of (b_topics b) (sub_topic (b_heap b ! a))")
    (auto simp: unregister_def Let_def map_get_def [of "[]" "b_topics b"]
      map_get_def [of _ "AList.update _ _ _"] map_get_def [of _ "AList.delete _ _"]
      update_conv' delete_conv')

text \<open>The topic maps can also be read through lookups alone.\<close>

lemma wf_topics_lookup:
  "wf_topics b \<longleftrightarrow> wf_map (b_topics b) \<and> (b_closed b \<longrightarrow> b_topics b = [])
     \<and> [] \<notin> snd ` set (b_topics b)
     \<and> (\<forall>t. wf_map (map_get [] (b_topics b) t) \<and> (\<forall>e \<in> set (map_get [] (b_topics b) t). wf_entry b t e))"
  (is "_ \<longleftrightarrow> ?R")
proof
  assume w: "wf_topics b"
  then show ?R
    using topic_entries [OF w] by (auto simp: wf_topics_def)
next
  assume r: ?R
  have "subs \<noteq> [] \<and> wf_map subs \<and> (\<forall>e \<in> set subs. wf_entry b t e)" if "(t, subs) \<in> set (b_topics b)" for t subs
  proof -
    have "map_get [] (b_topics b) t = subs" using r that by (auto intro: map_get_in)
    moreover have "subs \<noteq> []" using r that by force
    ultimately show ?thesis using r by blast
  qed
  with r show "wf_topics b" unfolding wf_topics_def by blast
qed

lemma unregister_nonempty:
  assumes "wf_map (b_topics b)" "[] \<notin> snd ` set (b_topics b)"
  shows "wf_map (b_topics (unregister a b)) \<and> [] \<notin> snd ` set (b_topics (unregister a b))"
  using assms
  by (auto simp: unregister_def Let_def set_AList_update set_AList_delete wf_map_update wf_map_delete
      split: option.splits)

lemma unregister_closed: "b_topics b = [] \<Longrightarrow> b_topics (unregister a b) = []"
  by (simp add: unregister_def Let_def)

lemma Subscription_Close_eq:
  assumes "wf_broker b" "a < length (b_heap b)"
  shows "Subscription_Close a b =
    Some (put_sub a (if sub_closed (b_heap b ! a) then b_heap b ! a else shut True (b_heap b ! a)) (unregister a b))"
  using sub_close_wf [OF wf_heapD(1) [OF wf_brokerD(2) [OF assms(1)] assms(2)]]
  by (simp add: Subscription_Close_def Let_def)

lemma wf_Subscription_Close:
  assumes "wf_broker b" "a < length (b_heap b)" "Subscription_Close a b = Some b'"
  shows "wf_broker b'"
proof -
  let ?s = "b_heap b ! a"
  define s' where "s' = (if sub_closed ?s then ?s else shut True ?s)"
  have b': "b' = put_sub a s' (unregister a b)"
    using assms Subscription_Close_eq [OF assms(1,2)] by (simp add: s'_def)
  have s': "wf_sub s'" "sub_id s' = sub_id ?s" "sub_topic s' = sub_topic ?s" "sub_closed s'"
      "chan_cap (sub_events s') = chan_cap (sub_events ?s)"
    using wf_heapD(1) [OF wf_brokerD(2) [OF assms(1)] assms(2)]
    by (auto simp: s'_def wf_sub_def)
  have heap: "wf_heap b'"
    using wf_brokerD(2) [OF assms(1)] s' assms(2) by (auto simp: b' wf_heap_def nth_list_update)
  note wt = wf_brokerD(3) [OF assms(1)]
  have "wf_topics b'"
    unfolding wf_topics_lookup
  proof (intro conjI allI ballI impI)
    show "wf_map (b_topics b')" "[] \<notin> snd ` set (b_topics b')"
      using unregister_nonempty [of b a] wt unfolding wf_topics_lookup b' by simp_all
    show "b_topics b' = []" if "b_closed b'"
      using that wt by (auto simp: b' wf_topics_def unregister_closed)
    fix t
    show "wf_map (map_get [] (b_topics b') t)"
      using topic_entries(1) [OF wt, of t] by (auto simp: b' unregister_topics intro: wf_map_delete)
    fix e
    assume "e \<in> set (map_get [] (b_topics b') t)"
    then have "e \<in> set (map_get [] (b_topics b) t)" "t = sub_topic ?s \<Longrightarrow> fst e \<noteq> sub_id ?s"
      by (auto simp: b' unregister_topics set_AList_delete split: if_splits)
    moreover from this have "wf_entry b t e" using topic_entries(2) [OF wt] by blast
    ultimately have "snd e \<noteq> a" by (auto simp: wf_entry_def)
    with \<open>wf_entry b t e\<close> show "wf_entry b' t e" by (simp add: b' wf_entry_def)
  qed
  moreover have "all_registered b'"
    unfolding all_registered_def
  proof (intro impI allI)
    fix x
    assume len: "length (b_heap b') < 2 ^ 64" and x: "x < length (b_heap b')"
      and op: "\<not> sub_closed (b_heap b' ! x)"
    have "x \<noteq> a" using op s' assms(2) by (auto simp: b')
    then have same: "b_heap b' ! x = b_heap b ! x" by (simp add: b')
    have "sub_id (b_heap b ! x) \<noteq> sub_id ?s"
      using word_of_nat_inj_bound [of "Suc x" "Suc a"] \<open>x \<noteq> a\<close> x len assms(2)
        wf_heapD(2) [OF wf_brokerD(2) [OF assms(1)]]
      by (auto simp: b')
    moreover have "(sub_id (b_heap b ! x), x) \<in> set (map_get [] (b_topics b) (sub_topic (b_heap b ! x)))"
      using wf_brokerD(4) [OF assms(1)] x len op same by (auto simp: all_registered_def b')
    ultimately show "(sub_id (b_heap b' ! x), x) \<in> set (map_get [] (b_topics b') (sub_topic (b_heap b' ! x)))"
      unfolding same by (auto simp: b' unregister_topics set_AList_delete)
  qed
  moreover have "wf_cache b'" "wf_dedup b'"
    using wf_brokerD(5,6) [OF assms(1)] by (simp_all add: b' wf_cache_def wf_dedup_def)
  ultimately show ?thesis
    using heap wf_brokerD(1) [OF assms(1)] by (simp add: wf_broker_def b')
qed

subsection \<open>Closing the broker\<close>

definition shut_all :: "addr list \<Rightarrow> broker \<Rightarrow> broker" where
  "shut_all as b =
     b\<lparr>b_heap := map (\<lambda>a. if a \<in> set as \<and> \<not> sub_closed (b_heap b ! a) then shut False (b_heap b ! a)
         else b_heap b ! a) [0..<length (b_heap b)]\<rparr>"

lemma shut_all_simps [simp]:
  "b_closed (shut_all as b) = b_closed b" "b_draining (shut_all as b) = b_draining b"
  "b_config (shut_all as b) = b_config b" "b_sequence (shut_all as b) = b_sequence b"
  "b_topics (shut_all as b) = b_topics b" "b_cache (shut_all as b) = b_cache b"
  "b_dedup (shut_all as b) = b_dedup b" "length (b_heap (shut_all as b)) = length (b_heap b)"
  by (simp_all add: shut_all_def)

lemma shut_all_nth [simp]:
  "a < length (b_heap b) \<Longrightarrow>
     b_heap (shut_all as b) ! a =
       (if a \<in> set as \<and> \<not> sub_closed (b_heap b ! a) then shut False (b_heap b ! a) else b_heap b ! a)"
  by (simp add: shut_all_def)

lemma close_all_eq:
  assumes "\<forall>a < length (b_heap b). wf_sub (b_heap b ! a)" "\<forall>a \<in> set as. a < length (b_heap b)"
  shows "close_all as b = Some (shut_all as b)"
  using assms
proof (induction as arbitrary: b)
  case Nil
  have "shut_all [] b = b" by (rule broker_heap_eqI) (simp_all add: shut_all_def)
  then show ?case by simp
next
  case (Cons a as)
  let ?s = "b_heap b ! a"
  define s' where "s' = (if sub_closed ?s then ?s else shut False ?s)"
  have wfs: "wf_sub ?s" and a: "a < length (b_heap b)" using Cons.prems by auto
  have close: "sub_close False ?s = Some s'" using sub_close_wf [OF wfs] by (simp add: s'_def)
  have "wf_sub s'" using wfs by (simp add: s'_def wf_sub_def)
  then have "close_all as (put_sub a s' b) = Some (shut_all as (put_sub a s' b))"
    using Cons.prems by (intro Cons.IH) (auto simp: nth_list_update)
  moreover have "shut_all as (put_sub a s' b) = shut_all (a # as) b"
  proof (rule broker_heap_eqI)
    fix x
    assume "x < length (b_heap (shut_all as (put_sub a s' b)))"
    then show "b_heap (shut_all as (put_sub a s' b)) ! x = b_heap (shut_all (a # as) b) ! x"
      by (cases "x = a") (auto simp: s'_def a)
  qed (simp_all add: shut_all_def put_sub_def)
  ultimately show ?case using close by simp
qed

lemma registered_addrs:
  assumes "wf_topics b"
  shows "\<forall>a \<in> set (registered b). a < length (b_heap b) \<and> \<not> sub_closed (b_heap b ! a)"
  using assms by (fastforce simp: registered_def wf_topics_def wf_entry_def)

lemma registered_lookup: "(i, a) \<in> set (map_get [] (b_topics b) t) \<Longrightarrow> a \<in> set (registered b)"
  by (cases rule: map_get_cases [of "[]" "b_topics b" t]) (force simp: registered_def)+

lemma broker_Close_eq:
  assumes "wf_broker b" "iteration_order ai"
  shows "broker_Close ai b =
    Some (if b_closed b then b
          else shut_all (ai (registered b)) (b\<lparr>b_closed := True, b_topics := []\<rparr>))"
proof (cases "b_closed b")
  case True
  then show ?thesis by (simp add: broker_Close_def)
next
  case False
  have "close_all (ai (registered b)) (b\<lparr>b_closed := True, b_topics := []\<rparr>) =
      Some (shut_all (ai (registered b)) (b\<lparr>b_closed := True, b_topics := []\<rparr>))"
    using registered_addrs [OF wf_brokerD(3) [OF assms(1)]] assms(2)
      wf_heapD(1) [OF wf_brokerD(2) [OF assms(1)]]
    by (intro close_all_eq) auto
  with False show ?thesis by (simp add: broker_Close_def)
qed

lemma wf_broker_Close:
  assumes "wf_broker b" "iteration_order ai" "broker_Close ai b = Some b'"
  shows "wf_broker b'"
proof (cases "b_closed b")
  case True
  with assms show ?thesis by (simp add: broker_Close_eq)
next
  case False
  let ?as = "ai (registered b)"
  have b': "b' = shut_all ?as (b\<lparr>b_closed := True, b_topics := []\<rparr>)"
    using assms False by (simp add: broker_Close_eq)
  have "wf_heap b'"
    using wf_brokerD(2) [OF assms(1)] by (auto simp: b' wf_heap_def wf_sub_def)
  moreover have "all_registered b'"
    using wf_brokerD(4) [OF assms(1)] assms(2)
    by (auto simp: b' all_registered_def dest: registered_lookup split: if_splits)
  ultimately show ?thesis
    using assms(1) by (auto simp: b' wf_broker_def wf_topics_def wf_cache_def wf_dedup_def)
qed

lemma wf_Receive:
  assumes "wf_broker b" "a < length (b_heap b)" "Receive a b = Some (x, b')"
  shows "wf_broker b'"
proof -
  let ?s = "b_heap b ! a"
  from assms(3) obtain c where c: "chan_recv (sub_events ?s) = RecvOk x c"
      and b': "b' = put_sub a (?s\<lparr>sub_events := c\<rparr>) b"
    by (auto simp: Receive_def split: recv_result.splits)
  have "chan_cap c = chan_cap (sub_events ?s)"
    using c by (auto simp: chan_recv_def split: list.splits if_splits)
  then show ?thesis
    using wf_sub_recv [OF wf_heapD(1) [OF wf_brokerD(2) [OF assms(1)] assms(2)] c]
    unfolding b' by (intro wf_put_sub [OF assms(1,2)]) auto
qed

section \<open>Runs of the broker\<close>

text \<open>
  The operations one after the other, in any order and with any arguments, each returning
  before the next begins; the map iteration orders and the \<open>select\<close> choices are free.
\<close>

inductive broker_step :: "broker \<Rightarrow> broker \<Rightarrow> bool" where
  step_Subscribe: "Subscribe topic b = Some (r, b') \<Longrightarrow> broker_step b b'"
| step_Publish: "iteration_order si \<Longrightarrow> iteration_order ki \<Longrightarrow>
    Some (r, b') \<in> set (PublishWithResult si ki c ev b) \<Longrightarrow> broker_step b b'"
| step_Receive: "a < length (b_heap b) \<Longrightarrow> Receive a b = Some (x, b') \<Longrightarrow> broker_step b b'"
| step_BeginShutdown: "broker_step b (BeginShutdown b)"
| step_Close_sub: "a < length (b_heap b) \<Longrightarrow> Subscription_Close a b = Some b' \<Longrightarrow> broker_step b b'"
| step_Close: "iteration_order ai \<Longrightarrow> broker_Close ai b = Some b' \<Longrightarrow> broker_step b b'"

definition broker_init :: "broker \<Rightarrow> bool" where
  "broker_init b \<longleftrightarrow> (\<exists>config. b = broker_New config)"

lemma wf_Subscribe:
  assumes "wf_broker b" "Subscribe topic b = Some (r, b')"
  shows "wf_broker b'"
proof (cases "b_closed b \<or> b_draining b")
  case True
  with assms show ?thesis by (auto simp: Subscribe_def)
next
  case False
  with assms show ?thesis by (auto simp: Subscribe_eq intro: wf_subscribed)
qed

lemma wf_broker_step: "broker_step b b' \<Longrightarrow> wf_broker b \<Longrightarrow> wf_broker b'"
proof (induction rule: broker_step.induct)
  case (step_Publish si ki r b' c ev b)
  then show ?case using wf_PublishWithResult [of b si ki "Some (r, b')"] by auto
qed (auto intro: wf_Subscribe wf_Receive wf_BeginShutdown wf_Subscription_Close wf_broker_Close)

interpretation broker_runs: invariant_system broker_init broker_step wf_broker
  by unfold_locales (auto simp: broker_init_def wf_New intro: wf_broker_step)

end
