(* ===== verification/Broker_Properties.thy ===== *)
theory Broker_Properties
  imports Broker
begin

text \<open>
  What the broker promises its callers, proved for every broker that a run of its
  operations can reach: bounded memory, fan-out, deduplication, the topic cache and its
  replay, per-subscription order, shutdown and close; and where the code falls short of
  what its comments and documents say.
\<close>

section \<open>Deduplication\<close>

lemma seen_remember_same:
  "k \<noteq> [] \<Longrightarrow> DeduplicationSize (b_config b) \<noteq> 0 \<Longrightarrow> seen t k (remember ki t k b)"
  by (simp add: seen_def remember_def Let_def)

lemma seen_remember_imp:
  "seen t' k' (remember ki t k b) \<Longrightarrow> seen t' k' b \<or> (t' = t \<and> k' = k)"
  by (auto simp: seen_def remember_def Let_def dest: set_remove1_subset [THEN subsetD]
      split: if_splits list.splits)

lemma seen_remember_other_topic: "t' \<noteq> t \<Longrightarrow> seen t' k' (remember ki t k b) = seen t' k' b"
  by (simp add: seen_def remember_def Let_def)

lemma seen_remember_room:
  assumes "seen t k b" "int (length (map_get [] (b_dedup b) t')) < DeduplicationSize (b_config b)"
  shows "seen t k (remember ki t' k' b)"
  using assms by (auto simp: seen_def remember_def Let_def)

lemma seen_cong: "b_dedup b' = b_dedup b \<Longrightarrow> b_config b' = b_config b \<Longrightarrow> seen t k b' = seen t k b"
  by (simp add: seen_def)

lemma seen_push_all [simp]: "seen t k (push_all ev as b) = seen t k b"
  by (rule seen_cong) simp_all

lemma seen_cacheEvent [simp]: "seen t k (cacheEvent ev b) = seen t k b"
  by (rule seen_cong) simp_all

section \<open>Publishing\<close>

abbreviation accepting :: "broker \<Rightarrow> bool" where
  "accepting b \<equiv> \<not> b_closed b \<and> \<not> b_draining b"

abbreviation fresh_key :: "event \<Rightarrow> broker \<Rightarrow> bool" where
  "fresh_key ev b \<equiv> \<not> seen (ev_Topic ev) (idempotencyKey ev) b"

abbreviation subscribers :: "string \<Rightarrow> broker \<Rightarrow> addr list" where
  "subscribers t b \<equiv> map snd (map_get [] (b_topics b) t)"

lemma not_seen_empty [simp]: "\<not> seen t [] b"
  by (simp add: seen_def)

lemma publish_begin_accepting:
  assumes "accepting b" "fresh_key ev b" "iteration_order si" "subscribers (ev_Topic ev) b \<noteq> []"
  shows "publish_begin si ki ev b =
    StartRoutes (map snd (si (map_get [] (b_topics b) (ev_Topic ev)))) (Backpressure (b_config b))"
  using assms by (auto simp: publish_begin_def Let_def)

lemma publish_no_subscribers:
  assumes "accepting b" "fresh_key ev b" "iteration_order si" "subscribers (ev_Topic ev) b = []"
  shows "PublishWithResult si ki c ev b =
    [Some ((Published, None), remember ki (ev_Topic ev) (idempotencyKey ev) (cacheEvent ev b))]"
  using assms by (auto simp: PublishWithResult_def publish_begin_def Let_def)

lemma routed_addrs:
  assumes "wf_broker b" "iteration_order si"
  shows "distinct (map snd (si (map_get [] (b_topics b) t)))"
    and "set (map snd (si (map_get [] (b_topics b) t))) = set (subscribers t b)"
    and "\<forall>a \<in> set (subscribers t b). a < length (b_heap b) \<and> sub_topic (b_heap b ! a) = t
      \<and> \<not> sub_closed (b_heap b ! a)"
proof -
  show s: "set (map snd (si (map_get [] (b_topics b) t))) = set (subscribers t b)"
    using assms(2) by simp
  have "mset (map snd (si (map_get [] (b_topics b) t))) = mset (subscribers t b)"
    using assms(2) by (simp add: iteration_order_def)
  then show "distinct (map snd (si (map_get [] (b_topics b) t)))"
    using topic_addrs_distinct [OF wf_brokerD(3) [OF assms(1)]] by (metis mset_eq_imp_distinct_iff)
  show "\<forall>a \<in> set (subscribers t b). a < length (b_heap b) \<and> sub_topic (b_heap b ! a) = t
      \<and> \<not> sub_closed (b_heap b ! a)"
    using topic_addrs [OF wf_brokerD(3) [OF assms(1)], of _ t] by auto
qed

lemma publish_room:
  assumes "wf_broker b" "accepting b" "fresh_key ev b" "iteration_order si"
    and "subscribers (ev_Topic ev) b \<noteq> []"
    and "\<forall>a \<in> set (subscribers (ev_Topic ev) b). has_room (b_heap b ! a)"
    and "c = None \<or> Backpressure (b_config b) = Drop"
  shows "PublishWithResult si ki c ev b =
    [Some ((Published, None), remember ki (ev_Topic ev) (idempotencyKey ev)
       (push_all ev (subscribers (ev_Topic ev) b) b))]"
proof -
  let ?as = "map snd (si (map_get [] (b_topics b) (ev_Topic ev)))"
  note routed = routed_addrs [OF assms(1,4), of "ev_Topic ev"]
  have "fan_out c ev (Backpressure (b_config b)) ?as b = [Some (None, push_all ev ?as b)]"
    using routed assms(6,7) by (intro fan_out_room [OF assms(1)]) auto
  moreover have "push_all ev ?as b = push_all ev (subscribers (ev_Topic ev) b) b"
    using routed(2) by (simp add: push_all_def)
  ultimately show ?thesis
    using publish_begin_accepting [OF assms(2-5)] by (simp add: PublishWithResult_def publish_end_def)
qed

text \<open>The possible outcomes of a publish on any broker, in one statement.\<close>

lemma publish_outcomes:
  assumes "wf_broker b" "iteration_order si" "r \<in> set (PublishWithResult si ki c ev b)"
  obtains (refused) e where "r = Some ((Published, Some e), b)" "\<not> accepting b"
    | (duplicate) "r = Some ((Duplicate, None), b)" "accepting b" "\<not> fresh_key ev b"
    | (cached) "accepting b" "fresh_key ev b" "subscribers (ev_Topic ev) b = []"
        "r = Some ((Published, None), remember ki (ev_Topic ev) (idempotencyKey ev) (cacheEvent ev b))"
    | (partial) pre e where "accepting b" "fresh_key ev b" "set pre \<subset> set (subscribers (ev_Topic ev) b)"
        "r = Some ((Published, Some e), push_all ev pre b)"
    | (routed) "accepting b" "fresh_key ev b" "subscribers (ev_Topic ev) b \<noteq> []"
        "r = Some ((Published, None), remember ki (ev_Topic ev) (idempotencyKey ev)
           (push_all ev (subscribers (ev_Topic ev) b) b))"
proof (cases "accepting b \<and> fresh_key ev b")
  case False
  then show ?thesis
    using assms(3) refused duplicate
    by (auto simp: PublishWithResult_def publish_begin_def Let_def split: if_splits)
next
  case True
  show ?thesis
  proof (cases "subscribers (ev_Topic ev) b = []")
    case sub: True
    then show ?thesis
      using True assms(2,3) publish_no_subscribers [of b ev si ki c] by (intro cached) auto
  next
    case sub: False
    let ?as = "map snd (si (map_get [] (b_topics b) (ev_Topic ev)))"
    note as = routed_addrs [OF assms(1,2), of "ev_Topic ev"]
    from True sub assms(2,3) obtain r' where
      r': "r' \<in> set (fan_out c ev (Backpressure (b_config b)) ?as b)" "r = map_option (publish_end ki ev) r'"
      using publish_begin_accepting [of b ev si ki] by (auto simp: PublishWithResult_def)
    then obtain pre err where pre: "prefix pre ?as" "r' = Some (err, push_all ev pre b)"
        "err = None \<longleftrightarrow> pre = ?as"
      using fan_out_outcome [OF assms(1) as(1) _ r'(1)] as by blast
    show ?thesis
    proof (cases err)
      case None
      then have "push_all ev pre b = push_all ev (subscribers (ev_Topic ev) b) b"
        using pre(3) as(2) by (simp add: push_all_def)
      with None pre r' True sub show ?thesis by (intro routed) (auto simp: publish_end_def)
    next
      case (Some e)
      from pre(1) obtain rest where rest: "?as = pre @ rest" by (auto simp: prefix_def)
      with Some pre(3) have "rest \<noteq> []" by auto
      with rest as(1,2) have "set pre \<subset> set (subscribers (ev_Topic ev) b)"
        by (cases rest) auto
      with Some pre r' True show ?thesis by (intro partial) (auto simp: publish_end_def)
    qed
  qed
qed

section \<open>Properties\<close>

abbreviation reachable :: "broker \<Rightarrow> bool" where
  "reachable \<equiv> reach broker_init broker_step"

lemma reachable_wf: "reachable b \<Longrightarrow> wf_broker b"
  by (rule broker_runs.reach_inv)

lemma reachable_New: "reachable (broker_New config)"
  by (rule reach_init) (auto simp: broker_init_def)

lemma reachable_Subscribe: "reachable b \<Longrightarrow> accepting b \<Longrightarrow> reachable (subscribed t b)"
  by (erule reach_step) (auto intro: step_Subscribe simp: Subscribe_eq)

lemma reachable_Publish:
  "reachable b \<Longrightarrow> iteration_order si \<Longrightarrow> iteration_order ki \<Longrightarrow>
     Some (r, b') \<in> set (PublishWithResult si ki c ev b) \<Longrightarrow> reachable b'"
  by (erule reach_step) (auto intro: step_Publish)

subsection \<open>Bounded memory\<close>

lemma sum_list_le_mult: "\<forall>x \<in> set xs. f x \<le> n \<Longrightarrow> sum_list (map f xs) \<le> length xs * (n::nat)"
  by (induction xs) auto

lemma pending_bound:
  assumes "wf_broker b"
  shows "st_PendingEvents (broker_State b) \<le> st_Subscriptions (broker_State b) * nat (QueueSize (b_config b))"
proof -
  let ?q = "nat (QueueSize (b_config b))"
  have "sum_list (map (\<lambda>(_, subs). sum_list (map (\<lambda>(_, a). length (queue (b_heap b ! a))) subs)) ts)
      \<le> sum_list (map (\<lambda>(_, subs). length subs) ts) * ?q"
    if "\<forall>(t, subs) \<in> set ts. \<forall>e \<in> set subs. length (queue (b_heap b ! snd e)) \<le> ?q" for ts
    using that
  proof (induction ts)
    case Nil
    then show ?case by simp
  next
    case (Cons e ts)
    obtain t subs where e: "e = (t, subs)" by fastforce
    have "sum_list (map (\<lambda>(_, a). length (queue (b_heap b ! a))) subs) \<le> length subs * ?q"
      using Cons.prems e by (intro sum_list_le_mult) (auto simp: case_prod_beta)
    with Cons e show ?case by (auto simp: algebra_simps)
  qed
  moreover have "\<forall>(t, subs) \<in> set (b_topics b). \<forall>e \<in> set subs. length (queue (b_heap b ! snd e)) \<le> ?q"
    using wf_brokerD(3) [OF assms] wf_heapD [OF wf_brokerD(2) [OF assms]]
    by (fastforce simp: wf_topics_def wf_entry_def wf_sub_def)
  ultimately show ?thesis by (simp add: broker_State_def)
qed

lemma cached_bound:
  assumes "wf_broker b"
  shows "st_CachedEvents (broker_State b) \<le> length (b_cache b) * nat (CacheSize (b_config b))"
  using wf_brokerD(5) [OF assms]
  by (auto simp: broker_State_def wf_cache_def case_prod_beta intro!: sum_list_le_mult)

text \<open>
  C17 (bounded memory). In every state a run of broker operations can reach, the events
  pending in subscriber queues number at most \<open>QueueSize\<close> per registered subscription, the
  cached events at most \<open>CacheSize\<close> per cached topic, and the remembered idempotency keys
  at most \<open>DeduplicationSize\<close> per topic; a single queue never exceeds \<open>QueueSize\<close>, closed
  subscriptions included.
\<close>

theorem reachable_memory_bounded:
  assumes "reachable b"
  shows "st_PendingEvents (broker_State b) \<le> st_Subscriptions (broker_State b) * nat (QueueSize (b_config b))
    \<and> st_CachedEvents (broker_State b) \<le> length (b_cache b) * nat (CacheSize (b_config b))
    \<and> int (length (map_get [] (b_dedup b) t)) \<le> DeduplicationSize (b_config b)
    \<and> list_all (\<lambda>s. length (queue s) \<le> nat (QueueSize (b_config b))) (b_heap b)"
proof -
  have w: "wf_broker b" using assms by (rule reachable_wf)
  have "list_all (\<lambda>s. length (queue s) \<le> nat (QueueSize (b_config b))) (b_heap b)"
    using wf_heapD [OF wf_brokerD(2) [OF w]] by (auto simp: list_all_length wf_sub_def)
  with pending_bound [OF w] cached_bound [OF w]
    dedup_keys(3) [OF wf_brokerD(6) [OF w] wf_brokerD(1) [OF w]]
  show ?thesis by blast
qed

abbreviation sample_config :: Config where
  "sample_config \<equiv> \<lparr>QueueSize = 2, CacheSize = 2, DeduplicationSize = 2, Backpressure = Block\<rparr>"

abbreviation sample_event :: "string \<Rightarrow> event" where
  "sample_event i \<equiv> \<lparr>ev_ID = i, ev_IdempotencyKey = [], ev_Topic = ''t'', ev_Key = [], ev_Payload = []\<rparr>"

text \<open>The same with the idempotency key that a client fills in.\<close>

abbreviation keyed_event :: event where
  "keyed_event \<equiv> \<lparr>ev_ID = ''1'', ev_IdempotencyKey = ''1'', ev_Topic = ''t'', ev_Key = [], ev_Payload = []\<rparr>"

theorem reachable_memory_bounded_witness:
  "st_PendingEvents (broker_State (subscribed ''t'' (broker_New sample_config))) \<le> 2"
  using reachable_memory_bounded [OF reachable_Subscribe [OF reachable_New, of sample_config "''t''"]]
  by (simp add: broker_New_def subscribed_def broker_State_def Let_def newSubscription_def
      make_chan_def map_get_def)

subsection \<open>Fan-out\<close>

text \<open>
  C3 (fan-out). On a broker that accepts events, an event with a fresh idempotency key
  whose topic has subscribers, all with room, is appended once to the queue of each of
  them and to no other queue, in whatever order the subscriber map is visited; the call
  returns \<open>Published\<close> without error, the cache is not touched, and the key is remembered.
\<close>

theorem publish_reaches_every_subscriber:
  assumes "reachable b" "accepting b" "fresh_key ev b" "iteration_order si"
    and "subscribers (ev_Topic ev) b \<noteq> []"
    and "\<forall>a \<in> set (subscribers (ev_Topic ev) b). has_room (b_heap b ! a)"
    and "c = None \<or> Backpressure (b_config b) = Drop"
  shows "\<exists>b'. PublishWithResult si ki c ev b = [Some ((Published, None), b')]
    \<and> b_cache b' = b_cache b \<and> length (b_heap b') = length (b_heap b)
    \<and> (\<forall>a < length (b_heap b). b_heap b' ! a =
         (if a \<in> set (subscribers (ev_Topic ev) b) then push ev (b_heap b ! a) else b_heap b ! a))
    \<and> (idempotencyKey ev \<noteq> [] \<and> DeduplicationSize (b_config b) \<noteq> 0 \<longrightarrow>
         seen (ev_Topic ev) (idempotencyKey ev) b')"
  using publish_room [OF reachable_wf [OF assms(1)] assms(2-7)]
  by (auto simp: seen_remember_same)

text \<open>A broker with two subscribers to one topic, for the witnesses.\<close>

definition two_subs :: broker where
  "two_subs = subscribed ''t'' (subscribed ''t'' (broker_New sample_config))"

lemmas sample_simps = broker_New_def subscribed_def Let_def newSubscription_def make_chan_def map_get_def
  idempotencyKey_def seen_def

lemma two_subs_fields [simp]:
  "b_closed two_subs = False" "b_draining two_subs = False" "b_config two_subs = sample_config"
  "b_topics two_subs = [(''t'', [(1, 0), (2, 1)])]" "b_cache two_subs = []" "b_dedup two_subs = []"
  "b_heap two_subs = [newSubscription ''t'' 1 2, newSubscription ''t'' 2 2]"
  by (simp_all add: two_subs_def sample_simps)

lemma queue_newSubscription [simp]:
  "queue (newSubscription t i n) = []" "chan_cap (sub_events (newSubscription t i n)) = nat n"
  "\<not> sub_closed (newSubscription t i n)"
  by (simp_all add: newSubscription_def make_chan_def)

lemma reachable_two_subs: "reachable two_subs"
  unfolding two_subs_def by (intro reachable_Subscribe reachable_New) (simp_all add: sample_simps)

theorem publish_reaches_every_subscriber_witness:
  "\<exists>b'. PublishWithResult rev id None (sample_event ''m'') two_subs = [Some ((Published, None), b')]
     \<and> queue (b_heap b' ! 0) = [sample_event ''m''] \<and> queue (b_heap b' ! 1) = [sample_event ''m'']
     \<and> seen ''t'' ''m'' b'"
proof -
  have "\<exists>b'. PublishWithResult rev id None (sample_event ''m'') two_subs = [Some ((Published, None), b')]
    \<and> b_cache b' = b_cache two_subs \<and> length (b_heap b') = length (b_heap two_subs)
    \<and> (\<forall>a < length (b_heap two_subs). b_heap b' ! a =
         (if a \<in> set (subscribers (ev_Topic (sample_event ''m'')) two_subs)
          then push (sample_event ''m'') (b_heap two_subs ! a) else b_heap two_subs ! a))
    \<and> (idempotencyKey (sample_event ''m'') \<noteq> [] \<and> DeduplicationSize (b_config two_subs) \<noteq> 0 \<longrightarrow>
         seen (ev_Topic (sample_event ''m'')) (idempotencyKey (sample_event ''m'')) b')"
    by (rule publish_reaches_every_subscriber [OF reachable_two_subs])
      (simp_all add: map_get_def seen_def idempotencyKey_def)
  then show ?thesis
    by (auto simp: map_get_def idempotencyKey_def numeral_2_eq_2 All_less_Suc)
qed

text \<open>
  C6 (every outcome of a publish). From any reachable broker, under any policy, context
  and iteration order, a publish that returns has not panicked; it has appended the event
  at most once to queues of open subscriptions of its topic and changed nothing else in
  any subscription; \<open>Duplicate\<close> means nothing changed at all; and success on a topic with
  subscribers means all of them have the event.
\<close>

theorem publish_outcome_safe:
  assumes "reachable b" "iteration_order si" "iteration_order ki"
    and "r \<in> set (PublishWithResult si ki c ev b)"
  shows "\<exists>res err b'. r = Some ((res, err), b') \<and> length (b_heap b') = length (b_heap b)
    \<and> (\<forall>a < length (b_heap b). b_heap b' ! a = b_heap b ! a
         \<or> (a \<in> set (subscribers (ev_Topic ev) b) \<and> \<not> sub_closed (b_heap b ! a)
            \<and> b_heap b' ! a = push ev (b_heap b ! a)))
    \<and> (res = Duplicate \<longrightarrow> err = None \<and> b' = b)
    \<and> (res = Published \<and> err = None \<longrightarrow>
         (\<forall>a \<in> set (subscribers (ev_Topic ev) b). b_heap b' ! a = push ev (b_heap b ! a)))"
proof -
  have w: "wf_broker b" using assms(1) by (rule reachable_wf)
  note as = routed_addrs(3) [OF w assms(2), of "ev_Topic ev"]
  from w assms(2,4) show ?thesis
    by (cases rule: publish_outcomes) (use as in auto)
qed

theorem publish_outcome_safe_witness:
  "\<exists>r \<in> set (PublishWithResult id id None (sample_event ''m'') two_subs).
     \<exists>res err b'. r = Some ((res, err), b') \<and> length (b_heap b') = 2"
proof -
  let ?rs = "PublishWithResult id id None (sample_event ''m'') two_subs"
  have r: "hd ?rs \<in> set ?rs"
    by (simp add: publish_room [OF reachable_wf [OF reachable_two_subs]] map_get_def seen_def)
  show ?thesis
    using publish_outcome_safe [OF reachable_two_subs _ _ r] r by (intro bexI [OF _ r]) auto
qed

subsection \<open>Deduplication\<close>

lemma retry_duplicate:
  assumes "reachable b" "iteration_order si" "DeduplicationSize (b_config b) \<noteq> 0"
    and "idempotencyKey ev \<noteq> []" "ev_Topic ev' = ev_Topic ev" "idempotencyKey ev' = idempotencyKey ev"
    and "Some ((Published, None), b') \<in> set (PublishWithResult si ki c ev b)"
  shows "PublishWithResult si' ki' c' ev' b' = [Some ((Duplicate, None), b')]"
proof -
  have "accepting b' \<and> seen (ev_Topic ev) (idempotencyKey ev) b'"
    using reachable_wf [OF assms(1)] assms(2,7)
    by (cases rule: publish_outcomes) (use assms(3,4) in \<open>auto simp: seen_remember_same\<close>)
  with assms(4-6) show ?thesis
    by (simp add: PublishWithResult_def publish_begin_def Let_def)
qed

text \<open>
  C23 (a retry is a duplicate). With deduplication enabled, right after a publish that
  returned \<open>Published\<close> without error, publishing any event of the same topic with the same
  idempotency key returns \<open>Duplicate\<close> and leaves the broker unchanged, whatever the message
  identifiers, payloads, context and iteration orders.
\<close>

theorem retry_is_duplicate:
  assumes "reachable b" "iteration_order si" "DeduplicationSize (b_config b) \<noteq> 0"
    and "idempotencyKey ev \<noteq> []" "ev_Topic ev' = ev_Topic ev" "idempotencyKey ev' = idempotencyKey ev"
    and "Some ((Published, None), b') \<in> set (PublishWithResult si ki c ev b)"
  shows "PublishWithResult si' ki' c' ev' b' = [Some ((Duplicate, None), b')]"
  by (rule retry_duplicate [OF assms])

lemma publish_two_subs:
  "\<exists>b'. PublishWithResult id id None (sample_event ''m'') two_subs = [Some ((Published, None), b')]"
  by (simp add: publish_room [OF reachable_wf [OF reachable_two_subs]] map_get_def seen_def)

theorem retry_is_duplicate_witness:
  "\<exists>b'. PublishWithResult id id None (sample_event ''m'') two_subs = [Some ((Published, None), b')]
     \<and> PublishWithResult rev rev None ((sample_event ''x'')\<lparr>ev_IdempotencyKey := ''m''\<rparr>) b'
         = [Some ((Duplicate, None), b')]"
proof -
  obtain b' where b': "PublishWithResult id id None (sample_event ''m'') two_subs = [Some ((Published, None), b')]"
    using publish_two_subs by blast
  have "PublishWithResult rev rev None ((sample_event ''x'')\<lparr>ev_IdempotencyKey := ''m''\<rparr>) b'
      = [Some ((Duplicate, None), b')]"
    by (rule retry_is_duplicate [OF reachable_two_subs, of id "sample_event ''m''" _ b' id None])
      (simp_all add: b' idempotencyKey_def)
  with b' show ?thesis by blast
qed

text \<open>
  What \<open>remember\<close> forgets. Remembering a key of a topic leaves the keys of other
  topics alone, makes the key seen, forgets nothing while the topic's window has room, and
  forgets at most one key when it is full.
\<close>

theorem remember_forgets_at_most_one:
  assumes "reachable b" "iteration_order ki" "k \<noteq> []" "DeduplicationSize (b_config b) \<noteq> 0"
  shows "seen t k (remember ki t k b)
    \<and> (\<forall>t' k'. t' \<noteq> t \<longrightarrow> seen t' k' (remember ki t k b) = seen t' k' b)
    \<and> (\<exists>gone. (\<forall>k'. seen t k' b \<and> k' \<noteq> gone \<longrightarrow> seen t k' (remember ki t k b))
         \<and> (int (length (map_get [] (b_dedup b) t)) < DeduplicationSize (b_config b) \<longrightarrow> gone = []))"
proof -
  let ?keys = "map_get [] (b_dedup b) t"
  have "\<exists>gone. (\<forall>k'. seen t k' b \<and> k' \<noteq> gone \<longrightarrow> seen t k' (remember ki t k b))
      \<and> (int (length ?keys) < DeduplicationSize (b_config b) \<longrightarrow> gone = [])"
  proof (cases "int (length ?keys) < DeduplicationSize (b_config b)")
    case True
    then show ?thesis by (intro exI [of _ "[]"]) (auto intro: seen_remember_room)
  next
    case False
    show ?thesis
      by (intro exI [of _ "hd (ki ?keys)"])
        (use False assms(4) in \<open>auto simp: seen_def remember_def Let_def split: list.splits\<close>)
  qed
  then show ?thesis
    using assms(3,4) by (auto simp: seen_remember_same seen_remember_other_topic)
qed

theorem remember_forgets_at_most_one_witness:
  "seen ''t'' ''m'' (remember id ''t'' ''m'' two_subs)"
  using remember_forgets_at_most_one [OF reachable_two_subs, of id "''m''" "''t''"] by simp


subsection \<open>The topic cache\<close>

definition last_n :: "nat \<Rightarrow> 'a list \<Rightarrow> 'a list" where
  "last_n n xs = drop (length xs - n) xs"

lemma last_n_short [simp]: "length xs \<le> n \<Longrightarrow> last_n n xs = xs"
  by (simp add: last_n_def)

lemma last_n_append: "last_n n (last_n n xs @ ys) = last_n n (xs @ ys)"
proof (cases "length xs \<le> n")
  case True
  then show ?thesis by simp
next
  case False
  then have "length (last_n n xs) = n" by (simp add: last_n_def)
  then show ?thesis
    using False by (cases "length ys \<le> n") (auto simp: last_n_def add.commute)
qed

lemma cacheEvent_last_n:
  assumes "wf_broker b"
  shows "map_get [] (b_cache (cacheEvent ev b)) (ev_Topic ev) =
    last_n (nat (CacheSize (b_config b))) (map_get [] (b_cache b) (ev_Topic ev) @ [ev])"
proof -
  let ?c = "map_get [] (b_cache b) (ev_Topic ev)"
  have "int (length ?c) \<le> CacheSize (b_config b)"
    using cached_events(1) [OF wf_brokerD(5) [OF assms] wf_brokerD(1) [OF assms]] .
  then show ?thesis
    by (cases "CacheSize (b_config b) \<le> int (length ?c)"; cases ?c)
      (auto simp: cacheEvent_def Let_def last_n_def nat_le_iff le_nat_iff nat_add_distrib Suc_diff_le)
qed

text \<open>Publishing events one after the other, each of them accepted.\<close>

primrec publish_each :: "(u64 \<times> addr) iter \<Rightarrow> string iter \<Rightarrow> event list \<Rightarrow> broker \<Rightarrow> broker option" where
  "publish_each si ki [] b = Some b"
| "publish_each si ki (ev # evs) b =
     (case PublishWithResult si ki None ev b of
        [Some ((Published, None), b')] \<Rightarrow> publish_each si ki evs b'
      | _ \<Rightarrow> None)"

lemma publish_each_caches:
  assumes "wf_broker b" "accepting b" "iteration_order si" "iteration_order ki" "subscribers t b = []"
    and "\<forall>ev \<in> set evs. ev_Topic ev = t \<and> fresh_key ev b"
    and "distinct (map idempotencyKey evs)"
  shows "\<exists>b'. publish_each si ki evs b = Some b'
    \<and> map_get [] (b_cache b') t = last_n (nat (CacheSize (b_config b))) (map_get [] (b_cache b) t @ evs)"
  using assms
proof (induction evs arbitrary: b)
  case Nil
  then have "int (length (map_get [] (b_cache b) t)) \<le> CacheSize (b_config b)"
    using cached_events(1) [OF wf_brokerD(5) wf_brokerD(1)] by blast
  then show ?case by (simp add: nat_le_iff le_nat_iff)
next
  case (Cons ev evs)
  let ?b = "remember ki (ev_Topic ev) (idempotencyKey ev) (cacheEvent ev b)"
  have t: "ev_Topic ev = t" using Cons.prems by simp
  have "PublishWithResult si ki None ev b = [Some ((Published, None), ?b)]"
    using Cons.prems t by (intro publish_no_subscribers) auto
  moreover have "fresh_key e ?b" if "e \<in> set evs" for e
  proof -
    have "idempotencyKey e \<in> idempotencyKey ` set evs" using that by (rule imageI)
    then have "idempotencyKey e \<noteq> idempotencyKey ev" using Cons.prems(7) by auto
    moreover have "fresh_key e b" using that Cons.prems(6) by (meson list.set_intros(2))
    ultimately show ?thesis using seen_remember_imp by fastforce
  qed
  with Cons.prems have "\<exists>b'. publish_each si ki evs ?b = Some b' \<and>
      map_get [] (b_cache b') t = last_n (nat (CacheSize (b_config ?b))) (map_get [] (b_cache ?b) t @ evs)"
    by (intro Cons.IH) (auto intro: wf_remember wf_cacheEvent)
  moreover have "map_get [] (b_cache ?b) t = last_n (nat (CacheSize (b_config b))) (map_get [] (b_cache b) t @ [ev])"
    using cacheEvent_last_n [OF Cons.prems(1), of ev] t by simp
  ultimately show ?case by (simp add: last_n_append)
qed

text \<open>
  C29 (the cache keeps the newest events). On a topic without subscribers, publishing
  events with fresh, distinct idempotency keys succeeds every time, and the topic's cache
  is then the last \<open>CacheSize\<close> of what was cached before followed by those events, in
  publish order.
\<close>

theorem cache_keeps_newest:
  assumes "reachable b" "accepting b" "iteration_order si" "iteration_order ki" "subscribers t b = []"
    and "\<forall>ev \<in> set evs. ev_Topic ev = t \<and> fresh_key ev b" "distinct (map idempotencyKey evs)"
  shows "\<exists>b'. publish_each si ki evs b = Some b'
    \<and> map_get [] (b_cache b') t = last_n (nat (CacheSize (b_config b))) (map_get [] (b_cache b) t @ evs)"
  using publish_each_caches [OF reachable_wf [OF assms(1)] assms(2-7)] .

theorem cache_keeps_newest_witness:
  "\<exists>b'. publish_each id id [sample_event ''1'', sample_event ''2'', sample_event ''3''] (broker_New sample_config)
        = Some b' \<and> map_get [] (b_cache b') ''t'' = [sample_event ''2'', sample_event ''3'']"
  using cache_keeps_newest [OF reachable_New, of sample_config id id "''t''"
      "[sample_event ''1'', sample_event ''2'', sample_event ''3'']"]
  by (simp add: sample_simps last_n_def)

text \<open>
  C30 (replay). On a broker that accepts subscriptions, \<open>Subscribe\<close> always returns, although
  it sends to the new channel while holding the broker's mutex. The new subscription is
  registered for the topic; the events cached for the topic, in order, are its queue up to
  \<open>QueueSize\<close> of them, the rest stays cached; no other queue and no other topic's cache
  changes.
\<close>

theorem subscribe_replays_cache:
  assumes "reachable b" "accepting b"
  shows "\<exists>b'. Subscribe t b = Some (Inr (length (b_heap b)), b')
    \<and> length (b_heap b) \<in> set (subscribers t b')
    \<and> queue (b_heap b' ! length (b_heap b)) @ map_get [] (b_cache b') t = map_get [] (b_cache b) t
    \<and> length (queue (b_heap b' ! length (b_heap b)))
        = min (nat (QueueSize (b_config b))) (length (map_get [] (b_cache b) t))
    \<and> (\<forall>a < length (b_heap b). b_heap b' ! a = b_heap b ! a)
    \<and> (\<forall>t'. t' \<noteq> t \<longrightarrow> map_get [] (b_cache b') t' = map_get [] (b_cache b) t')"
proof -
  have "(b_sequence b + 1, length (b_heap b)) \<in>
      set (AList.update (b_sequence b + 1) (length (b_heap b)) (map_get [] (b_topics b) t))"
    using topic_entries(1) [OF wf_brokerD(3) [OF reachable_wf [OF assms(1)]], of t]
    by (simp add: set_AList_update)
  then have "length (b_heap b) \<in> set (subscribers t (subscribed t b))"
    by (force simp: subscribed_def Let_def)
  then show ?thesis
    using assms(2) by (auto simp: Subscribe_eq subscribed_def Let_def nth_append min_def)
qed

theorem subscribe_replays_cache_witness:
  "\<exists>b' b''. publish_each id id [sample_event ''1'', sample_event ''2''] (broker_New sample_config) = Some b'
     \<and> Subscribe ''t'' b' = Some (Inr 0, b'')
     \<and> queue (b_heap b'' ! 0) @ map_get [] (b_cache b'') ''t'' = [sample_event ''1'', sample_event ''2'']"
proof -
  define b1 where "b1 = remember id ''t'' ''1'' (cacheEvent (sample_event ''1'') (broker_New sample_config))"
  define b2 where "b2 = remember id ''t'' ''2'' (cacheEvent (sample_event ''2'') b1)"
  have p1: "PublishWithResult id id None (sample_event ''1'') (broker_New sample_config) = [Some ((Published, None), b1)]"
    using publish_no_subscribers [of "broker_New sample_config" "sample_event ''1''" id id None]
    by (simp add: b1_def sample_simps)
  have p2: "PublishWithResult id id None (sample_event ''2'') b1 = [Some ((Published, None), b2)]"
    using publish_no_subscribers [of b1 "sample_event ''2''" id id None]
    by (simp add: b2_def) (simp add: b1_def sample_simps remember_def cacheEvent_def)
  note reach1 = reachable_Publish [OF _ iteration_order_id(1) iteration_order_id(1)]
  have "reachable b1" using reach1 [OF reachable_New] p1 by (metis list.set_intros(1))
  then have "reachable b2" using reach1 p2 by (metis list.set_intros(1))
  moreover have "accepting b2" "b_heap b2 = []" "map_get [] (b_cache b2) ''t'' = [sample_event ''1'', sample_event ''2'']"
    by (simp_all add: b2_def b1_def sample_simps cacheEvent_def remember_def)
  moreover have "publish_each id id [sample_event ''1'', sample_event ''2''] (broker_New sample_config) = Some b2"
    by (simp add: p1 p2)
  ultimately show ?thesis
    using subscribe_replays_cache [of b2 "''t''"] by auto
qed

subsection \<open>Backpressure\<close>

text \<open>
  C31 (\<open>Drop\<close> ends the fan-out at the first full queue). The documents describe \<open>Drop\<close> as
  rejecting delivery to the full queue, and queues as isolating consumers from each other.
  The loop returns at the first full queue instead: exactly the subscribers visited before
  it get the event, those after it do not even when they have room, the caller is told
  \<open>ErrQueueFull\<close>, and the key is not remembered, so a retry delivers the event a second
  time to the subscribers that already have it.
\<close>

theorem drop_stops_at_first_full:
  assumes "reachable b" "accepting b" "fresh_key ev b" "iteration_order si"
    and "Backpressure (b_config b) = Drop"
    and "\<exists>a \<in> set (subscribers (ev_Topic ev) b). \<not> has_room (b_heap b ! a)"
  shows "PublishWithResult si ki c ev b =
    [Some ((Published, Some ErrQueueFull),
       push_all ev (takeWhile (\<lambda>a. has_room (b_heap b ! a))
         (map snd (si (map_get [] (b_topics b) (ev_Topic ev))))) b)]"
proof -
  have w: "wf_broker b" using assms(1) by (rule reachable_wf)
  let ?as = "map snd (si (map_get [] (b_topics b) (ev_Topic ev)))"
  note as = routed_addrs [OF w assms(4), of "ev_Topic ev"]
  let ?pre = "takeWhile (\<lambda>a. has_room (b_heap b ! a)) ?as"
  have "\<exists>a \<in> set ?as. \<not> has_room (b_heap b ! a)" unfolding as(2) by (rule assms(6))
  then have pre: "?pre \<noteq> ?as" unfolding takeWhile_eq_all_conv by blast
  have "\<forall>a \<in> set ?as. a < length (b_heap b) \<and> \<not> sub_closed (b_heap b ! a)"
    unfolding as(2) using as(3) by blast
  then have "fan_out c ev Drop ?as b = [Some (Some ErrQueueFull, push_all ev ?pre b)]"
    using fan_out_Drop [OF w as(1), of c ev] pre by (simp only: Let_def if_False)
  moreover have "subscribers (ev_Topic ev) b \<noteq> []" using assms(6) by auto
  ultimately show ?thesis
    using publish_begin_accepting [OF assms(2-4), of ki] assms(5)
    by (simp add: PublishWithResult_def publish_end_def)
qed

text \<open>Two subscribers, the first with a full queue, the second with room.\<close>

definition full_and_empty :: "BackpressurePolicy \<Rightarrow> broker" where
  "full_and_empty p =
     push_all (sample_event ''m'') [0]
       (subscribed ''t'' (subscribed ''t'' (broker_New
          (sample_config\<lparr>QueueSize := 1, DeduplicationSize := 0, Backpressure := p\<rparr>))))"

lemma full_and_empty_fields [simp]:
  "b_closed (full_and_empty p) = False" "b_draining (full_and_empty p) = False"
  "b_config (full_and_empty p) = sample_config\<lparr>QueueSize := 1, DeduplicationSize := 0, Backpressure := p\<rparr>"
  "b_topics (full_and_empty p) = [(''t'', [(1, 0), (2, 1)])]" "b_dedup (full_and_empty p) = []"
  "b_heap (full_and_empty p) = [push (sample_event ''m'') (newSubscription ''t'' 1 1), newSubscription ''t'' 2 1]"
  by (simp_all add: full_and_empty_def push_all_def sample_simps upt_rec)

lemma reachable_full_and_empty: "reachable (full_and_empty p)"
proof -
  let ?c = "sample_config\<lparr>QueueSize := 1, DeduplicationSize := 0, Backpressure := p\<rparr>"
  let ?b1 = "subscribed ''t'' (broker_New ?c)"
  let ?b2 = "push_all (sample_event ''m'') [0] ?b1"
  have b1: "reachable ?b1" by (intro reachable_Subscribe reachable_New) (simp_all add: sample_simps)
  have "PublishWithResult id id None (sample_event ''m'') ?b1 = [Some ((Published, None), ?b2)]"
    by (subst publish_room [OF reachable_wf [OF b1]]) (simp_all add: sample_simps remember_def)
  then have "reachable ?b2"
    using reachable_Publish [OF b1 iteration_order_id(1) iteration_order_id(1)] by (metis list.set_intros(1))
  then have "reachable (subscribed ''t'' ?b2)"
    by (rule reachable_Subscribe) (simp add: sample_simps)
  moreover have "subscribed ''t'' ?b2 = full_and_empty p"
    by (simp add: full_and_empty_def push_all_def sample_simps upt_rec)
  ultimately show ?thesis by simp
qed

theorem drop_stops_at_first_full_witness:
  "PublishWithResult id id None (sample_event ''n'') (full_and_empty Drop)
     = [Some ((Published, Some ErrQueueFull), full_and_empty Drop)]
   \<and> has_room (b_heap (full_and_empty Drop) ! 1)"
proof
  show "PublishWithResult id id None (sample_event ''n'') (full_and_empty Drop)
     = [Some ((Published, Some ErrQueueFull), full_and_empty Drop)]"
    by (subst drop_stops_at_first_full [OF reachable_full_and_empty]) (simp_all add: map_get_def seen_def)
qed simp

text \<open>
  C32 (a full queue blocks the publisher under \<open>Block\<close>). Under any policy but \<open>Drop\<close>, a
  publisher whose context stays live does not return while one subscriber of the topic
  has a full queue and nothing else runs, whatever room the other subscribers have; the TCP
  server publishes with \<open>context.Background()\<close>, which is never done.
\<close>

theorem publisher_blocks_on_full_queue:
  assumes "reachable b" "accepting b" "fresh_key ev b" "iteration_order si"
    and "Backpressure (b_config b) \<noteq> Drop"
    and "\<exists>a \<in> set (subscribers (ev_Topic ev) b). \<not> has_room (b_heap b ! a)"
  shows "PublishWithResult si ki None ev b = []"
proof -
  have w: "wf_broker b" using assms(1) by (rule reachable_wf)
  note as = routed_addrs [OF w assms(4), of "ev_Topic ev"]
  have "subscribers (ev_Topic ev) b \<noteq> []" using assms(6) by auto
  moreover have "fan_out None ev (Backpressure (b_config b))
      (map snd (si (map_get [] (b_topics b) (ev_Topic ev)))) b = []"
    using as assms(6) by (intro fan_out_blocks [OF w as(1) assms(5)]) auto
  ultimately show ?thesis
    using publish_begin_accepting [OF assms(2-4)] by (simp add: PublishWithResult_def)
qed

theorem publisher_blocks_on_full_queue_witness:
  "PublishWithResult rev id None (sample_event ''n'') (full_and_empty Block) = []
   \<and> has_room (b_heap (full_and_empty Block) ! 1)"
proof
  show "PublishWithResult rev id None (sample_event ''n'') (full_and_empty Block) = []"
    by (rule publisher_blocks_on_full_queue [OF reachable_full_and_empty])
      (simp_all add: map_get_def seen_def Block_def Drop_def)
qed simp

subsection \<open>Shutdown and close\<close>

text \<open>
  Draining. After \<open>BeginShutdown\<close> every publish is refused, with \<open>ErrDraining\<close> or, on
  a closed broker, \<open>ErrClosed\<close>, every subscribe is refused with \<open>ErrClosed\<close>, neither
  changes the broker, and consumers receive exactly what they would have received.
\<close>

theorem draining_refuses_input:
  "PublishWithResult si ki c ev (BeginShutdown b)
     = [Some ((Published, Some (if b_closed b then ErrClosed else ErrDraining)), BeginShutdown b)]
   \<and> Subscribe t (BeginShutdown b) = Some (Inl ErrClosed, BeginShutdown b)
   \<and> Receive a (BeginShutdown b) = map_option (\<lambda>(x, b'). (x, BeginShutdown b')) (Receive a b)"
  by (auto simp: PublishWithResult_def publish_begin_def BeginShutdown_def Subscribe_def Receive_def
      put_sub_def split: recv_result.splits)

lemma closed_all_closed:
  assumes "wf_broker b" "b_closed b" "length (b_heap b) < 2 ^ 64" "a < length (b_heap b)"
  shows "sub_closed (b_heap b ! a)"
  using assms by (auto simp: wf_broker_def all_registered_def wf_topics_def map_get_def)

text \<open>
  C33 (close). \<open>Close\<close> always returns; afterwards, as long as fewer than \<open>2 ^ 64\<close>
  subscriptions were ever made, every subscription is closed with its event channel
  closed, those that were open have lost what they had buffered and those closed before
  are as they were; no subscription is counted any more, every publish and subscribe is
  refused with \<open>ErrClosed\<close>, and a second \<open>Close\<close> changes nothing.
\<close>

theorem close_closes_everything:
  assumes "reachable b" "iteration_order ai" "length (b_heap b) < 2 ^ 64"
  shows "\<exists>b'. broker_Close ai b = Some b' \<and> length (b_heap b') = length (b_heap b)
    \<and> (\<forall>a < length (b_heap b). sub_closed (b_heap b' ! a) \<and> chan_closed (sub_events (b_heap b' ! a))
         \<and> (if sub_closed (b_heap b ! a) then b_heap b' ! a = b_heap b ! a else queue (b_heap b' ! a) = []))
    \<and> st_Subscriptions (broker_State b') = 0 \<and> st_PendingEvents (broker_State b') = 0
    \<and> PublishWithResult si ki c ev b' = [Some ((Published, Some ErrClosed), b')]
    \<and> Subscribe t b' = Some (Inl ErrClosed, b') \<and> broker_Close ai' b' = Some b'"
proof -
  have w: "wf_broker b" using assms(1) by (rule reachable_wf)
  obtain b' where b': "broker_Close ai b = Some b'"
      "b' = (if b_closed b then b else shut_all (ai (registered b)) (b\<lparr>b_closed := True, b_topics := []\<rparr>))"
    using broker_Close_eq [OF w assms(2)] by simp
  have w': "wf_broker b'" using w assms(2) b'(1) by (rule wf_broker_Close)
  have closed: "b_closed b'" and len: "length (b_heap b') = length (b_heap b)" using b'(2) by auto
  have "sub_closed (b_heap b' ! a) \<and> chan_closed (sub_events (b_heap b' ! a))
      \<and> (if sub_closed (b_heap b ! a) then b_heap b' ! a = b_heap b ! a else queue (b_heap b' ! a) = [])"
    if a: "a < length (b_heap b)" for a
  proof -
    have c: "sub_closed (b_heap b' ! a)" using closed_all_closed [OF w' closed] len assms(3) a by simp
    moreover have "chan_closed (sub_events (b_heap b' ! a))"
      using c wf_heapD(1) [OF wf_brokerD(2) [OF w'], of a] a len by (simp add: wf_sub_def)
    moreover have "b_heap b' ! a \<in> {b_heap b ! a, shut False (b_heap b ! a)}"
      using a b'(2) by auto
    ultimately show ?thesis using a b'(2) by (auto split: if_splits)
  qed
  moreover have "b_topics b' = []" using wf_brokerD(3) [OF w'] closed by (simp add: wf_topics_def)
  ultimately show ?thesis
    using b'(1) closed len
    by (auto simp: broker_State_def PublishWithResult_def publish_begin_def Subscribe_def broker_Close_def)
qed

theorem close_closes_everything_witness:
  "\<exists>b'. broker_Close rev two_subs = Some b' \<and> sub_closed (b_heap b' ! 0) \<and> sub_closed (b_heap b' ! 1)"
proof -
  have "length (b_heap two_subs) < 2 ^ 64" by simp
  from close_closes_everything [OF reachable_two_subs iteration_order_id(3) this]
  obtain b' where "broker_Close rev two_subs = Some b'"
      "\<forall>a < length (b_heap two_subs). sub_closed (b_heap b' ! a)"
    by blast
  then show ?thesis by simp
qed

end
