(* ===== verification/Broker_History.thy ===== *)
theory Broker_History
  imports Broker_Properties
begin

text \<open>
  The order of delivery. A run of broker operations is recorded with the events handed to
  \<open>Publish\<close>, in order, the events each subscription's consumer has received, and the events
  each subscription is owed: those a publisher was told are published while it was open. The
  invariant sandwiches what was received and is still queued between the two, so nothing is
  lost, invented, duplicated or reordered.
\<close>

section \<open>Recorded runs\<close>

record hist =
  h_broker :: broker
  h_log :: "event list"
  h_recv :: "addr \<Rightarrow> event list"
  h_owed :: "addr \<Rightarrow> event list"

text \<open>A publish that returned \<open>Published\<close> and no error owes its event to the open subscriptions.\<close>

definition owe :: "PublishResult \<times> go_error option \<Rightarrow> event \<Rightarrow> broker \<Rightarrow> addr \<Rightarrow> event list" where
  "owe r ev b a =
     (if r = (Published, None) \<and> a < length (b_heap b) \<and> \<not> sub_closed (b_heap b ! a)
         \<and> sub_topic (b_heap b ! a) = ev_Topic ev
      then [ev] else [])"

definition hist_init :: "hist \<Rightarrow> bool" where
  "hist_init h \<longleftrightarrow> broker_init (h_broker h) \<and> h_log h = [] \<and> h_recv h = (\<lambda>_. [])
     \<and> h_owed h = (\<lambda>_. [])"

text \<open>One rule per operation, as in \<open>broker_step\<close>; a refused event is logged too.\<close>

inductive hist_step :: "hist \<Rightarrow> hist \<Rightarrow> bool" where
  hist_Subscribe: "Subscribe topic (h_broker h) = Some (r, b') \<Longrightarrow> hist_step h (h\<lparr>h_broker := b'\<rparr>)"
| hist_Publish: "iteration_order si \<Longrightarrow> iteration_order ki \<Longrightarrow>
    Some (r, b') \<in> set (PublishWithResult si ki c ev (h_broker h)) \<Longrightarrow>
    hist_step h (h\<lparr>h_broker := b', h_log := h_log h @ [ev],
      h_owed := (\<lambda>a. h_owed h a @ owe r ev (h_broker h) a)\<rparr>)"
| hist_Receive: "a < length (b_heap (h_broker h)) \<Longrightarrow> Receive a (h_broker h) = Some (x, b') \<Longrightarrow>
    hist_step h (h\<lparr>h_broker := b', h_recv := (h_recv h)(a := h_recv h a @ [x])\<rparr>)"
| hist_BeginShutdown: "hist_step h (h\<lparr>h_broker := BeginShutdown (h_broker h)\<rparr>)"
| hist_Close_sub: "a < length (b_heap (h_broker h)) \<Longrightarrow> Subscription_Close a (h_broker h) = Some b' \<Longrightarrow>
    hist_step h (h\<lparr>h_broker := b'\<rparr>)"
| hist_Close: "iteration_order ai \<Longrightarrow> broker_Close ai (h_broker h) = Some b' \<Longrightarrow>
    hist_step h (h\<lparr>h_broker := b'\<rparr>)"

abbreviation on_topic :: "string \<Rightarrow> event list \<Rightarrow> event list" where
  "on_topic t \<equiv> filter (\<lambda>ev. ev_Topic ev = t)"

definition in_order :: "event list \<Rightarrow> (addr \<Rightarrow> event list) \<Rightarrow> broker \<Rightarrow> bool" where
  "in_order log recv b \<longleftrightarrow>
     (\<forall>a < length (b_heap b). subseq (recv a @ queue (b_heap b ! a)) (on_topic (sub_topic (b_heap b ! a)) log))
     \<and> (\<forall>a. length (b_heap b) \<le> a \<longrightarrow> recv a = [])
     \<and> (\<forall>t. subseq (map_get [] (b_cache b) t) (on_topic t log))"

text \<open>Nothing owed is lost before the broker closes (and before identifiers wrap around).\<close>

definition no_loss :: "(addr \<Rightarrow> event list) \<Rightarrow> (addr \<Rightarrow> event list) \<Rightarrow> broker \<Rightarrow> bool" where
  "no_loss owed recv b \<longleftrightarrow>
     (\<not> b_closed b \<longrightarrow> length (b_heap b) < 2 ^ 64 \<longrightarrow>
        (\<forall>a < length (b_heap b). subseq (owed a) (recv a @ queue (b_heap b ! a))))
     \<and> (\<forall>a. length (b_heap b) \<le> a \<longrightarrow> owed a = [])"

definition hist_ok :: "hist \<Rightarrow> bool" where
  "hist_ok h \<longleftrightarrow> wf_broker (h_broker h) \<and> in_order (h_log h) (h_recv h) (h_broker h)
     \<and> no_loss (h_owed h) (h_recv h) (h_broker h)"

section \<open>The operations keep the order\<close>

lemma in_orderD:
  assumes "in_order log recv b"
  shows "a < length (b_heap b) \<Longrightarrow> subseq (recv a @ queue (b_heap b ! a)) (on_topic (sub_topic (b_heap b ! a)) log)"
    and "length (b_heap b) \<le> a \<Longrightarrow> recv a = []"
    and "subseq (map_get [] (b_cache b) t) (on_topic t log)"
  using assms by (auto simp: in_order_def)

text \<open>Taking events away from queues, with the topics and caches unchanged.\<close>

lemma in_order_shrink:
  assumes "in_order log recv b" "length (b_heap b') = length (b_heap b)" "b_cache b' = b_cache b"
    and "\<And>a. a < length (b_heap b) \<Longrightarrow> sub_topic (b_heap b' ! a) = sub_topic (b_heap b ! a)
      \<and> subseq (queue (b_heap b' ! a)) (queue (b_heap b ! a))"
  shows "in_order log recv b'"
proof -
  have "subseq (recv a @ queue (b_heap b' ! a)) (on_topic (sub_topic (b_heap b' ! a)) log)"
    if a: "a < length (b_heap b)" for a
  proof -
    have "subseq (recv a @ queue (b_heap b' ! a)) (recv a @ queue (b_heap b ! a))"
      using assms(4) [OF a] by (intro list_emb_append_mono) auto
    with in_orderD(1) [OF assms(1) a] assms(4) [OF a] show ?thesis
      by (metis subseq_order.trans)
  qed
  then show ?thesis
    using assms(2,3) in_orderD(2,3) [OF assms(1)] unfolding in_order_def by simp
qed

lemma subseq_snoc: "subseq xs ys \<Longrightarrow> subseq (xs @ [x]) (ys @ [x])"
  by (intro list_emb_append_mono) auto

lemma subseq_more: "subseq xs ys \<Longrightarrow> subseq xs (ys @ zs)"
  by (metis append_Nil2 list_emb_append_mono list_emb_Nil)

lemma subseq_last_n: "subseq (last_n n xs) xs"
  unfolding last_n_def by (metis append_take_drop_id subseq_order.order_refl list_emb_append2)

lemma in_order_push_all:
  assumes "in_order log recv b" "\<forall>a \<in> set as. a < length (b_heap b) \<and> sub_topic (b_heap b ! a) = ev_Topic ev"
  shows "in_order (log @ [ev]) recv (push_all ev as b)"
proof -
  have "subseq (recv a @ queue (b_heap (push_all ev as b) ! a))
      (on_topic (sub_topic (b_heap (push_all ev as b) ! a)) (log @ [ev]))"
    if a: "a < length (b_heap b)" for a
  proof (cases "a \<in> set as")
    case True
    with assms(2) have "ev_Topic ev = sub_topic (b_heap b ! a)" by simp
    then show ?thesis
      using True a subseq_snoc [OF in_orderD(1) [OF assms(1) a], of ev] by simp
  next
    case False
    then show ?thesis
      using a subseq_more [OF in_orderD(1) [OF assms(1) a]] by simp
  qed
  with in_orderD(2,3) [OF assms(1)] show ?thesis unfolding in_order_def by (simp add: subseq_more)
qed

lemma in_order_cacheEvent:
  assumes "wf_broker b" "in_order log recv b"
  shows "in_order (log @ [ev]) recv (cacheEvent ev b)"
proof -
  have "subseq (map_get [] (b_cache (cacheEvent ev b)) t) (on_topic t (log @ [ev]))" for t
  proof (cases "t = ev_Topic ev")
    case True
    have "subseq (map_get [] (b_cache (cacheEvent ev b)) t) (map_get [] (b_cache b) t @ [ev])"
      unfolding True cacheEvent_last_n [OF assms(1)] by (rule subseq_last_n)
    also have "subseq (map_get [] (b_cache b) t @ [ev]) (on_topic t log @ [ev])"
      using in_orderD(3) [OF assms(2)] by (rule subseq_snoc)
    finally show ?thesis using True by simp
  next
    case False
    then have "map_get [] (b_cache (cacheEvent ev b)) t = map_get [] (b_cache b) t"
      by (simp add: cacheEvent_def Let_def)
    then show ?thesis using subseq_more [OF in_orderD(3) [OF assms(2)]] by simp
  qed
  with in_orderD(1,2) [OF assms(2)] show ?thesis unfolding in_order_def by (simp add: subseq_more)
qed

lemma in_order_remember [simp]: "in_order log recv (remember ki t k b) = in_order log recv b"
  by (simp add: in_order_def)

lemma in_order_publish:
  assumes "wf_broker b" "in_order log recv b" "iteration_order si"
    and "Some (r, b') \<in> set (PublishWithResult si ki c ev b)"
  shows "in_order (log @ [ev]) recv b'"
proof -
  note subs = routed_addrs(3) [OF assms(1,3), of "ev_Topic ev"]
  have none: "in_order (log @ [ev]) recv b"
    using in_order_push_all [OF assms(2), of "[]" ev] by simp
  from assms(1,3,4) show ?thesis
  proof (cases rule: publish_outcomes)
    case (partial pre e)
    with subs have "in_order (log @ [ev]) recv (push_all ev pre b)"
      by (intro in_order_push_all [OF assms(2)]) auto
    with partial show ?thesis by simp
  next
    case routed
    with subs have "in_order (log @ [ev]) recv (push_all ev (subscribers (ev_Topic ev) b) b)"
      by (intro in_order_push_all [OF assms(2)]) auto
    with routed show ?thesis by simp
  qed (use none in_order_cacheEvent [OF assms(1,2)] in auto)
qed

lemma in_order_subscribed:
  assumes "in_order log recv b"
  shows "in_order log recv (subscribed t b)"
proof -
  let ?c = "map_get [] (b_cache b) t" and ?q = "nat (QueueSize (b_config b))"
  have c: "subseq ?c (on_topic t log)" using assms by (rule in_orderD)
  have "subseq (take ?q ?c) ?c" "subseq (drop ?q ?c) ?c"
    by (metis append_take_drop_id subseq_more subseq_order.order_refl,
        metis append_take_drop_id list_emb_append2 subseq_order.order_refl)
  with c have "subseq (take ?q ?c) (on_topic t log)" "subseq (drop ?q ?c) (on_topic t log)"
    by (meson subseq_order.trans)+
  with assms show ?thesis
    by (auto simp: in_order_def subscribed_def Let_def nth_append newSubscription_def make_chan_def
        less_Suc_eq)
qed

lemma Receive_cases:
  assumes "wf_broker b" "a < length (b_heap b)" "Receive a b = Some (x, b')"
  obtains c where "queue (b_heap b ! a) = x # chan_buf c"
    "b' = put_sub a ((b_heap b ! a)\<lparr>sub_events := c\<rparr>) b"
proof -
  from assms(3) obtain c where "chan_recv (sub_events (b_heap b ! a)) = RecvOk x c"
      and "b' = put_sub a ((b_heap b ! a)\<lparr>sub_events := c\<rparr>) b"
    by (auto simp: Receive_def split: recv_result.splits)
  then show ?thesis
    using that wf_sub_recv [OF wf_heapD(1) [OF wf_brokerD(2) [OF assms(1)] assms(2)]] by blast
qed

text \<open>Receiving moves the head of the queue to the end of what was received.\<close>

lemma Receive_same:
  assumes "wf_broker b" "a < length (b_heap b)" "Receive a b = Some (x, b')" "i < length (b_heap b)"
  shows "(recv(a := recv a @ [x])) i @ queue (b_heap b' ! i) = recv i @ queue (b_heap b ! i)"
    and "sub_topic (b_heap b' ! i) = sub_topic (b_heap b ! i)"
    and "length (b_heap b') = length (b_heap b)" "b_cache b' = b_cache b" "b_closed b' = b_closed b"
proof -
  obtain c where c: "queue (b_heap b ! a) = x # chan_buf c" "b' = put_sub a ((b_heap b ! a)\<lparr>sub_events := c\<rparr>) b"
    by (rule Receive_cases [OF assms(1-3)])
  show "(recv(a := recv a @ [x])) i @ queue (b_heap b' ! i) = recv i @ queue (b_heap b ! i)"
    using c(1) assms(2) by (cases "i = a") (simp_all add: c(2))
  show "sub_topic (b_heap b' ! i) = sub_topic (b_heap b ! i)"
    using assms(2) by (cases "i = a") (simp_all add: c(2))
  show "length (b_heap b') = length (b_heap b)" "b_cache b' = b_cache b" "b_closed b' = b_closed b"
    by (simp_all add: c(2))
qed

lemma in_order_Receive:
  assumes "wf_broker b" "in_order log recv b" "a < length (b_heap b)" "Receive a b = Some (x, b')"
  shows "in_order log (recv(a := recv a @ [x])) b'"
  using Receive_same [OF assms(1,3,4)] assms(3) in_orderD [OF assms(2)] unfolding in_order_def by simp

lemma in_order_Subscription_Close:
  assumes "wf_broker b" "in_order log recv b" "a < length (b_heap b)" "Subscription_Close a b = Some b'"
  shows "in_order log recv b'"
proof -
  have b': "b' = put_sub a (if sub_closed (b_heap b ! a) then b_heap b ! a else shut True (b_heap b ! a)) (unregister a b)"
    using Subscription_Close_eq [OF assms(1,3)] assms(4) by simp
  show ?thesis
    by (rule in_order_shrink [OF assms(2)]) (use assms(3) in \<open>auto simp: b' nth_list_update\<close>)
qed

lemma in_order_Close:
  assumes "wf_broker b" "in_order log recv b" "iteration_order ai" "broker_Close ai b = Some b'"
  shows "in_order log recv b'"
  by (rule in_order_shrink [OF assms(2)])
    (use broker_Close_eq [OF assms(1,3)] assms(4) in \<open>auto split: if_splits\<close>)

section \<open>The operations lose nothing\<close>

lemma no_lossD:
  assumes "no_loss owed recv b" "\<not> b_closed b" "length (b_heap b) < 2 ^ 64" "a < length (b_heap b)"
  shows "subseq (owed a) (recv a @ queue (b_heap b ! a))"
  using assms by (simp add: no_loss_def)

lemma no_loss_same:
  assumes "no_loss owed recv b" "length (b_heap b') = length (b_heap b)" "b_closed b \<Longrightarrow> b_closed b'"
    and "\<And>a. \<not> b_closed b' \<Longrightarrow> a < length (b_heap b) \<Longrightarrow>
      subseq (recv a @ queue (b_heap b ! a)) (recv' a @ queue (b_heap b' ! a))"
  shows "no_loss owed recv' b'"
proof -
  have "subseq (owed a) (recv' a @ queue (b_heap b' ! a))"
    if "\<not> b_closed b'" "length (b_heap b') < 2 ^ 64" "a < length (b_heap b')" for a
  proof -
    have "subseq (owed a) (recv a @ queue (b_heap b ! a))"
      using assms(2,3) that by (intro no_lossD [OF assms(1)]) auto
    with assms(2,4) that show ?thesis by (metis subseq_order.trans)
  qed
  with assms(1,2) show ?thesis by (simp add: no_loss_def)
qed

lemma owe_registered:
  assumes "wf_broker b" "length (b_heap b) < 2 ^ 64"
  shows "owe r ev b a = (if r = (Published, None) \<and> a \<in> set (subscribers (ev_Topic ev) b) then [ev] else [])"
proof -
  have "(a < length (b_heap b) \<and> \<not> sub_closed (b_heap b ! a) \<and> sub_topic (b_heap b ! a) = ev_Topic ev)
      = (a \<in> set (subscribers (ev_Topic ev) b))"
  proof
    assume "a < length (b_heap b) \<and> \<not> sub_closed (b_heap b ! a) \<and> sub_topic (b_heap b ! a) = ev_Topic ev"
    then have "(sub_id (b_heap b ! a), a) \<in> set (map_get [] (b_topics b) (ev_Topic ev))"
      using wf_brokerD(4) [OF assms(1)] assms(2) unfolding all_registered_def by metis
    then show "a \<in> set (subscribers (ev_Topic ev) b)" by force
  qed (use topic_addrs [OF wf_brokerD(3) [OF assms(1)], of a "ev_Topic ev"] in simp)
  then show ?thesis by (simp add: owe_def)
qed

lemma no_loss_publish:
  assumes "wf_broker b" "no_loss owed recv b" "iteration_order si"
    and "Some (r, b') \<in> set (PublishWithResult si ki c ev b)"
  shows "no_loss (\<lambda>a. owed a @ owe r ev b a) recv b'"
proof -
  note subs = routed_addrs(3) [OF assms(1,3), of "ev_Topic ev"]
  have outside: "owe r ev b a = []" if "length (b_heap b) \<le> a" for a
    using that by (simp add: owe_def)
  have grows: "length (b_heap b') = length (b_heap b) \<and> b_closed b' = b_closed b
    \<and> (length (b_heap b) < 2 ^ 64 \<longrightarrow> (\<forall>a < length (b_heap b).
         subseq (queue (b_heap b ! a) @ owe r ev b a) (queue (b_heap b' ! a))))"
    using assms(1,3,4)
    by (cases rule: publish_outcomes) (auto simp: owe_registered [OF assms(1)] intro: subseq_more)
  have "subseq (owed a @ owe r ev b a) (recv a @ queue (b_heap b' ! a))"
    if "\<not> b_closed b" "length (b_heap b) < 2 ^ 64" "a < length (b_heap b)" for a
  proof -
    have "subseq (owed a @ owe r ev b a) ((recv a @ queue (b_heap b ! a)) @ owe r ev b a)"
      using no_lossD [OF assms(2) that] by (intro list_emb_append_mono) auto
    also have "subseq ((recv a @ queue (b_heap b ! a)) @ owe r ev b a) (recv a @ queue (b_heap b' ! a))"
      using grows that by (auto intro: list_emb_append_mono)
    finally show ?thesis .
  qed
  with grows outside assms(2) show ?thesis by (simp add: no_loss_def)
qed

lemma no_loss_subscribed:
  assumes "wf_broker b" "no_loss owed recv b" "in_order log recv b"
  shows "no_loss owed recv (subscribed t b)"
proof -
  have new: "owed (length (b_heap b)) = []" using assms(2) by (simp add: no_loss_def)
  have heap: "\<exists>s. b_heap (subscribed t b) = b_heap b @ [s] \<and> b_closed (subscribed t b) = b_closed b"
    by (simp add: subscribed_def Let_def)
  with assms(2) new show ?thesis
    by (auto simp: no_loss_def nth_append less_Suc_eq)
qed

lemma hist_ok_step: "hist_step h h' \<Longrightarrow> hist_ok h \<Longrightarrow> hist_ok h'"
proof (induction rule: hist_step.induct)
  case (hist_Subscribe topic h r b')
  then have ok: "wf_broker (h_broker h)" "in_order (h_log h) (h_recv h) (h_broker h)"
      "no_loss (h_owed h) (h_recv h) (h_broker h)"
    by (simp_all add: hist_ok_def)
  show ?case
  proof (cases "b_closed (h_broker h) \<or> b_draining (h_broker h)")
    case True
    with hist_Subscribe ok show ?thesis by (auto simp: Subscribe_def hist_ok_def)
  next
    case False
    with hist_Subscribe have "b' = subscribed topic (h_broker h)" by (simp add: Subscribe_eq)
    with ok False show ?thesis
      by (simp add: hist_ok_def wf_subscribed in_order_subscribed no_loss_subscribed)
  qed
next
  case (hist_Publish si ki r b' c ev h)
  then show ?case
    using wf_PublishWithResult [of "h_broker h" si ki "Some (r, b')" c ev]
      in_order_publish [of "h_broker h" "h_log h" "h_recv h" si r b' ki c ev]
      no_loss_publish [of "h_broker h" "h_owed h" "h_recv h" si r b' ki c ev]
    by (simp add: hist_ok_def)
next
  case (hist_Receive a h x b')
  then have ok: "wf_broker (h_broker h)" by (simp add: hist_ok_def)
  let ?r = "(h_recv h)(a := h_recv h a @ [x])"
  have "no_loss (h_owed h) ?r b'"
  proof (rule no_loss_same [of _ "h_recv h" "h_broker h"])
    show "length (b_heap b') = length (b_heap (h_broker h))" "b_closed (h_broker h) \<Longrightarrow> b_closed b'"
      using Receive_same(3,5) [OF ok hist_Receive(1,2,1)] by auto
    show "subseq (h_recv h i @ queue (b_heap (h_broker h) ! i)) (?r i @ queue (b_heap b' ! i))"
      if "i < length (b_heap (h_broker h))" for i
      unfolding Receive_same(1) [OF ok hist_Receive(1,2) that] by (rule subseq_order.order_refl)
  qed (use hist_Receive in \<open>simp add: hist_ok_def\<close>)
  moreover have "wf_broker b'" "in_order (h_log h) ?r b'"
    using wf_Receive [OF ok hist_Receive(1,2)] in_order_Receive [OF ok _ hist_Receive(1,2)] hist_Receive(3)
    by (simp_all add: hist_ok_def)
  ultimately show ?case by (simp add: hist_ok_def)
next
  case (hist_BeginShutdown h)
  then show ?case
    using wf_BeginShutdown [of "h_broker h"] by (simp add: hist_ok_def in_order_def no_loss_def BeginShutdown_def)
next
  case (hist_Close_sub a h b')
  then have ok: "wf_broker (h_broker h)" by (simp add: hist_ok_def)
  let ?s = "b_heap (h_broker h) ! a"
  have b': "b' = put_sub a (if sub_closed ?s then ?s else shut True ?s) (unregister a (h_broker h))"
    using Subscription_Close_eq [OF ok hist_Close_sub(1)] hist_Close_sub(2) by simp
  have "no_loss (h_owed h) (h_recv h) b'"
  proof (rule no_loss_same [of _ "h_recv h" "h_broker h"])
    fix i assume "i < length (b_heap (h_broker h))"
    then show "subseq (h_recv h i @ queue (b_heap (h_broker h) ! i)) (h_recv h i @ queue (b_heap b' ! i))"
      by (cases "i = a") (simp_all add: b')
  qed (use hist_Close_sub in \<open>simp_all add: hist_ok_def b'\<close>)
  with hist_Close_sub ok show ?case
    by (simp add: hist_ok_def wf_Subscription_Close in_order_Subscription_Close)
next
  case (hist_Close ai h b')
  then have ok: "wf_broker (h_broker h)" by (simp add: hist_ok_def)
  have "no_loss (h_owed h) (h_recv h) b'"
    using hist_Close broker_Close_eq [OF ok hist_Close(1)]
    by (auto simp: hist_ok_def no_loss_def split: if_splits)
  with hist_Close ok show ?case by (simp add: hist_ok_def wf_broker_Close in_order_Close)
qed

lemma hist_ok_init: "hist_init h \<Longrightarrow> hist_ok h"
proof -
  assume init: "hist_init h"
  then obtain config where h: "h_broker h = broker_New config" "h_log h = []" "h_recv h = (\<lambda>_. [])"
      "h_owed h = (\<lambda>_. [])"
    by (auto simp: hist_init_def broker_init_def)
  have "b_heap (broker_New config) = []" "b_cache (broker_New config) = []"
    by (simp_all add: broker_New_def Let_def)
  with h show ?thesis by (simp add: hist_ok_def wf_New in_order_def no_loss_def map_get_def)
qed

interpretation history: invariant_system hist_init hist_step hist_ok
  by unfold_locales (blast intro: hist_ok_init hist_ok_step)+

section \<open>Properties\<close>

text \<open>
  C1 (delivery is exact and in publish order). In every run, what a subscription's consumer
  has received, followed by what is still in its queue, is a subsequence of the events handed
  to \<open>Publish\<close> for its topic, in publish order. Until the broker is closed it also contains,
  in order, every event whose publisher was told \<open>Published\<close> while the subscription was open.
\<close>

theorem delivery_exact_and_ordered:
  assumes "reach hist_init hist_step h" "a < length (b_heap (h_broker h))"
  shows "subseq (h_recv h a @ queue (b_heap (h_broker h) ! a))
           (on_topic (sub_topic (b_heap (h_broker h) ! a)) (h_log h))
    \<and> (\<not> b_closed (h_broker h) \<longrightarrow> length (b_heap (h_broker h)) < 2 ^ 64 \<longrightarrow>
         subseq (h_owed h a) (h_recv h a @ queue (b_heap (h_broker h) ! a)))"
proof -
  have "in_order (h_log h) (h_recv h) (h_broker h)" "no_loss (h_owed h) (h_recv h) (h_broker h)"
    using history.reach_inv [OF assms(1)] by (simp_all add: hist_ok_def)
  from in_orderD(1) [OF this(1) assms(2)] no_lossD [OF this(2) _ _ assms(2)] show ?thesis by blast
qed

text \<open>A run: subscribe, publish two events, receive one.\<close>

abbreviation hist_of :: "broker \<Rightarrow> event list \<Rightarrow> event list \<Rightarrow> event list \<Rightarrow> hist" where
  "hist_of b log recv owed \<equiv>
     \<lparr>h_broker = b, h_log = log, h_recv = (\<lambda>_. [])(0 := recv), h_owed = (\<lambda>_. [])(0 := owed)\<rparr>"

definition one_sub :: broker where
  "one_sub = subscribed ''t'' (broker_New sample_config)"

definition published_two :: broker where
  "published_two = remember id ''t'' ''2'' (push_all (sample_event ''2'') [0]
     (remember id ''t'' ''1'' (push_all (sample_event ''1'') [0] one_sub)))"

lemma hist_publish_one:
  assumes "b_heap b = [s]" "\<not> sub_closed s" "sub_topic s = ev_Topic ev"
    and "PublishWithResult id id None ev b = [Some ((Published, None), b')]"
  shows "hist_step (hist_of b log [] owed) (hist_of b' (log @ [ev]) [] (owed @ [ev]))"
proof -
  let ?h = "hist_of b log [] owed"
  have owe: "(\<lambda>a. h_owed ?h a @ owe (Published, None) ev b a) = (\<lambda>_. [])(0 := owed @ [ev])"
    using assms(1-3) by (auto simp: owe_def fun_eq_iff)
  have "hist_step ?h (?h\<lparr>h_broker := b', h_log := h_log ?h @ [ev],
      h_owed := (\<lambda>a. h_owed ?h a @ owe (Published, None) ev (h_broker ?h) a)\<rparr>)"
    by (rule hist_Publish [OF iteration_order_id(1) iteration_order_id(1), of _ _ None]) (simp add: assms(4))
  then show ?thesis using owe by simp
qed

lemma published_two_run:
  defines "b2 \<equiv> remember id ''t'' ''1'' (push_all (sample_event ''1'') [0] one_sub)"
  shows "reach hist_init hist_step
    (hist_of published_two [sample_event ''1'', sample_event ''2''] [] [sample_event ''1'', sample_event ''2''])"
proof -
  let ?e1 = "sample_event ''1''" and ?e2 = "sample_event ''2''"
  have fields: "b_topics one_sub = [(''t'', [(1, 0)])]" "accepting one_sub" "b_dedup one_sub = []"
      "b_heap one_sub = [newSubscription ''t'' 1 2]" "b_config one_sub = sample_config"
    by (simp_all add: one_sub_def sample_simps)
  have fields2: "b_topics b2 = [(''t'', [(1, 0)])]" "accepting b2" "b_dedup b2 = [(''t'', [''1''])]"
      "b_heap b2 = [push ?e1 (newSubscription ''t'' 1 2)]" "b_config b2 = sample_config"
    by (simp_all add: b2_def fields push_all_def remember_def map_get_def upt_rec)
  have reach1: "reachable one_sub"
    unfolding one_sub_def by (intro reachable_Subscribe reachable_New) (simp_all add: sample_simps)
  have p1: "PublishWithResult id id None ?e1 one_sub = [Some ((Published, None), b2)]"
    by (subst publish_room [OF reachable_wf [OF reach1]])
      (simp_all add: fields seen_def map_get_def idempotencyKey_def b2_def)
  then have reach2: "reachable b2"
    using reachable_Publish [OF reach1 iteration_order_id(1) iteration_order_id(1)] by (metis list.set_intros(1))
  have two: "published_two = remember id ''t'' ''2'' (push_all ?e2 [0] b2)"
    by (simp only: published_two_def b2_def)
  have p2: "PublishWithResult id id None ?e2 b2 = [Some ((Published, None), published_two)]"
    by (subst publish_room [OF reachable_wf [OF reach2]])
      (simp_all add: fields2 seen_def map_get_def idempotencyKey_def two)
  have "hist_init (hist_of (broker_New sample_config) [] [] [])"
    by (auto simp: hist_init_def broker_init_def)
  moreover have "hist_step (hist_of (broker_New sample_config) [] [] []) (hist_of one_sub [] [] [])"
    using hist_Subscribe [of "''t''" "hist_of (broker_New sample_config) [] [] []" "Inr 0" one_sub]
      Subscribe_eq [of "broker_New sample_config" "''t''"]
    by (simp add: one_sub_def broker_New_def Let_def)
  ultimately have h1: "reach hist_init hist_step (hist_of one_sub [] [] [])"
    by (rule reach_step [OF reach_init])
  have s2: "hist_step (hist_of one_sub [] [] []) (hist_of b2 [?e1] [] [?e1])"
    using hist_publish_one [OF fields(4) _ _ p1, of "[]" "[]"] by (simp add: newSubscription_def)
  have s3: "hist_step (hist_of b2 [?e1] [] [?e1]) (hist_of published_two [?e1, ?e2] [] [?e1, ?e2])"
    using hist_publish_one [OF fields2(4) _ _ p2, of "[?e1]" "[?e1]"] by (simp add: newSubscription_def)
  from h1 s2 have "reach hist_init hist_step (hist_of b2 [?e1] [] [?e1])" by (rule reach_step)
  then show ?thesis using s3 by (rule reach_step)
qed

theorem delivery_exact_and_ordered_witness:
  "\<exists>h :: hist. h_recv h 0 = [sample_event ''1''] \<and> h_owed h 0 = [sample_event ''1'', sample_event ''2'']
     \<and> subseq ([sample_event ''1''] @ queue (b_heap (h_broker h) ! 0)) [sample_event ''1'', sample_event ''2'']
     \<and> subseq [sample_event ''1'', sample_event ''2''] ([sample_event ''1''] @ queue (b_heap (h_broker h) ! 0))"
proof -
  let ?e1 = "sample_event ''1''" and ?e2 = "sample_event ''2''"
  let ?h = "hist_of published_two [?e1, ?e2] [] [?e1, ?e2]"
  have heap: "b_heap published_two = [push ?e2 (push ?e1 (newSubscription ''t'' 1 2))]" "\<not> b_closed published_two"
    by (simp_all add: published_two_def one_sub_def sample_simps push_all_def upt_rec)
  define b' where "b' = put_sub 0 ((b_heap published_two ! 0)\<lparr>sub_events :=
      (sub_events (b_heap published_two ! 0))\<lparr>chan_buf := [?e2]\<rparr>\<rparr>) published_two"
  have "Receive 0 published_two = Some (?e1, b')"
    by (simp add: Receive_def heap chan_recv_def b'_def newSubscription_def make_chan_def)
  then have "hist_step ?h (?h\<lparr>h_broker := b', h_recv := (h_recv ?h)(0 := h_recv ?h 0 @ [?e1])\<rparr>)"
    by (intro hist_Receive) (simp_all add: heap)
  then have r: "reach hist_init hist_step (hist_of b' [?e1, ?e2] [?e1] [?e1, ?e2])"
    using reach_step [OF published_two_run] by simp
  have "sub_topic (b_heap b' ! 0) = ''t''" "length (b_heap b') = 1" "\<not> b_closed b'"
    by (simp_all add: b'_def heap newSubscription_def)
  with delivery_exact_and_ordered [OF r, of 0]
  have "subseq ([?e1] @ queue (b_heap b' ! 0)) [?e1, ?e2]" "subseq [?e1, ?e2] ([?e1] @ queue (b_heap b' ! 0))"
    by simp_all
  then show ?thesis
    by - (rule exI [where x = "hist_of b' [?e1, ?e2] [?e1] [?e1, ?e2]"], simp)
qed

end
