(* ===== verification/Concurrency.thy ===== *)
theory Concurrency
  imports Broker_Properties
begin

text \<open>
  The broker under concurrent callers. A goroutine inside \<open>PublishWithResult\<close>,
  \<open>Subscription.Close\<close> or \<open>Broker.Close\<close> is a program counter between two critical sections
  or \<open>select\<close>s of \<open>broker/broker.go\<close>; a step of the system runs one goroutine to its next
  such point, with the pieces defined in \<open>Subscription\<close> and \<open>Broker\<close>, or starts a call. The
  invariant ties the wait group and the \<open>sync.Once\<close> of each subscription to the goroutines
  that hold them, and excludes every panic.
\<close>

section \<open>Goroutines\<close>

datatype thread =
    Routing event BackpressurePolicy "addr list"
  | Entered event BackpressurePolicy addr "addr list"
  | Selecting event BackpressurePolicy addr "addr list"
  | Leaving "go_error option" event BackpressurePolicy addr "addr list"
  | Returned PublishResult "go_error option"
  | Closing bool "addr list"
  | Waiting bool addr "addr list"
  | Emptying bool addr "addr list"

text \<open>The results of one step: empty when blocked or finished, \<open>None\<close> for a panic.\<close>

fun publisher_step :: "string iter \<Rightarrow> ctx \<Rightarrow> thread \<Rightarrow> broker \<Rightarrow> (thread \<times> broker) option list" where
  "publisher_step ki c (Routing ev p []) b =
     [Some (Returned Published None, remember ki (ev_Topic ev) (idempotencyKey ev) b)]"
| "publisher_step ki c (Routing ev p (a # as)) b =
     (case enqueue_enter (b_heap b ! a) of
        Inl e \<Rightarrow> [Some (Returned Published (Some e), b)]
      | Inr s \<Rightarrow> [Some (Entered ev p a as, put_sub a s b)])"
| "publisher_step ki c (Entered ev p a as) b =
     [Some (if sub_done (b_heap b ! a) then Leaving (Some ErrSubscription) ev p a as
            else Selecting ev p a as, b)]"
| "publisher_step ki c (Selecting ev p a as) b =
     map (\<lambda>out. case out of
         Panics \<Rightarrow> None
       | Returns err s \<Rightarrow> Some (Leaving err ev p a as, put_sub a s b))
       (enqueue_select c ev p (b_heap b ! a))"
| "publisher_step ki c (Leaving err ev p a as) b =
     (case enqueue_exit (Returns err (b_heap b ! a)) of
        Panics \<Rightarrow> [None]
      | Returns err s \<Rightarrow>
          [Some (case err of None \<Rightarrow> Routing ev p as | Some e \<Rightarrow> Returned Published (Some e),
                 put_sub a s b)])"
| "publisher_step ki c _ b = []"

text \<open>
  \<open>once.Do\<close>: the first caller marks the subscription and goes on, a caller that finds the
  function running waits for it, later callers return. The discarding loop takes one event
  at a time; on a closed channel it would spin.
\<close>

fun closer_step :: "thread \<Rightarrow> broker \<Rightarrow> (thread \<times> broker) option list" where
  "closer_step (Closing drain (a # as)) b =
     (let s = b_heap b ! a in
      case sub_once s of
        OnceDone \<Rightarrow> [Some (Closing drain as, b)]
      | OnceRunning \<Rightarrow> []
      | OnceFresh \<Rightarrow>
          (case close_mark s of
             None \<Rightarrow> [None]
           | Some s1 \<Rightarrow> [Some (Waiting drain a as, put_sub a (s1\<lparr>sub_once := OnceRunning\<rparr>) b)]))"
| "closer_step (Waiting drain a as) b =
     (if sub_wg (b_heap b ! a) = 0 then [Some (Emptying drain a as, b)] else [])"
| "closer_step (Emptying drain a as) b =
     (let s = b_heap b ! a;
          finish = (case chan_close (sub_events s) of
              None \<Rightarrow> None
            | Some ch \<Rightarrow> Some (Closing drain as, put_sub a (s\<lparr>sub_events := ch, sub_once := OnceDone\<rparr>) b))
      in if drain then [finish]
         else case chan_recv (sub_events s) of
                RecvOk _ ch \<Rightarrow> [Some (Emptying drain a as, put_sub a (s\<lparr>sub_events := ch\<rparr>) b)]
              | RecvClosed \<Rightarrow> [Some (Emptying drain a as, b)]
              | RecvBlocks \<Rightarrow> [finish])"
| "closer_step _ b = []"

definition thread_step :: "string iter \<Rightarrow> ctx \<Rightarrow> thread \<Rightarrow> broker \<Rightarrow> (thread \<times> broker) option list" where
  "thread_step ki c t b = publisher_step ki c t b @ closer_step t b"

section \<open>The system\<close>

record system =
  sy_broker :: broker
  sy_threads :: "thread list"
  sy_panic :: bool

text \<open>The first critical section of \<open>PublishWithResult\<close> starts a goroutine at its loop.\<close>

definition start_publish :: "(u64 \<times> addr) iter \<Rightarrow> string iter \<Rightarrow> event \<Rightarrow> broker \<Rightarrow> thread \<times> broker" where
  "start_publish si ki ev b =
     (case publish_begin si ki ev b of
        StartReturns r err b' \<Rightarrow> (Returned r err, b')
      | StartRoutes subs policy \<Rightarrow> (Routing ev policy subs, b))"

definition start_close :: "addr \<Rightarrow> broker \<Rightarrow> thread \<times> broker" where
  "start_close a b = (Closing True [a], unregister a b)"

definition start_broker_close :: "addr iter \<Rightarrow> broker \<Rightarrow> thread \<times> broker" where
  "start_broker_close ai b =
     (if b_closed b then (Closing False [], b)
      else (Closing False (ai (registered b)), b\<lparr>b_closed := True, b_topics := []\<rparr>))"

inductive system_step :: "system \<Rightarrow> system \<Rightarrow> bool" where
  run: "\<not> sy_panic s \<Longrightarrow> i < length (sy_threads s) \<Longrightarrow>
    Some (t, b) \<in> set (thread_step ki c (sy_threads s ! i) (sy_broker s)) \<Longrightarrow> iteration_order ki \<Longrightarrow>
    system_step s (s\<lparr>sy_broker := b, sy_threads := (sy_threads s)[i := t]\<rparr>)"
| crash: "\<not> sy_panic s \<Longrightarrow> i < length (sy_threads s) \<Longrightarrow>
    None \<in> set (thread_step ki c (sy_threads s ! i) (sy_broker s)) \<Longrightarrow>
    system_step s (s\<lparr>sy_panic := True\<rparr>)"
| publish: "\<not> sy_panic s \<Longrightarrow> iteration_order si \<Longrightarrow> iteration_order ki \<Longrightarrow>
    start_publish si ki ev (sy_broker s) = (t, b) \<Longrightarrow>
    system_step s (s\<lparr>sy_broker := b, sy_threads := sy_threads s @ [t]\<rparr>)"
| close: "\<not> sy_panic s \<Longrightarrow> a < length (b_heap (sy_broker s)) \<Longrightarrow>
    start_close a (sy_broker s) = (t, b) \<Longrightarrow>
    system_step s (s\<lparr>sy_broker := b, sy_threads := sy_threads s @ [t]\<rparr>)"
| close_broker: "\<not> sy_panic s \<Longrightarrow> iteration_order ai \<Longrightarrow>
    start_broker_close ai (sy_broker s) = (t, b) \<Longrightarrow>
    system_step s (s\<lparr>sy_broker := b, sy_threads := sy_threads s @ [t]\<rparr>)"
| subscribe: "\<not> sy_panic s \<Longrightarrow> Subscribe topic (sy_broker s) = Some (r, b) \<Longrightarrow>
    system_step s (s\<lparr>sy_broker := b\<rparr>)"
| receive: "\<not> sy_panic s \<Longrightarrow> a < length (b_heap (sy_broker s)) \<Longrightarrow>
    Receive a (sy_broker s) = Some (x, b) \<Longrightarrow> system_step s (s\<lparr>sy_broker := b\<rparr>)"
| begin_shutdown: "\<not> sy_panic s \<Longrightarrow> system_step s (s\<lparr>sy_broker := BeginShutdown (sy_broker s)\<rparr>)"

definition system_init :: "system \<Rightarrow> bool" where
  "system_init s \<longleftrightarrow> broker_init (sy_broker s) \<and> sy_threads s = [] \<and> \<not> sy_panic s"

section \<open>The invariant\<close>

text \<open>The goroutines inside \<open>enqueue\<close> and inside \<open>close\<close> of a subscription, and their targets.\<close>

fun enqueuing :: "addr \<Rightarrow> thread \<Rightarrow> bool" where
  "enqueuing a (Entered _ _ x _) = (x = a)"
| "enqueuing a (Selecting _ _ x _) = (x = a)"
| "enqueuing a (Leaving _ _ _ x _) = (x = a)"
| "enqueuing a _ = False"

fun shutting :: "addr \<Rightarrow> thread \<Rightarrow> bool" where
  "shutting a (Waiting _ x _) = (x = a)"
| "shutting a (Emptying _ x _) = (x = a)"
| "shutting a _ = False"

fun emptying :: "addr \<Rightarrow> thread \<Rightarrow> bool" where
  "emptying a (Emptying _ x _) = (x = a)"
| "emptying a _ = False"

fun targets :: "thread \<Rightarrow> addr list" where
  "targets (Routing _ _ as) = as"
| "targets (Entered _ _ a as) = a # as"
| "targets (Selecting _ _ a as) = a # as"
| "targets (Leaving _ _ _ a as) = a # as"
| "targets (Returned _ _) = []"
| "targets (Closing _ as) = as"
| "targets (Waiting _ a as) = a # as"
| "targets (Emptying _ a as) = a # as"

definition tally :: "('t \<Rightarrow> bool) \<Rightarrow> 't list \<Rightarrow> nat" where
  "tally P ts = length (filter P ts)"

text \<open>
  A subscription with \<open>n\<close> goroutines inside \<open>enqueue\<close>, \<open>k\<close> inside the function given to
  \<open>once.Do\<close>, \<open>e\<close> of them past the wait.
\<close>

definition sub_ok :: "nat \<Rightarrow> nat \<Rightarrow> nat \<Rightarrow> subscription \<Rightarrow> bool" where
  "sub_ok n k e s \<longleftrightarrow>
     sub_wg s = n \<and> sub_done s = sub_closed s \<and> (sub_once s = OnceFresh \<longleftrightarrow> \<not> sub_closed s)
     \<and> k = (if sub_once s = OnceRunning then 1 else 0)
     \<and> (chan_closed (sub_events s) \<longleftrightarrow> sub_once s = OnceDone)
     \<and> (0 < e \<or> sub_once s = OnceDone \<longrightarrow> n = 0)
     \<and> length (queue s) \<le> chan_cap (sub_events s) \<and> 0 < chan_cap (sub_events s)"

definition addresses_ok :: "system \<Rightarrow> bool" where
  "addresses_ok s \<longleftrightarrow>
     (\<forall>t \<in> set (sy_threads s). \<forall>a \<in> set (targets t). a < length (b_heap (sy_broker s)))
     \<and> (\<forall>a \<in> set (registered (sy_broker s)). a < length (b_heap (sy_broker s)))
     \<and> 1 \<le> QueueSize (b_config (sy_broker s))"

definition subs_ok :: "thread list \<Rightarrow> subscription list \<Rightarrow> bool" where
  "subs_ok ts h \<longleftrightarrow>
     (\<forall>a < length h. sub_ok (tally (enqueuing a) ts) (tally (shutting a) ts) (tally (emptying a) ts) (h ! a))"

definition system_ok :: "system \<Rightarrow> bool" where
  "system_ok s \<longleftrightarrow> \<not> sy_panic s \<and> addresses_ok s \<and> subs_ok (sy_threads s) (b_heap (sy_broker s))"

subsection \<open>Counting goroutines\<close>

lemma tally_append [simp]: "tally P (ts @ [t]) = tally P ts + (if P t then 1 else 0)"
  by (simp add: tally_def)

lemma tally_update:
  "i < length ts \<Longrightarrow> tally P (ts[i := t]) + (if P (ts ! i) then 1 else 0) = tally P ts + (if P t then 1 else 0)"
proof (induction ts arbitrary: i)
  case (Cons x ts)
  then show ?case by (cases i) (auto simp: tally_def)
qed simp

lemma tally_same: "i < length ts \<Longrightarrow> P t = P (ts ! i) \<Longrightarrow> tally P (ts[i := t]) = tally P ts"
  using tally_update [of i ts P t] by (simp split: if_splits)

lemma tally_pos: "i < length ts \<Longrightarrow> P (ts ! i) \<Longrightarrow> 0 < tally P ts"
  unfolding tally_def by (metis filter_empty_conv length_greater_0_conv nth_mem)

lemma tally_witness: "0 < tally P ts \<Longrightarrow> \<exists>i < length ts. P (ts ! i)"
  unfolding tally_def by (metis filter_empty_conv in_set_conv_nth length_greater_0_conv)

lemma emptying_shutting: "emptying a t \<Longrightarrow> shutting a t"
  by (cases t) auto

lemma tally_mono: "(\<And>t. P t \<Longrightarrow> Q t) \<Longrightarrow> tally P ts \<le> tally Q ts"
  by (induction ts) (auto simp: tally_def)

lemma subs_okD:
  "subs_ok ts h \<Longrightarrow> a < length h \<Longrightarrow>
     sub_ok (tally (enqueuing a) ts) (tally (shutting a) ts) (tally (emptying a) ts) (h ! a)"
  by (simp add: subs_ok_def)

text \<open>
  A step of goroutine \<open>i\<close> that changes only subscription \<open>a\<close> and whose program counters
  concern only \<open>a\<close>.
\<close>

lemma subs_ok_local:
  assumes "subs_ok ts h" "i < length ts" "a < length h"
    and "\<And>x. x \<noteq> a \<Longrightarrow> enqueuing x t = enqueuing x (ts ! i) \<and> shutting x t = shutting x (ts ! i)
      \<and> emptying x t = emptying x (ts ! i)"
    and "\<And>n k e n' k' e'. sub_ok n k e (h ! a) \<Longrightarrow> e \<le> k \<Longrightarrow> e' \<le> k' \<Longrightarrow>
      (enqueuing a (ts ! i) \<Longrightarrow> 0 < n) \<Longrightarrow> (shutting a (ts ! i) \<Longrightarrow> 0 < k) \<Longrightarrow>
      (emptying a (ts ! i) \<Longrightarrow> 0 < e) \<Longrightarrow>
      n' + of_bool (enqueuing a (ts ! i)) = n + of_bool (enqueuing a t) \<Longrightarrow>
      k' + of_bool (shutting a (ts ! i)) = k + of_bool (shutting a t) \<Longrightarrow>
      e' + of_bool (emptying a (ts ! i)) = e + of_bool (emptying a t) \<Longrightarrow>
      sub_ok n' k' e' s'"
  shows "subs_ok (ts[i := t]) (h[a := s'])"
  unfolding subs_ok_def
proof (intro allI impI)
  fix x
  assume "x < length (h[a := s'])"
  then have x: "x < length h" by simp
  show "sub_ok (tally (enqueuing x) (ts[i := t])) (tally (shutting x) (ts[i := t]))
      (tally (emptying x) (ts[i := t])) (h[a := s'] ! x)"
  proof (cases "x = a")
    case True
    have "sub_ok (tally (enqueuing a) (ts[i := t])) (tally (shutting a) (ts[i := t]))
        (tally (emptying a) (ts[i := t])) s'"
      by (rule assms(5) [OF subs_okD [OF assms(1,3)]])
        (use assms(2) tally_update [OF assms(2), of _ t] in
          \<open>auto simp: of_bool_def tally_pos intro: tally_mono emptying_shutting\<close>)
    with True x show ?thesis by simp
  next
    case False
    then show ?thesis
      using subs_okD [OF assms(1) x] assms(2) assms(4) [OF False] by (simp add: tally_same)
  qed
qed

text \<open>A new goroutine at a point outside \<open>enqueue\<close> and \<open>close\<close>.\<close>

fun between_calls :: "thread \<Rightarrow> bool" where
  "between_calls (Routing _ _ _) = True"
| "between_calls (Returned _ _) = True"
| "between_calls (Closing _ _) = True"
| "between_calls _ = False"

lemma between_callsD [simp]:
  "between_calls t \<Longrightarrow> \<not> enqueuing a t \<and> \<not> shutting a t \<and> \<not> emptying a t"
  by (cases t) auto

lemma subs_ok_spawn: "subs_ok ts h \<Longrightarrow> between_calls t \<Longrightarrow> subs_ok (ts @ [t]) h"
  by (simp add: subs_ok_def)

lemma subs_ok_switch:
  "subs_ok ts h \<Longrightarrow> i < length ts \<Longrightarrow> between_calls (ts ! i) \<Longrightarrow> between_calls t \<Longrightarrow> subs_ok (ts[i := t]) h"
  by (simp add: subs_ok_def tally_same)

subsection \<open>Steps of one goroutine\<close>

text \<open>What any step keeps, whatever the goroutine does.\<close>

definition frame_ok :: "thread \<Rightarrow> broker \<Rightarrow> thread \<Rightarrow> broker \<Rightarrow> bool" where
  "frame_ok t b t' b' \<longleftrightarrow>
     length (b_heap b') = length (b_heap b) \<and> b_topics b' = b_topics b \<and> b_config b' = b_config b
     \<and> b_closed b' = b_closed b \<and> b_draining b' = b_draining b \<and> b_cache b' = b_cache b
     \<and> set (targets t') \<subseteq> set (targets t)"

lemmas select_cases = enqueue_select_def done_case_def ctx_case_def send_case_def chan_send_def

lemma thread_step_frame:
  assumes "Some (t', b') \<in> set (thread_step ki c t b)"
  shows "frame_ok t b t' b'"
  using assms unfolding thread_step_def frame_ok_def
  by (cases t; cases "(ki, c, t, b)" rule: publisher_step.cases; cases "(t, b)" rule: closer_step.cases)
    (auto simp: Let_def split: sum.splits outcome.splits option.splits once.splits if_splits recv_result.splits)

lemma enqueue_select_open:
  assumes "\<not> chan_closed (sub_events s)" "out \<in> set (enqueue_select c ev p s)"
  obtains (refused) e where "out = Returns (Some e) s" | (sent) "has_room s" "out = Returns None (push ev s)"
  using assms by (auto simp: select_cases Let_def split: if_splits option.splits)

lemma publisher_step_ok:
  assumes "subs_ok ts (b_heap b)" "i < length ts" "\<forall>a \<in> set (targets (ts ! i)). a < length (b_heap b)"
    and "r \<in> set (publisher_step ki c (ts ! i) b)"
  shows "\<exists>t b'. r = Some (t, b') \<and> subs_ok (ts[i := t]) (b_heap b')"
proof (cases "ts ! i")
  case (Routing ev p as)
  note t = Routing
  show ?thesis
  proof (cases as)
    case Nil
    with assms t show ?thesis by (auto intro: subs_ok_switch)
  next
    case (Cons a as')
    with assms(3) t have a: "a < length (b_heap b)" by simp
    show ?thesis
    proof (cases "sub_closed (b_heap b ! a)")
      case True
      with assms t Cons show ?thesis by (auto simp: enqueue_enter_def intro: subs_ok_switch)
    next
      case False
      have "subs_ok (ts[i := Entered ev p a as']) ((b_heap b)[a := (b_heap b ! a)\<lparr>sub_wg := sub_wg (b_heap b ! a) + 1\<rparr>])"
        by (rule subs_ok_local [OF assms(1,2) a]) (use False t in \<open>auto simp: sub_ok_def split: if_splits\<close>)
      with assms(4) t Cons False show ?thesis by (simp add: enqueue_enter_def)
    qed
  qed
next
  case (Entered ev p a as)
  with assms(3) have a: "a < length (b_heap b)" by simp
  have "subs_ok (ts[i := t]) ((b_heap b)[a := b_heap b ! a])"
    if "t = Leaving (Some ErrSubscription) ev p a as \<or> t = Selecting ev p a as" for t
    by (rule subs_ok_local [OF assms(1,2) a]) (use that Entered in \<open>auto simp: sub_ok_def\<close>)
  with assms(4) Entered show ?thesis by auto
next
  case (Selecting ev p a as)
  with assms(3) have a: "a < length (b_heap b)" by simp
  let ?s = "b_heap b ! a"
  have live: "\<not> chan_closed (sub_events ?s)"
    using subs_okD [OF assms(1) a] tally_pos [OF assms(2), of "enqueuing a"] Selecting by (auto simp: sub_ok_def)
  from assms(4) Selecting obtain out where out: "out \<in> set (enqueue_select c ev p ?s)"
      "r = (case out of Panics \<Rightarrow> None | Returns err s \<Rightarrow> Some (Leaving err ev p a as, put_sub a s b))"
    by auto
  have "subs_ok (ts[i := Leaving err ev p a as]) ((b_heap b)[a := ?s])" for err
    by (rule subs_ok_local [OF assms(1,2) a]) (use Selecting in \<open>auto simp: sub_ok_def\<close>)
  moreover have "subs_ok (ts[i := Leaving err ev p a as]) ((b_heap b)[a := push ev ?s])" if "has_room ?s" for err
    by (rule subs_ok_local [OF assms(1,2) a]) (use Selecting that in \<open>auto simp: sub_ok_def\<close>)
  ultimately show ?thesis
    using out by (cases rule: enqueue_select_open [OF live out(1)]) auto
next
  case (Leaving err ev p a as)
  with assms(3) have a: "a < length (b_heap b)" by simp
  let ?s = "b_heap b ! a"
  have "0 < sub_wg ?s"
    using subs_okD [OF assms(1) a] tally_pos [OF assms(2), of "enqueuing a"] Leaving by (auto simp: sub_ok_def)
  moreover have "subs_ok (ts[i := t]) ((b_heap b)[a := ?s\<lparr>sub_wg := sub_wg ?s - 1\<rparr>])" if "between_calls t" for t
    by (rule subs_ok_local [OF assms(1,2) a]) (use Leaving that in \<open>auto simp: sub_ok_def\<close>)
  ultimately show ?thesis
    using assms(4) Leaving by (auto split: option.splits)
qed (use assms in auto)

lemma closer_step_ok:
  assumes "subs_ok ts (b_heap b)" "i < length ts" "\<forall>a \<in> set (targets (ts ! i)). a < length (b_heap b)"
    and "r \<in> set (closer_step (ts ! i) b)"
  shows "\<exists>t b'. r = Some (t, b') \<and> subs_ok (ts[i := t]) (b_heap b')"
proof (cases "ts ! i")
  case (Closing drain as)
  note t = Closing
  show ?thesis
  proof (cases as)
    case (Cons a as')
    with assms(3) t have a: "a < length (b_heap b)" by simp
    let ?s = "b_heap b ! a"
    have mark: "subs_ok (ts[i := Waiting drain a as'])
        ((b_heap b)[a := ?s\<lparr>sub_closed := True, sub_done := True, sub_once := OnceRunning\<rparr>])"
      if "sub_once ?s = OnceFresh"
      by (rule subs_ok_local [OF assms(1,2) a]) (use that t in \<open>auto simp: sub_ok_def\<close>)
    have "\<not> sub_done ?s" if "sub_once ?s = OnceFresh"
      using subs_okD [OF assms(1) a] that by (simp add: sub_ok_def)
    then show ?thesis
      using assms t Cons mark
      by (auto simp: close_mark_def Let_def intro: subs_ok_switch split: once.splits)
  qed (use assms t in auto)
next
  case (Waiting drain a as)
  with assms(3) have a: "a < length (b_heap b)" by simp
  have "subs_ok (ts[i := Emptying drain a as]) ((b_heap b)[a := b_heap b ! a])" if "sub_wg (b_heap b ! a) = 0"
    by (rule subs_ok_local [OF assms(1,2) a]) (use Waiting that in \<open>auto simp: sub_ok_def\<close>)
  with assms(4) Waiting show ?thesis by (auto split: if_splits)
next
  case (Emptying drain a as)
  with assms(3) have a: "a < length (b_heap b)" by simp
  let ?s = "b_heap b ! a"
  have ok: "sub_once ?s = OnceRunning" "\<not> chan_closed (sub_events ?s)"
    using subs_okD [OF assms(1) a] tally_pos [OF assms(2), of "shutting a"] Emptying
    by (auto simp: sub_ok_def split: if_splits)
  have finish: "subs_ok (ts[i := Closing drain as])
      ((b_heap b)[a := ?s\<lparr>sub_events := (sub_events ?s)\<lparr>chan_closed := True\<rparr>, sub_once := OnceDone\<rparr>])"
    by (rule subs_ok_local [OF assms(1,2) a]) (use Emptying ok in \<open>auto simp: sub_ok_def\<close>)
  have take: "subs_ok (ts[i := Emptying drain a as]) ((b_heap b)[a := ?s\<lparr>sub_events := (sub_events ?s)\<lparr>chan_buf := xs\<rparr>\<rparr>])"
    if "queue ?s = x # xs" for x xs
    by (rule subs_ok_local [OF assms(1,2) a]) (use Emptying ok that in \<open>auto simp: sub_ok_def\<close>)
  show ?thesis
    using assms(4) Emptying finish take ok
    by (auto simp: Let_def chan_close_def chan_recv_def split: if_splits list.splits)
qed (use assms in auto)

lemma registered_cong: "b_topics b' = b_topics b \<Longrightarrow> registered b' = registered b"
  by (simp add: registered_def)

text \<open>Every step of a goroutine keeps the invariant; none of its outcomes is a panic.\<close>

lemma thread_step_ok:
  assumes "system_ok s" "i < length (sy_threads s)"
    and "r \<in> set (thread_step ki c (sy_threads s ! i) (sy_broker s))"
  obtains t b where "r = Some (t, b)"
    "system_ok (s\<lparr>sy_broker := b, sy_threads := (sy_threads s)[i := t]\<rparr>)"
proof -
  let ?b = "sy_broker s" and ?ts = "sy_threads s"
  have ok: "subs_ok ?ts (b_heap ?b)" "\<forall>a \<in> set (targets (?ts ! i)). a < length (b_heap ?b)"
    using assms(1,2) nth_mem [OF assms(2)] unfolding system_ok_def addresses_ok_def by blast+
  from assms(3) obtain t b where r: "r = Some (t, b)" "subs_ok (?ts[i := t]) (b_heap b)"
    using publisher_step_ok [OF ok(1) assms(2) ok(2)] closer_step_ok [OF ok(1) assms(2) ok(2)]
    unfolding thread_step_def by (metis UnE set_append)
  have f: "frame_ok (?ts ! i) ?b t b" using assms(3) r(1) by (blast intro: thread_step_frame)
  have "addresses_ok (s\<lparr>sy_broker := b, sy_threads := ?ts[i := t]\<rparr>)"
    unfolding addresses_ok_def
  proof (intro conjI ballI)
    fix u a
    assume "u \<in> set (sy_threads (s\<lparr>sy_broker := b, sy_threads := ?ts[i := t]\<rparr>))" "a \<in> set (targets u)"
    moreover from this have "u \<in> set ?ts \<or> u = t"
      using set_update_subset_insert [of ?ts i t] by auto
    ultimately show "a < length (b_heap (sy_broker (s\<lparr>sy_broker := b, sy_threads := ?ts[i := t]\<rparr>)))"
      using assms(1) ok(2) f unfolding system_ok_def addresses_ok_def frame_ok_def by auto
  qed (use assms(1) f registered_cong [of b ?b] in \<open>simp_all add: system_ok_def addresses_ok_def frame_ok_def\<close>)
  with r assms(1) that show ?thesis by (simp add: system_ok_def)
qed

subsection \<open>Starting calls\<close>

lemma registered_iff: "a \<in> set (registered b) \<longleftrightarrow> (\<exists>t subs. (t, subs) \<in> set (b_topics b) \<and> a \<in> snd ` set subs)"
  by (force simp: registered_def)

lemma registered_update:
  assumes "a \<in> set (registered b')" "b_topics b' = AList.update t subs (b_topics b)"
  shows "a \<in> snd ` set subs \<or> a \<in> set (registered b)"
proof -
  obtain t' subs' where "(t', subs') \<in> set (AList.update t subs (b_topics b))" "a \<in> snd ` set subs'"
    using assms by (auto simp only: registered_iff)
  moreover from this have "(t', subs') = (t, subs) \<or> (t', subs') \<in> set (b_topics b)"
    using set_AList_update_subset [of t subs "b_topics b"] by blast
  ultimately show ?thesis unfolding registered_iff by blast
qed

lemma registered_unregister: "set (registered (unregister a b)) \<subseteq> set (registered b)"
proof (cases "map_of (b_topics b) (sub_topic (b_heap b ! a))")
  case None
  then show ?thesis by (simp add: unregister_def Let_def)
next
  case (Some subs)
  then have "(sub_topic (b_heap b ! a), subs) \<in> set (b_topics b)" by (rule map_of_SomeD)
  then have more: "a' \<in> set (registered b)" if "(i, a') \<in> set (AList.delete (sub_id (b_heap b ! a)) subs)" for i a'
    using that set_AList_delete_subset [of "sub_id (b_heap b ! a)" subs] by (force simp: registered_iff)
  show ?thesis
  proof
    fix x assume "x \<in> set (registered (unregister a b))"
    then obtain t subs' where "(t, subs') \<in> set (b_topics (unregister a b))" "x \<in> snd ` set subs'"
      by (auto simp only: registered_iff)
    moreover from this Some have "(t, subs') \<in> set (b_topics b) \<or> subs' = AList.delete (sub_id (b_heap b ! a)) subs"
      using set_AList_update_subset [of "sub_topic (b_heap b ! a)" "AList.delete (sub_id (b_heap b ! a)) subs" "b_topics b"]
        set_AList_delete_subset [of "sub_topic (b_heap b ! a)" "b_topics b"]
      by (auto simp: unregister_def Let_def split: if_splits)
    ultimately consider "(t, subs') \<in> set (b_topics b)" "x \<in> snd ` set subs'"
      | "x \<in> snd ` set (AList.delete (sub_id (b_heap b ! a)) subs)" by blast
    then show "x \<in> set (registered b)" by cases (use more registered_iff in \<open>blast, fastforce\<close>)
  qed
qed

lemma registered_none: "b_topics b = [] \<Longrightarrow> registered b = []"
  by (simp add: registered_def)

lemma system_ok_spawn:
  assumes "system_ok s" "between_calls t" "b_heap b = b_heap (sy_broker s)" "b_config b = b_config (sy_broker s)"
    and "set (registered b) \<subseteq> set (registered (sy_broker s))"
    and "\<forall>a \<in> set (targets t). a < length (b_heap b)"
  shows "system_ok (s\<lparr>sy_broker := b, sy_threads := sy_threads s @ [t]\<rparr>)"
  using assms by (auto simp: system_ok_def addresses_ok_def subs_ok_spawn)

lemma publish_begin_frame:
  "publish_begin si ki ev b = StartReturns r err b' \<Longrightarrow>
     b_heap b' = b_heap b \<and> b_topics b' = b_topics b \<and> b_config b' = b_config b"
  "publish_begin si ki ev b = StartRoutes as p \<Longrightarrow> as = map snd (si (map_get [] (b_topics b) (ev_Topic ev)))"
  by (auto simp: publish_begin_def Let_def split: if_splits)

lemma start_publish_ok:
  assumes "system_ok s" "iteration_order si" "start_publish si ki ev (sy_broker s) = (t, b)"
  shows "system_ok (s\<lparr>sy_broker := b, sy_threads := sy_threads s @ [t]\<rparr>)"
proof -
  have valid: "\<forall>a \<in> snd ` set (map_get [] (b_topics (sy_broker s)) (ev_Topic ev)). a < length (b_heap (sy_broker s))"
    using assms(1) registered_lookup [of _ _ "sy_broker s" "ev_Topic ev"]
    by (fastforce simp: system_ok_def addresses_ok_def)
  show ?thesis
  proof (cases "publish_begin si ki ev (sy_broker s)")
    case (StartReturns r err b')
    with assms(3) show ?thesis
      using publish_begin_frame(1) [OF StartReturns] registered_cong [of b' "sy_broker s"]
      by (intro system_ok_spawn [OF assms(1)]) (auto simp: start_publish_def)
  next
    case (StartRoutes as p)
    with assms(2,3) valid show ?thesis
      using publish_begin_frame(2) [OF StartRoutes]
      by (intro system_ok_spawn [OF assms(1)]) (auto simp: start_publish_def)
  qed
qed

lemma subscribed_ok:
  assumes "system_ok s" "Subscribe topic (sy_broker s) = Some (r, b)"
  shows "system_ok (s\<lparr>sy_broker := b\<rparr>)"
proof (cases "b_closed (sy_broker s) \<or> b_draining (sy_broker s)")
  case True
  with assms show ?thesis by (auto simp: Subscribe_def system_ok_def addresses_ok_def)
next
  case False
  let ?b = "sy_broker s" and ?n = "length (b_heap (sy_broker s))"
  have b: "b = subscribed topic ?b" using assms(2) False by (simp add: Subscribe_eq)
  obtain x where heap: "b_heap b = b_heap ?b @ [x]" and x: "sub_ok 0 0 0 x"
    using assms(1) by (auto simp: b subscribed_def Let_def sub_ok_def newSubscription_def make_chan_def
        system_ok_def addresses_ok_def)
  have none: "tally (enqueuing ?n) (sy_threads s) = 0" "tally (shutting ?n) (sy_threads s) = 0"
      "tally (emptying ?n) (sy_threads s) = 0"
  proof -
    have "?n \<notin> set (targets t)" if "t \<in> set (sy_threads s)" for t
      using assms(1) that unfolding system_ok_def addresses_ok_def by blast
    moreover have "enqueuing a t \<or> shutting a t \<Longrightarrow> a \<in> set (targets t)" for a t by (cases t) auto
    ultimately show "tally (enqueuing ?n) (sy_threads s) = 0" "tally (shutting ?n) (sy_threads s) = 0"
        "tally (emptying ?n) (sy_threads s) = 0"
      by (auto simp: tally_def filter_empty_conv dest: emptying_shutting)
  qed
  have "subs_ok (sy_threads s) (b_heap b)"
    using assms(1) x none by (auto simp: heap subs_ok_def system_ok_def nth_append less_Suc_eq)
  moreover have "\<forall>a \<in> set (registered b). a < length (b_heap b)"
  proof
    fix a assume "a \<in> set (registered b)"
    then have "a \<in> snd ` set (AList.update (b_sequence ?b + 1) ?n (map_get [] (b_topics ?b) topic)) \<or> a \<in> set (registered ?b)"
      by (rule registered_update) (simp add: b subscribed_def Let_def)
    then have "a = ?n \<or> a \<in> set (registered ?b)"
      using registered_lookup [of _ _ ?b topic]
        set_AList_update_subset [of "b_sequence ?b + 1" ?n "map_get [] (b_topics ?b) topic"] by auto
    with assms(1) show "a < length (b_heap b)" by (auto simp: heap system_ok_def addresses_ok_def less_Suc_eq)
  qed
  moreover have "b_config b = b_config ?b" by (simp add: b subscribed_def Let_def)
  ultimately show ?thesis
    using assms(1) by (auto simp: system_ok_def addresses_ok_def heap less_Suc_eq)
qed

lemma receive_ok:
  assumes "system_ok s" "a < length (b_heap (sy_broker s))" "Receive a (sy_broker s) = Some (x, b)"
  shows "system_ok (s\<lparr>sy_broker := b\<rparr>)"
proof -
  let ?s = "b_heap (sy_broker s) ! a"
  obtain ch where ch: "chan_recv (sub_events ?s) = RecvOk x ch"
      "b = put_sub a (?s\<lparr>sub_events := ch\<rparr>) (sy_broker s)"
    using assms(3) by (auto simp: Receive_def split: recv_result.splits)
  have "subs_ok (sy_threads s) (b_heap b)"
    using assms(1,2) ch(1) unfolding subs_ok_def system_ok_def ch(2)
    by (auto simp: nth_list_update sub_ok_def chan_recv_def split: list.splits if_splits)
  then show ?thesis
    using assms(1) registered_cong [of b "sy_broker s"] by (simp add: system_ok_def addresses_ok_def ch(2))
qed

lemma system_ok_step: "system_step s s' \<Longrightarrow> system_ok s \<Longrightarrow> system_ok s'"
proof (induction rule: system_step.induct)
  case (run s i t b ki c)
  then show ?case by (metis thread_step_ok option.inject prod.inject)
next
  case (crash s i ki c)
  then show ?case by (metis thread_step_ok option.distinct(1))
next
  case (publish s si ki ev t b)
  then show ?case by (blast intro: start_publish_ok)
next
  case (close s a t b)
  then show ?case
    by (intro system_ok_spawn) (auto simp: start_close_def dest: subsetD [OF registered_unregister])
next
  case (close_broker s ai t b)
  then show ?case
    by (intro system_ok_spawn)
      (auto simp: start_broker_close_def registered_none system_ok_def addresses_ok_def split: if_splits)
next
  case (subscribe s topic r b)
  then show ?case by (blast intro: subscribed_ok)
next
  case (receive s a x b)
  then show ?case by (blast intro: receive_ok)
next
  case (begin_shutdown s)
  then show ?case by (simp add: system_ok_def addresses_ok_def BeginShutdown_def registered_def)
qed

lemma system_ok_init: "system_init s \<Longrightarrow> system_ok s"
  by (auto simp: system_init_def broker_init_def broker_New_def Let_def system_ok_def addresses_ok_def
      registered_def subs_ok_def)

interpretation system_runs: invariant_system system_init system_step system_ok
  by unfold_locales (blast intro: system_ok_init system_ok_step)+

section \<open>A close that has begun finishes\<close>

text \<open>The steps of the goroutines inside \<open>enqueue\<close> or \<open>close\<close> of subscription \<open>a\<close>.\<close>

definition on_sub :: "addr \<Rightarrow> system \<Rightarrow> system \<Rightarrow> bool" where
  "on_sub a s s' \<longleftrightarrow>
     (\<exists>i t b ki c. i < length (sy_threads s) \<and> (enqueuing a (sy_threads s ! i) \<or> shutting a (sy_threads s ! i))
        \<and> iteration_order ki \<and> Some (t, b) \<in> set (thread_step ki c (sy_threads s ! i) (sy_broker s))
        \<and> s' = s\<lparr>sy_broker := b, sy_threads := (sy_threads s)[i := t]\<rparr>)"

abbreviation the_sub :: "addr \<Rightarrow> system \<Rightarrow> subscription" where
  "the_sub a s \<equiv> b_heap (sy_broker s) ! a"

abbreviation close_running :: "addr \<Rightarrow> system \<Rightarrow> bool" where
  "close_running a s \<equiv> a < length (b_heap (sy_broker s)) \<and> sub_once (the_sub a s) = OnceRunning"

fun weight :: "addr \<Rightarrow> thread \<Rightarrow> nat" where
  "weight a (Entered _ _ x _) = (if x = a then 4 else 0)"
| "weight a (Selecting _ _ x _) = (if x = a then 3 else 0)"
| "weight a (Leaving _ _ _ x _) = (if x = a then 1 else 0)"
| "weight a (Waiting _ x _) = (if x = a then 2 else 0)"
| "weight a (Emptying _ x _) = (if x = a then 1 else 0)"
| "weight a _ = 0"

definition work :: "addr \<Rightarrow> system \<Rightarrow> nat" where
  "work a s = sum_list (map (weight a) (sy_threads s)) + length (queue (the_sub a s))"

lemma on_sub_step: "on_sub a s s' \<Longrightarrow> \<not> sy_panic s \<Longrightarrow> system_step s s'"
  unfolding on_sub_def by (blast intro: run)

lemma work_update:
  assumes "i < length (sy_threads s)"
    and "weight a t + length (queue (b_heap b ! a)) < weight a (sy_threads s ! i) + length (queue (the_sub a s))"
  shows "work a (s\<lparr>sy_broker := b, sy_threads := (sy_threads s)[i := t]\<rparr>) < work a s"
  using assms elem_le_sum_list [of i "map (weight a) (sy_threads s)"]
  by (simp add: work_def map_update sum_list_update)

lemma on_sub_decreases:
  assumes "system_ok s" "close_running a s" "on_sub a s s'"
  shows "work a s' < work a s"
proof -
  from assms(3) obtain i t b ki c where
    i: "i < length (sy_threads s)" "enqueuing a (sy_threads s ! i) \<or> shutting a (sy_threads s ! i)"
    and st: "Some (t, b) \<in> set (thread_step ki c (sy_threads s ! i) (sy_broker s))"
    and s': "s' = s\<lparr>sy_broker := b, sy_threads := (sy_threads s)[i := t]\<rparr>"
    unfolding on_sub_def by blast
  have a: "a < length (b_heap (sy_broker s))" using assms(2) by simp
  have ok: "sub_done (the_sub a s)" "\<not> chan_closed (sub_events (the_sub a s))"
    using subs_okD [of "sy_threads s" "b_heap (sy_broker s)" a] assms(1,2)
    by (auto simp: system_ok_def sub_ok_def)
  have "weight a t + length (queue (b_heap b ! a)) < weight a (sy_threads s ! i) + length (queue (the_sub a s))"
    using i(2) st ok a
    by (cases "sy_threads s ! i")
      (auto simp: thread_step_def select_cases Let_def chan_recv_def chan_close_def
        split: outcome.splits option.splits if_splits list.splits)
  then show ?thesis unfolding s' by (rule work_update [OF i(1)])
qed

lemma on_sub_enabled:
  assumes "system_ok s" "close_running a s"
  shows "\<exists>s'. on_sub a s s'"
proof -
  let ?ts = "sy_threads s" and ?s = "the_sub a s"
  have a: "a < length (b_heap (sy_broker s))" using assms(2) by simp
  have ok: "sub_ok (tally (enqueuing a) ?ts) (tally (shutting a) ?ts) (tally (emptying a) ?ts) ?s"
    using subs_okD a assms(1) by (simp add: system_ok_def)
  obtain i where i: "i < length ?ts" "enqueuing a (?ts ! i) \<or> (sub_wg ?s = 0 \<and> shutting a (?ts ! i))"
  proof (cases "sub_wg ?s = 0")
    case True
    have "0 < tally (shutting a) ?ts" using ok assms(2) by (simp add: sub_ok_def)
    with True that show ?thesis using tally_witness by blast
  next
    case False
    then have "0 < tally (enqueuing a) ?ts" using ok by (simp add: sub_ok_def)
    with that show ?thesis using tally_witness by blast
  qed
  have "thread_step id None (?ts ! i) (sy_broker s) \<noteq> []"
    using i(2) ok assms(2)
    by (cases "?ts ! i")
      (auto simp: thread_step_def sub_ok_def select_cases Let_def split: if_splits recv_result.splits)
  then obtain r where r: "r \<in> set (thread_step id None (?ts ! i) (sy_broker s))"
    by (meson ex_in_conv set_empty)
  obtain t b where "r = Some (t, b)" by (rule thread_step_ok [OF assms(1) i(1) r])
  with r i show ?thesis
    unfolding on_sub_def using iteration_order_id(1) by blast
qed

end
