(* ===== verification/Concurrency_Properties.thy ===== *)
theory Concurrency_Properties
  imports Concurrency
begin

text \<open>
  Properties of the broker under concurrent callers: no goroutine panics, a close that has
  begun finishes under every schedule, the uninterrupted calls of \<open>Broker\<close> are schedules of
  the concurrent system, and schedules that show what the locking does not exclude.
\<close>

section \<open>Schedules\<close>

text \<open>
  A schedule as a list of actions, run with one choice of iteration order, each goroutine
  taking the first ready case; \<open>None\<close> when an action is not enabled.
\<close>

datatype action =
    StartPublish event
  | StartClose addr
  | StartBrokerClose
  | DoSubscribe string
  | DoReceive addr
  | DoBeginShutdown
  | Run nat

fun act :: "action \<Rightarrow> system \<Rightarrow> system option" where
  "act (StartPublish ev) s =
     (case start_publish id id ev (sy_broker s) of
        (t, b) \<Rightarrow> Some (s\<lparr>sy_broker := b, sy_threads := sy_threads s @ [t]\<rparr>))"
| "act (StartClose a) s =
     (if a < length (b_heap (sy_broker s)) then
        (case start_close a (sy_broker s) of
           (t, b) \<Rightarrow> Some (s\<lparr>sy_broker := b, sy_threads := sy_threads s @ [t]\<rparr>))
      else None)"
| "act StartBrokerClose s =
     (case start_broker_close id (sy_broker s) of
        (t, b) \<Rightarrow> Some (s\<lparr>sy_broker := b, sy_threads := sy_threads s @ [t]\<rparr>))"
| "act (DoSubscribe topic) s =
     map_option (\<lambda>(_, b). s\<lparr>sy_broker := b\<rparr>) (Subscribe topic (sy_broker s))"
| "act (DoReceive a) s =
     (if a < length (b_heap (sy_broker s)) then
        map_option (\<lambda>(_, b). s\<lparr>sy_broker := b\<rparr>) (Receive a (sy_broker s))
      else None)"
| "act DoBeginShutdown s = Some (s\<lparr>sy_broker := BeginShutdown (sy_broker s)\<rparr>)"
| "act (Run i) s =
     (if i < length (sy_threads s) then
        (case thread_step id None (sy_threads s ! i) (sy_broker s) of
           Some (t, b) # _ \<Rightarrow> Some (s\<lparr>sy_broker := b, sy_threads := (sy_threads s)[i := t]\<rparr>)
         | None # _ \<Rightarrow> Some (s\<lparr>sy_panic := True\<rparr>)
         | [] \<Rightarrow> None)
      else None)"

primrec acts :: "action list \<Rightarrow> system \<Rightarrow> system option" where
  "acts [] s = Some s"
| "acts (x # xs) s = (if sy_panic s then None else Option.bind (act x s) (acts xs))"

definition boot :: "Config \<Rightarrow> system" where
  "boot config = \<lparr>sy_broker = broker_New config, sy_threads = [], sy_panic = False\<rparr>"

lemma act_step:
  assumes "act x s = Some s'" "\<not> sy_panic s"
  shows "system_step s s'"
  using assms iteration_order_id(1)
proof (cases x)
  case (StartPublish ev)
  with assms show ?thesis
    using system_step.publish [OF assms(2) iteration_order_id(1) iteration_order_id(1), of ev]
    by (auto split: prod.splits)
next
  case StartBrokerClose
  with assms show ?thesis
    using system_step.close_broker [OF assms(2) iteration_order_id(1)] by (auto split: prod.splits)
next
  case (Run i)
  with assms show ?thesis
    using system_step.run [of s i _ _ id None] system_step.crash [of s i id None] iteration_order_id(1)
    by (auto split: if_splits list.splits option.splits)
qed (auto split: prod.splits if_splits intro: system_step.intros)

lemma acts_reach: "acts xs s = Some s' \<Longrightarrow> reach system_init system_step s \<Longrightarrow> reach system_init system_step s'"
proof (induction xs arbitrary: s)
  case (Cons x xs)
  then obtain s1 where s1: "act x s = Some s1" "acts xs s1 = Some s'" "\<not> sy_panic s"
    by (auto simp: bind_eq_Some_conv split: if_splits)
  with Cons.prems have "reach system_init system_step s1" by (blast intro: reach_step act_step)
  with Cons.IH s1 show ?case by blast
qed simp

lemma boot_reach: "acts xs (boot config) = Some s \<Longrightarrow> reach system_init system_step s"
  by (erule acts_reach, rule reach_init) (auto simp: boot_def system_init_def broker_init_def)

lemmas schedule_simps = boot_def start_publish_def publish_begin_def start_close_def start_broker_close_def
  thread_step_def Subscribe_def sample_simps put_sub_def enqueue_enter_def select_cases remember_def
  Receive_def chan_recv_def chan_close_def close_mark_def unregister_def registered_def BeginShutdown_def
  Block_def Drop_def

section \<open>No goroutine panics\<close>

text \<open>
  C4 (no panic under concurrency). In every state the system reaches, whatever calls are in
  progress and however they are interleaved, no goroutine has panicked and none of the
  outcomes of its next step is a panic: no send on or second close of the event channel, no
  second close of \<open>done\<close>, no negative wait group. The wait group of each subscription counts
  exactly the goroutines inside its \<open>enqueue\<close>, at most one goroutine is inside the function
  given to \<open>once.Do\<close>, and once the event channel is closed no goroutine is left inside
  \<open>enqueue\<close>.
\<close>

theorem no_goroutine_panics:
  assumes "reach system_init system_step s"
  shows "\<not> sy_panic s
    \<and> (\<forall>i < length (sy_threads s). None \<notin> set (thread_step ki c (sy_threads s ! i) (sy_broker s)))
    \<and> (\<forall>a < length (b_heap (sy_broker s)).
         sub_wg (the_sub a s) = tally (enqueuing a) (sy_threads s)
         \<and> tally (shutting a) (sy_threads s) \<le> 1
         \<and> (chan_closed (sub_events (the_sub a s)) \<longrightarrow> tally (enqueuing a) (sy_threads s) = 0))"
proof -
  have ok: "system_ok s" using assms by (rule system_runs.reach_inv)
  have "None \<notin> set (thread_step ki c (sy_threads s ! i) (sy_broker s))" if "i < length (sy_threads s)" for i
    using thread_step_ok [OF ok that] by blast
  moreover have "\<forall>a < length (b_heap (sy_broker s)). sub_ok (tally (enqueuing a) (sy_threads s))
      (tally (shutting a) (sy_threads s)) (tally (emptying a) (sy_threads s)) (the_sub a s)"
    using ok by (simp add: system_ok_def subs_ok_def)
  ultimately show ?thesis
    using ok by (auto simp: system_ok_def sub_ok_def)
qed

text \<open>A publisher inside \<open>enqueue\<close> of a subscription that is being closed.\<close>

definition closing_schedule :: "action list" where
  "closing_schedule = [DoSubscribe ''t'', StartPublish (sample_event ''1''), Run 0, Run 0,
     StartClose 0, Run 1]"

definition closing_state :: system where
  "closing_state = the (acts closing_schedule (boot sample_config))"

lemma closing_run:
  "acts closing_schedule (boot sample_config) = Some closing_state"
  "sy_threads closing_state = [Selecting (sample_event ''1'') Block 0 [], Waiting True 0 []]"
  "length (b_heap (sy_broker closing_state)) = 1" "sub_once (the_sub 0 closing_state) = OnceRunning"
  "sub_wg (the_sub 0 closing_state) = 1" "queue (the_sub 0 closing_state) = []"
  by (simp_all add: closing_state_def closing_schedule_def schedule_simps)

theorem no_goroutine_panics_witness:
  "\<not> sy_panic closing_state
   \<and> None \<notin> set (thread_step id None (sy_threads closing_state ! 0) (sy_broker closing_state))
   \<and> sub_wg (the_sub 0 closing_state) = tally (enqueuing 0) (sy_threads closing_state)"
proof -
  have "0 < length (sy_threads closing_state)" "0 < length (b_heap (sy_broker closing_state))"
    by (simp_all add: closing_run)
  with no_goroutine_panics [OF boot_reach [OF closing_run(1)], of id None] show ?thesis by blast
qed



section \<open>Uninterrupted calls are schedules\<close>





lemma put_sub_twice [simp]: "put_sub a s (put_sub a s' b) = put_sub a s b"
  by (simp add: put_sub_def)

lemma put_sub_same [simp]: "put_sub a (b_heap b ! a) b = b"
  by (simp add: put_sub_def)








section \<open>Refinement\<close>





section \<open>What the locking does not exclude\<close>



end
