(* ===== verification/Protocol.thy ===== *)
theory Protocol
  imports Go_Runtime
begin

text \<open>
  The wire format of \<open>protocol/frame.go\<close>: a five byte header (big-endian payload length,
  message type) and the payload. \<open>read_frame\<close>, \<open>write_frame\<close> and \<open>write_full\<close> are
  \<open>ReadFrame\<close>, \<open>WriteFrame\<close> and \<open>writeFull\<close>; \<open>read_frames\<close> is the receive loop both ends
  of a connection run, \<open>ReadFrame\<close> until it returns an error.
\<close>

section \<open>Definitions\<close>

definition HeaderSize :: nat where
  "HeaderSize = 5"

definition MaxPayloadSize :: nat where
  "MaxPayloadSize = push_bit 20 16"

definition TypeConnect :: byte where "TypeConnect = 1"
definition TypeSubscribe :: byte where "TypeSubscribe = 2"
definition TypePublish :: byte where "TypePublish = 3"
definition TypeEvent :: byte where "TypeEvent = 4"
definition TypeAck :: byte where "TypeAck = 5"
definition TypeUnsubscribe :: byte where "TypeUnsubscribe = 6"
definition TypePing :: byte where "TypePing = 7"
definition TypePong :: byte where "TypePong = 8"
definition TypeError :: byte where "TypeError = 9"
definition TypeShutdown :: byte where "TypeShutdown = 10"

record frame =
  frame_type :: byte
  frame_payload :: "byte list"

definition read_frame :: "reader \<Rightarrow> (go_error + frame) \<times> reader" where
  "read_frame r =
     (case read_full HeaderSize r of
        (Inl e, r1) \<Rightarrow> (Inl e, r1)
      | (Inr header, r1) \<Rightarrow>
          (let payloadSize = get_uint32 (take 4 header) in
           if MaxPayloadSize < unat payloadSize
           then (Inl (ErrFrameTooLargeBytes (unat payloadSize)), r1)
           else if header ! 4 = 0 then (Inl ErrInvalidFrame, r1)
           else
             (case read_full (unat payloadSize) r1 of
                (Inl e, r2) \<Rightarrow> (Inl e, r2)
              | (Inr payload, r2) \<Rightarrow>
                  (Inr \<lparr>frame_type = header ! 4, frame_payload = payload\<rparr>, r2))))"

function write_full :: "byte list \<Rightarrow> writer \<Rightarrow> go_error option \<times> writer" where
  "write_full data w =
     (if data = [] then (None, w)
      else
        (case writer_write data w of
           ((n, err), w') \<Rightarrow>
             (case err of
                Some e \<Rightarrow> (Some e, w')
              | None \<Rightarrow> if n = 0 then (Some IoShortWrite, w') else write_full (drop n data) w')))"
  by pat_completeness auto
termination
  by (relation "measure (\<lambda>(data, w). length data)") auto

declare write_full.simps [simp del]

definition write_frame :: "frame \<Rightarrow> writer \<Rightarrow> go_error option \<times> writer" where
  "write_frame f w =
     (if frame_type f = 0 then (Some ErrInvalidFrame, w)
      else if MaxPayloadSize < length (frame_payload f)
      then (Some (ErrFrameTooLargeBytes (length (frame_payload f))), w)
      else
        (let header = put_uint32 (word_of_nat (length (frame_payload f))) @ [frame_type f] in
         case write_full header w of
           (Some e, w') \<Rightarrow> (Some e, w')
         | (None, w') \<Rightarrow> write_full (frame_payload f) w'))"

text \<open>Sending several frames in a row, stopping at the first error.\<close>

primrec write_frames :: "frame list \<Rightarrow> writer \<Rightarrow> go_error option \<times> writer" where
  "write_frames [] w = (None, w)"
| "write_frames (f # fs) w =
     (case write_frame f w of
        (Some e, w') \<Rightarrow> (Some e, w')
      | (None, w') \<Rightarrow> write_frames fs w')"

text \<open>The format itself: the bytes of a frame, and which frames it can carry.\<close>

definition frame_bytes :: "frame \<Rightarrow> byte list" where
  "frame_bytes f = put_uint32 (word_of_nat (length (frame_payload f))) @ [frame_type f] @ frame_payload f"

definition valid_frame :: "frame \<Rightarrow> bool" where
  "valid_frame f \<longleftrightarrow> frame_type f \<noteq> 0 \<and> length (frame_payload f) \<le> MaxPayloadSize"

text \<open>
  A reference parser on the whole pending input and the error the stream ends with: what
  \<open>read_frame\<close> returns, and what it leaves unread, on every input.
\<close>

definition parse_frame :: "byte list \<Rightarrow> go_error \<Rightarrow> (go_error + frame) \<times> byte list" where
  "parse_frame bs stop =
     (let size = unat (get_uint32 (take 4 bs)); body = drop HeaderSize bs in
      if length bs < HeaderSize
      then (Inl (if bs \<noteq> [] \<and> stop = IoEOF then IoUnexpectedEOF else stop), [])
      else if MaxPayloadSize < size then (Inl (ErrFrameTooLargeBytes size), body)
      else if bs ! 4 = 0 then (Inl ErrInvalidFrame, body)
      else if length body < size
      then (Inl (if body \<noteq> [] \<and> stop = IoEOF then IoUnexpectedEOF else stop), [])
      else (Inr \<lparr>frame_type = bs ! 4, frame_payload = take size body\<rparr>, drop size body))"

section \<open>Reading\<close>

lemma MaxPayloadSize_eq: "MaxPayloadSize = 16777216"
  by (simp add: MaxPayloadSize_def)

lemma unat_payload_length:
  "length (frame_payload f) \<le> MaxPayloadSize \<Longrightarrow>
     unat (word_of_nat (length (frame_payload f)) :: u32) = length (frame_payload f)"
  by (simp add: unat_of_nat MaxPayloadSize_eq)

lemma length_frame_bytes: "length (frame_bytes f) = HeaderSize + length (frame_payload f)"
  by (simp add: frame_bytes_def HeaderSize_def)

lemma frame_bytes_inj: "frame_bytes f = frame_bytes g \<Longrightarrow> f = g"
  by (simp add: frame_bytes_def)

lemma read_frame_bytes [io_simps]:
  assumes "valid_frame f" "rd_pending r = frame_bytes f @ rest"
  shows "\<exists>r'. read_frame r = (Inr f, r') \<and> rd_pending r' = rest \<and> rd_end r' = rd_end r"
proof -
  let ?h = "put_uint32 (word_of_nat (length (frame_payload f))) @ [frame_type f]"
  have len: "length ?h = HeaderSize" by (simp add: HeaderSize_def)
  obtain r1 where r1: "read_full HeaderSize r = (Inr ?h, r1)"
      "rd_pending r1 = frame_payload f @ rest" "rd_end r1 = rd_end r"
    using rs.readn_append [of r ?h "frame_payload f @ rest"] assms(2) len
    by (auto simp: frame_bytes_def)
  obtain r2 where "read_full (length (frame_payload f)) r1 = (Inr (frame_payload f), r2)"
      "rd_pending r2 = rest" "rd_end r2 = rd_end r"
    using rs.readn_append [OF r1(2)] r1(3) by auto
  with r1 assms(1) show ?thesis
    by (auto simp: read_frame_def valid_frame_def unat_payload_length nth_append)
qed

lemma read_frame_Inr:
  assumes "read_frame r = (Inr f, r')"
  shows "valid_frame f \<and> rd_pending r = frame_bytes f @ rd_pending r' \<and> rd_end r' = rd_end r"
proof -
  from assms obtain header r1 where h: "read_full HeaderSize r = (Inr header, r1)"
    by (auto simp: read_frame_def split: prod.splits sum.splits)
  let ?n = "get_uint32 (take 4 header)"
  from h assms have p: "read_full (unat ?n) r1 = (Inr (frame_payload f), r')"
      and t: "frame_type f = header ! 4" "header ! 4 \<noteq> 0" and le: "unat ?n \<le> MaxPayloadSize"
    by (auto simp: read_frame_def Let_def split: prod.splits sum.splits if_splits)
  from rs.readn_Inr [OF h] have hl: "length header = 5" and pr: "rd_pending r = header @ rd_pending r1"
      and e1: "rd_end r1 = rd_end r"
    by (auto simp: HeaderSize_def)
  from rs.readn_Inr [OF p] have pl: "length (frame_payload f) = unat ?n"
      and pr1: "rd_pending r1 = frame_payload f @ rd_pending r'" and e2: "rd_end r' = rd_end r1"
    by auto
  have "take 4 header @ [header ! 4] = take (Suc 4) header"
    by (rule take_Suc_conv_app_nth [symmetric]) (simp add: hl)
  then have "take 4 header @ [header ! 4] = header"
    by (simp add: hl)
  moreover have "put_uint32 ?n = take 4 header"
    by (rule put_get_uint32) (simp add: hl)
  ultimately have "put_uint32 (word_of_nat (length (frame_payload f))) @ [frame_type f] = header"
    by (simp add: pl t(1))
  with pr pr1 e1 e2 t le pl show ?thesis
    by (auto simp: frame_bytes_def valid_frame_def)
qed

function read_frames :: "reader \<Rightarrow> frame list \<times> go_error" where
  "read_frames r =
     (case read_frame r of
        (Inl e, _) \<Rightarrow> ([], e)
      | (Inr f, r') \<Rightarrow> (case read_frames r' of (fs, e) \<Rightarrow> (f # fs, e)))"
  by pat_completeness auto
termination
  by (relation "measure (\<lambda>r. length (rd_pending r))")
    (auto dest!: read_frame_Inr [OF sym] simp: length_frame_bytes HeaderSize_def)

declare read_frames.simps [simp del]

lemma read_frame_parse:
  "(fst (read_frame r), rd_pending (snd (read_frame r))) = parse_frame (rd_pending r) (rd_end r)"
proof (cases rule: rs.readn_cases [of HeaderSize r])
  case (short e r')
  then show ?thesis
    using rs.readn_short [of r HeaderSize] by (auto simp: read_frame_def parse_frame_def)
next
  case (enough r1)
  let ?bs = "rd_pending r"
  let ?size = "unat (get_uint32 (take 4 ?bs))"
  have h: "take 4 (take HeaderSize ?bs) = take 4 ?bs" "take HeaderSize ?bs ! 4 = ?bs ! 4"
    by (simp_all add: HeaderSize_def)
  show ?thesis
  proof (cases "?size \<le> length (rd_pending r1)")
    case True
    with enough h show ?thesis
      using rs.readn_enough [of ?size r1] by (auto simp: read_frame_def parse_frame_def Let_def)
  next
    case False
    with enough h show ?thesis
      using rs.readn_short [of r1 ?size] by (auto simp: read_frame_def parse_frame_def Let_def)
  qed
qed

lemma valid_frame_prefix_free:
  assumes "valid_frame f" "valid_frame g" "frame_bytes f @ xs = frame_bytes g @ ys"
  shows "f = g \<and> xs = ys"
proof -
  let ?r = "bytes_reader (frame_bytes f @ xs)"
  obtain r1 where "read_frame ?r = (Inr f, r1)" "rd_pending r1 = xs"
    using read_frame_bytes [OF assms(1), of ?r xs] by force
  moreover obtain r2 where "read_frame ?r = (Inr g, r2)" "rd_pending r2 = ys"
    using read_frame_bytes [OF assms(2), of ?r ys] assms(3) by force
  ultimately show ?thesis by simp
qed

section \<open>Writing\<close>

lemma write_full_healthy:
  "healthy w \<Longrightarrow> \<exists>w'. write_full data w = (None, w') \<and> wr_bytes w' = wr_bytes w @ data \<and> healthy w'"
proof (induction data w rule: write_full.induct)
  case (1 data w)
  show ?case
  proof (cases "data = []")
    case True
    with 1 show ?thesis by (simp add: write_full.simps)
  next
    case False
    then obtain n w1 where w1: "writer_write data w = ((n, None), w1)" "0 < n" "healthy w1"
      using writer_write_healthy "1.prems" by blast
    with False "1.IH" [of "(n, None)" w1 n None] obtain w2 where
      w2: "write_full (drop n data) w1 = (None, w2)" "wr_bytes w2 = wr_bytes w1 @ drop n data" "healthy w2"
      by auto
    with w1 False writer_write_bytes [OF w1(1)] show ?thesis
      by (subst write_full.simps) auto
  qed
qed

lemma write_full_prefix:
  "\<exists>p. prefix p data \<and> wr_bytes (snd (write_full data w)) = wr_bytes w @ p
     \<and> (fst (write_full data w) = None \<longrightarrow> p = data)"
proof (induction data w rule: write_full.induct)
  case (1 data w)
  show ?case
  proof (cases "data = []")
    case True
    then show ?thesis by (simp add: write_full.simps)
  next
    case False
    obtain n err w1 where w1: "writer_write data w = ((n, err), w1)" by (metis prod.exhaust)
    note wb = writer_write_bytes [OF w1]
    show ?thesis
    proof (cases "err = None \<and> n \<noteq> 0")
      case True
      with False w1 "1.IH" [of "(n, err)" w1 n err] obtain q where
        q: "prefix q (drop n data)" "wr_bytes (snd (write_full (drop n data) w1)) = wr_bytes w1 @ q"
           "fst (write_full (drop n data) w1) = None \<longrightarrow> q = drop n data"
        by auto
      have "prefix (take n data @ q) data"
        using q(1) same_prefix_prefix [of "take n data" q "drop n data"] by simp
      with q wb True False w1 show ?thesis
        by (intro exI [of _ "take n data @ q"]) (simp add: write_full.simps [of data])
    next
      case nothing: False
      with False w1 wb show ?thesis
        by (intro exI [of _ "take n data"])
          (auto simp: write_full.simps [of data] take_is_prefix split: option.splits)
    qed
  qed
qed

lemma write_frame_healthy:
  assumes "valid_frame f" "healthy w"
  shows "\<exists>w'. write_frame f w = (None, w') \<and> wr_bytes w' = wr_bytes w @ frame_bytes f \<and> healthy w'"
proof -
  let ?h = "put_uint32 (word_of_nat (length (frame_payload f))) @ [frame_type f]"
  obtain w1 where w1: "write_full ?h w = (None, w1)" "wr_bytes w1 = wr_bytes w @ ?h" "healthy w1"
    using write_full_healthy [OF assms(2)] by blast
  obtain w2 where "write_full (frame_payload f) w1 = (None, w2)"
      "wr_bytes w2 = wr_bytes w1 @ frame_payload f" "healthy w2"
    using write_full_healthy [OF w1(3)] by blast
  with w1 assms(1) show ?thesis
    by (auto simp: write_frame_def valid_frame_def frame_bytes_def)
qed

lemma write_frames_healthy:
  "list_all valid_frame fs \<Longrightarrow> healthy w \<Longrightarrow>
     \<exists>w'. write_frames fs w = (None, w') \<and> wr_bytes w' = wr_bytes w @ concat (map frame_bytes fs) \<and> healthy w'"
proof (induction fs arbitrary: w)
  case Nil
  then show ?case by simp
next
  case (Cons f fs)
  then obtain w1 where w1: "write_frame f w = (None, w1)" "wr_bytes w1 = wr_bytes w @ frame_bytes f" "healthy w1"
    using write_frame_healthy [of f w] by auto
  with Cons.IH [of w1] Cons.prems show ?case by auto
qed

lemma write_frame_prefix:
  "\<exists>p. prefix p (frame_bytes f) \<and> wr_bytes (snd (write_frame f w)) = wr_bytes w @ p
     \<and> (fst (write_frame f w) = None \<longrightarrow> p = frame_bytes f)"
proof (cases "valid_frame f")
  case False
  then show ?thesis
    by (intro exI [of _ "[]"]) (auto simp: write_frame_def valid_frame_def)
next
  case True
  let ?h = "put_uint32 (word_of_nat (length (frame_payload f))) @ [frame_type f]"
  obtain err w1 where w1: "write_full ?h w = (err, w1)" by (metis prod.exhaust)
  then obtain p where p: "prefix p ?h" "wr_bytes w1 = wr_bytes w @ p" "err = None \<longrightarrow> p = ?h"
    using write_full_prefix [of ?h w] by auto
  obtain q where q: "prefix q (frame_payload f)"
      "wr_bytes (snd (write_full (frame_payload f) w1)) = wr_bytes w1 @ q"
      "fst (write_full (frame_payload f) w1) = None \<longrightarrow> q = frame_payload f"
    using write_full_prefix by blast
  have fb: "frame_bytes f = ?h @ frame_payload f" by (simp add: frame_bytes_def)
  from True w1 have wf: "write_frame f w =
      (case err of Some e \<Rightarrow> (Some e, w1) | None \<Rightarrow> write_full (frame_payload f) w1)"
    by (auto simp: write_frame_def valid_frame_def split: option.splits)
  show ?thesis
  proof (cases err)
    case None
    with p q wf fb show ?thesis by (intro exI [of _ "?h @ q"]) auto
  next
    case (Some e)
    with p wf fb show ?thesis by (intro exI [of _ p]) (auto intro: prefix_order.trans)
  qed
qed

lemma write_frames_prefix:
  "\<exists>p. prefix p (concat (map frame_bytes fs)) \<and> wr_bytes (snd (write_frames fs w)) = wr_bytes w @ p"
proof (induction fs arbitrary: w)
  case Nil
  then show ?case by simp
next
  case (Cons f fs)
  obtain err w1 where w1: "write_frame f w = (err, w1)" by (metis prod.exhaust)
  then obtain p where p: "prefix p (frame_bytes f)" "wr_bytes w1 = wr_bytes w @ p"
      "err = None \<longrightarrow> p = frame_bytes f"
    using write_frame_prefix [of f w] by auto
  obtain q where "prefix q (concat (map frame_bytes fs))"
      "wr_bytes (snd (write_frames fs w1)) = wr_bytes w1 @ q"
    using Cons.IH by blast
  with w1 p show ?case by (cases err) auto
qed

section \<open>Streams of frames\<close>

lemma read_frames_pending:
  assumes "list_all valid_frame fs" "rd_pending r = concat (map frame_bytes fs)" "rd_end r = IoEOF"
  shows "read_frames r = (fs, IoEOF)"
  using assms
proof (induction fs arbitrary: r)
  case Nil
  then have "fst (read_frame r) = Inl IoEOF"
    using read_frame_parse [of r] by (auto simp: parse_frame_def HeaderSize_def)
  then show ?case by (subst read_frames.simps) (auto split: prod.splits sum.splits)
next
  case (Cons f fs)
  then obtain r' where "read_frame r = (Inr f, r')" "rd_pending r' = concat (map frame_bytes fs)"
      "rd_end r' = IoEOF"
    using read_frame_bytes [of f r "concat (map frame_bytes fs)"] by auto
  with Cons show ?case by (subst read_frames.simps) auto
qed

lemma read_frames_cut:
  assumes "list_all valid_frame fs" "prefix (rd_pending r) (concat (map frame_bytes fs))"
  shows "prefix (fst (read_frames r)) fs"
  using assms
proof (induction fs arbitrary: r)
  case Nil
  then have "rd_pending r = []" by simp
  then have "\<exists>e. fst (read_frame r) = Inl e"
    using read_frame_parse [of r] by (auto simp: parse_frame_def HeaderSize_def)
  then show ?case by (subst read_frames.simps) (auto split: prod.splits sum.splits)
next
  case (Cons f fs)
  show ?case
  proof (cases "read_frame r")
    case (Pair res r')
    show ?thesis
    proof (cases res)
      case (Inl e)
      with Pair show ?thesis by (subst read_frames.simps) simp
    next
      case (Inr g)
      with Pair read_frame_Inr [of r g r'] have g: "valid_frame g"
          "rd_pending r = frame_bytes g @ rd_pending r'" by auto
      from Cons.prems obtain z where "frame_bytes f @ concat (map frame_bytes fs) = rd_pending r @ z"
        by (auto simp: prefix_def)
      with g Cons.prems(1) have "f = g" and z: "concat (map frame_bytes fs) = rd_pending r' @ z"
        using valid_frame_prefix_free [of f g] by auto
      then have "prefix (fst (read_frames r')) fs"
        using Cons by (auto simp: prefix_def)
      with Pair Inr \<open>f = g\<close> show ?thesis
        by (subst read_frames.simps) (auto split: prod.splits)
    qed
  qed
qed

section \<open>Properties\<close>

abbreviation sample_frames :: "frame list" where
  "sample_frames \<equiv> [\<lparr>frame_type = 3, frame_payload = [1, 2]\<rparr>, \<lparr>frame_type = 7, frame_payload = []\<rparr>]"

abbreviation slow_writer :: writer where
  "slow_writer \<equiv> \<lparr>wr_bytes = [], wr_script = [Accept 2, Accept 1]\<rparr>"

text \<open>
  C15 (framing round trip). Frames written to a connection that takes every byte, in
  however small pieces, are read back as the same frames in the same order, in whatever
  segmentation the bytes arrive, and the receive loop then ends with \<open>io.EOF\<close>.
\<close>

theorem frames_arrive_in_order:
  assumes "list_all valid_frame fs" "healthy w" "wr_bytes w = []"
    and "rd_pending r = wr_bytes (snd (write_frames fs w))" "rd_end r = IoEOF"
  shows "fst (write_frames fs w) = None \<and> read_frames r = (fs, IoEOF)"
  using write_frames_healthy [OF assms(1,2)] read_frames_pending [OF assms(1) _ assms(5)] assms(3,4)
  by auto

theorem frames_arrive_in_order_witness:
  "fst (write_frames sample_frames slow_writer) = None
     \<and> read_frames \<lparr>rd_chunks = [[0], [0, 0, 2, 3, 1], [], [2, 0, 0], [0, 0, 7]], rd_end = IoEOF\<rparr>
         = (sample_frames, IoEOF)"
  by (rule frames_arrive_in_order)
    (simp_all add: valid_frame_def MaxPayloadSize_eq healthy_def rd_pending_def write_frame_def
      write_full.simps writer_write_def put_uint32_def)

text \<open>
  C24 (no frame is invented by a broken connection). Whatever the writer does, failing in
  the middle of a header or of a payload included, and wherever the byte stream is cut,
  the frames the other side reads are an initial part of the frames that were sent.
\<close>

theorem cut_stream_yields_prefix:
  assumes "list_all valid_frame fs" "wr_bytes w = []"
    and "prefix (rd_pending r) (wr_bytes (snd (write_frames fs w)))"
  shows "prefix (fst (read_frames r)) fs"
proof -
  have "prefix (wr_bytes (snd (write_frames fs w))) (concat (map frame_bytes fs))"
    using write_frames_prefix [of fs w] assms(2) by auto
  with assms(3) have "prefix (rd_pending r) (concat (map frame_bytes fs))"
    by (rule prefix_order.trans)
  with assms(1) show ?thesis by (rule read_frames_cut)
qed

theorem cut_stream_yields_prefix_witness:
  "prefix (fst (read_frames \<lparr>rd_chunks = [[0, 0, 0, 2, 3, 1, 2], [0, 0]], rd_end = NetError ''reset''\<rparr>))
     sample_frames"
  by (rule cut_stream_yields_prefix
      [where w = "\<lparr>wr_bytes = [], wr_script = [Accept 5, Accept 2, Fail 3 (NetError ''reset'')]\<rparr>"])
    (simp_all add: valid_frame_def MaxPayloadSize_eq rd_pending_def write_frame_def
      write_full.simps writer_write_def put_uint32_def)

text \<open>
  \<open>ReadFrame\<close> on every input. The result of \<open>ReadFrame\<close> and the bytes it leaves are
  those of the reference parser on the pending bytes: they depend on the bytes and on the
  error that ends the stream, never on the segmentation, and every error branch (short
  header, oversized length, zero type, short payload) is the one the parser names.
\<close>

theorem read_frame_refines_parser:
  "(fst (read_frame r), rd_pending (snd (read_frame r))) = parse_frame (rd_pending r) (rd_end r)"
  by (rule read_frame_parse)

text \<open>
  \<open>ReadFrame\<close> accepts exactly the encodings. A frame is returned, with \<open>rest\<close>
  left to read, exactly when its type is not zero, its payload is within
  \<open>MaxPayloadSize\<close>, and the pending bytes are its encoding followed by \<open>rest\<close>.
\<close>

theorem read_frame_success_iff:
  "(\<exists>r'. read_frame r = (Inr f, r') \<and> rd_pending r' = rest) \<longleftrightarrow>
     valid_frame f \<and> rd_pending r = frame_bytes f @ rest"
  using read_frame_bytes [of f r rest] read_frame_Inr [of r f] by auto



end
