(* ===== verification/Messages.thy ===== *)
theory Messages
  imports Protocol Subscription
begin

text \<open>
  The message payloads of \<open>transport/tcp/messages.go\<close>: strings with a two byte length,
  byte blocks with a four byte length, and the messages made of them. The contract of a
  message codec (decoding inverts encoding, and only encodings decode) is the locale
  \<open>codec\<close>; it is interpreted on the encoders and decoders of all seven message kinds.
\<close>

section \<open>Definitions\<close>

record connectMessage = cm_ClientID :: string
record topicMessage = tm_Topic :: string
record publishMessage =
  pm_ID :: string
  pm_IdempotencyKey :: string
  pm_Topic :: string
  pm_Key :: string
  pm_Payload :: "byte list"
record errorMessage = em_Error :: string
record shutdownMessage = sm_Redirect :: string
record ackMessage =
  am_ID :: string
  am_Status :: byte
  am_Error :: string

definition ackPublished :: byte where "ackPublished = 1"
definition ackDuplicate :: byte where "ackDuplicate = 2"
definition ackRejected :: byte where "ackRejected = 3"
definition ackDelivered :: byte where "ackDelivered = 4"
definition ackRedeliver :: byte where "ackRedeliver = 5"

subsection \<open>Fields\<close>

definition maxUint16 :: nat where
  "maxUint16 = unat (not 0 :: u16)"

definition writeString :: "string \<Rightarrow> writer \<Rightarrow> go_error option \<times> writer" where
  "writeString value w =
     (if maxUint16 < length value then (Some ErrInvalidPayload, w)
      else
        (case writer_write (put_uint16 (word_of_nat (length value))) w of
           ((_, Some e), w1) \<Rightarrow> (Some e, w1)
         | ((_, None), w1) \<Rightarrow>
             (case writer_write (bytes_of_string value) w1 of ((_, err), w2) \<Rightarrow> (err, w2))))"

definition readString :: "reader \<Rightarrow> (go_error + string) \<times> reader" where
  "readString r =
     (case read_full 2 r of
        (Inl e, r1) \<Rightarrow> (Inl e, r1)
      | (Inr len, r1) \<Rightarrow>
          (case read_full (unat (get_uint16 len)) r1 of
             (Inl e, r2) \<Rightarrow> (Inl e, r2)
           | (Inr data, r2) \<Rightarrow> (Inr (string_of_bytes data), r2)))"

definition writeBytes :: "byte list \<Rightarrow> writer \<Rightarrow> go_error option \<times> writer" where
  "writeBytes data w =
     (if MaxPayloadSize < length data then (Some ErrFrameTooLarge, w)
      else
        (case writer_write (put_uint32 (word_of_nat (length data))) w of
           ((_, Some e), w1) \<Rightarrow> (Some e, w1)
         | ((_, None), w1) \<Rightarrow> (case writer_write data w1 of ((_, err), w2) \<Rightarrow> (err, w2))))"

definition readBytes :: "reader \<Rightarrow> (go_error + byte list) \<times> reader" where
  "readBytes r =
     (case read_full 4 r of
        (Inl e, r1) \<Rightarrow> (Inl e, r1)
      | (Inr len, r1) \<Rightarrow>
          (let size = unat (get_uint32 len) in
           if MaxPayloadSize < size then (Inl ErrFrameTooLarge, r1)
           else
             (case read_full size r1 of
                (Inl e, r2) \<Rightarrow> (Inl e, r2)
              | (Inr data, r2) \<Rightarrow> (Inr data, r2))))"

definition writeByte :: "byte \<Rightarrow> writer \<Rightarrow> go_error option \<times> writer" where
  "writeByte b w = (case writer_write [b] w of ((_, err), w1) \<Rightarrow> (err, w1))"

subsection \<open>Messages\<close>

definition encodeConnect :: "connectMessage \<Rightarrow> go_error + byte list" where
  "encodeConnect m =
     (case writeString (cm_ClientID m) empty_buffer of
        (Some e, _) \<Rightarrow> Inl e
      | (None, b) \<Rightarrow> Inr (wr_bytes b))"

definition decodeConnect :: "byte list \<Rightarrow> go_error + connectMessage" where
  "decodeConnect payload =
     (case readString (bytes_reader payload) of
        (Inl _, _) \<Rightarrow> Inl ErrInvalidPayload
      | (Inr clientID, r) \<Rightarrow>
          if reader_len r \<noteq> 0 then Inl ErrInvalidPayload else Inr \<lparr>cm_ClientID = clientID\<rparr>)"

definition encodeTopic :: "topicMessage \<Rightarrow> go_error + byte list" where
  "encodeTopic m =
     (case writeString (tm_Topic m) empty_buffer of
        (Some e, _) \<Rightarrow> Inl e
      | (None, b) \<Rightarrow> Inr (wr_bytes b))"

definition decodeTopic :: "byte list \<Rightarrow> go_error + topicMessage" where
  "decodeTopic payload =
     (case readString (bytes_reader payload) of
        (Inl _, _) \<Rightarrow> Inl ErrInvalidPayload
      | (Inr topic, r) \<Rightarrow>
          if reader_len r \<noteq> 0 then Inl ErrInvalidPayload else Inr \<lparr>tm_Topic = topic\<rparr>)"

definition encodePublish :: "publishMessage \<Rightarrow> go_error + byte list" where
  "encodePublish m =
     (case writeString (pm_ID m) empty_buffer of
        (Some e, _) \<Rightarrow> Inl e
      | (None, b1) \<Rightarrow>
     (case writeString (pm_IdempotencyKey m) b1 of
        (Some e, _) \<Rightarrow> Inl e
      | (None, b2) \<Rightarrow>
     (case writeString (pm_Topic m) b2 of
        (Some e, _) \<Rightarrow> Inl e
      | (None, b3) \<Rightarrow>
     (case writeString (pm_Key m) b3 of
        (Some e, _) \<Rightarrow> Inl e
      | (None, b4) \<Rightarrow>
     (case writeBytes (pm_Payload m) b4 of
        (Some e, _) \<Rightarrow> Inl e
      | (None, b5) \<Rightarrow> Inr (wr_bytes b5))))))"

definition decodePublish :: "byte list \<Rightarrow> go_error + publishMessage" where
  "decodePublish payload =
     (case readString (bytes_reader payload) of
        (Inl _, _) \<Rightarrow> Inl ErrInvalidPayload
      | (Inr i, r1) \<Rightarrow>
     (case readString r1 of
        (Inl _, _) \<Rightarrow> Inl ErrInvalidPayload
      | (Inr ik, r2) \<Rightarrow>
     (case readString r2 of
        (Inl _, _) \<Rightarrow> Inl ErrInvalidPayload
      | (Inr topic, r3) \<Rightarrow>
     (case readString r3 of
        (Inl _, _) \<Rightarrow> Inl ErrInvalidPayload
      | (Inr key, r4) \<Rightarrow>
     (case readBytes r4 of
        (Inl _, _) \<Rightarrow> Inl ErrInvalidPayload
      | (Inr data, r5) \<Rightarrow>
          if reader_len r5 \<noteq> 0 then Inl ErrInvalidPayload
          else Inr \<lparr>pm_ID = i, pm_IdempotencyKey = ik, pm_Topic = topic, pm_Key = key,
                 pm_Payload = data\<rparr>)))))"

text \<open>The conversions between an event and its message, field by field.\<close>

definition message_of_event :: "event \<Rightarrow> publishMessage" where
  "message_of_event event =
     \<lparr>pm_ID = ev_ID event, pm_IdempotencyKey = ev_IdempotencyKey event, pm_Topic = ev_Topic event,
      pm_Key = ev_Key event, pm_Payload = ev_Payload event\<rparr>"

definition event_of_message :: "publishMessage \<Rightarrow> event" where
  "event_of_message m =
     \<lparr>ev_ID = pm_ID m, ev_IdempotencyKey = pm_IdempotencyKey m, ev_Topic = pm_Topic m,
      ev_Key = pm_Key m, ev_Payload = pm_Payload m\<rparr>"

definition encodeEvent :: "event \<Rightarrow> go_error + byte list" where
  "encodeEvent event = encodePublish (message_of_event event)"

definition decodeEvent :: "byte list \<Rightarrow> go_error + event" where
  "decodeEvent payload =
     (case decodePublish payload of Inl e \<Rightarrow> Inl e | Inr m \<Rightarrow> Inr (event_of_message m))"

definition encodeAck :: "ackMessage \<Rightarrow> go_error + byte list" where
  "encodeAck m =
     (case writeString (am_ID m) empty_buffer of
        (Some e, _) \<Rightarrow> Inl e
      | (None, b1) \<Rightarrow>
     (case writeByte (am_Status m) b1 of
        (Some e, _) \<Rightarrow> Inl e
      | (None, b2) \<Rightarrow>
     (case writeString (am_Error m) b2 of
        (Some e, _) \<Rightarrow> Inl e
      | (None, b3) \<Rightarrow> Inr (wr_bytes b3))))"

definition decodeAck :: "byte list \<Rightarrow> go_error + ackMessage" where
  "decodeAck payload =
     (case readString (bytes_reader payload) of
        (Inl _, _) \<Rightarrow> Inl ErrInvalidPayload
      | (Inr i, r1) \<Rightarrow>
     (case read_byte r1 of
        (Inl _, _) \<Rightarrow> Inl ErrInvalidPayload
      | (Inr status, r2) \<Rightarrow>
     (case readString r2 of
        (Inl _, _) \<Rightarrow> Inl ErrInvalidPayload
      | (Inr errorText, r3) \<Rightarrow>
          if reader_len r3 \<noteq> 0 then Inl ErrInvalidPayload
          else Inr \<lparr>am_ID = i, am_Status = status, am_Error = errorText\<rparr>)))"

definition encodeError :: "errorMessage \<Rightarrow> go_error + byte list" where
  "encodeError m = encodeTopic \<lparr>tm_Topic = em_Error m\<rparr>"

definition decodeError :: "byte list \<Rightarrow> go_error + errorMessage" where
  "decodeError payload =
     (case decodeTopic payload of Inl e \<Rightarrow> Inl e | Inr m \<Rightarrow> Inr \<lparr>em_Error = tm_Topic m\<rparr>)"

definition encodeShutdown :: "shutdownMessage \<Rightarrow> go_error + byte list" where
  "encodeShutdown m = encodeTopic \<lparr>tm_Topic = sm_Redirect m\<rparr>"

definition decodeShutdown :: "byte list \<Rightarrow> go_error + shutdownMessage" where
  "decodeShutdown payload =
     (case decodeTopic payload of Inl e \<Rightarrow> Inl e | Inr m \<Rightarrow> Inr \<lparr>sm_Redirect = tm_Topic m\<rparr>)"

text \<open>The layout of a field, and the messages whose fields fit their length prefixes.\<close>

definition string_field :: "string \<Rightarrow> byte list" where
  "string_field s = put_uint16 (word_of_nat (length s)) @ bytes_of_string s"

definition bytes_field :: "byte list \<Rightarrow> byte list" where
  "bytes_field d = put_uint32 (word_of_nat (length d)) @ d"

definition short_string :: "string \<Rightarrow> bool" where
  "short_string s \<longleftrightarrow> length s \<le> maxUint16"

definition publish_fits :: "publishMessage \<Rightarrow> bool" where
  "publish_fits m \<longleftrightarrow> short_string (pm_ID m) \<and> short_string (pm_IdempotencyKey m)
     \<and> short_string (pm_Topic m) \<and> short_string (pm_Key m) \<and> length (pm_Payload m) \<le> MaxPayloadSize"

definition ack_fits :: "ackMessage \<Rightarrow> bool" where
  "ack_fits m \<longleftrightarrow> short_string (am_ID m) \<and> short_string (am_Error m)"

section \<open>The contract of a codec\<close>

locale codec =
  fixes encode :: "'m \<Rightarrow> go_error + byte list"
    and decode :: "byte list \<Rightarrow> go_error + 'm"
    and fits :: "'m \<Rightarrow> bool"
  assumes encode_fits: "fits m \<Longrightarrow> \<exists>bs. encode m = Inr bs \<and> decode bs = Inr m"
    and encode_unfit: "\<not> fits m \<Longrightarrow> \<exists>e. encode m = Inl e"
    and decode_canonical: "decode bs = Inr m \<Longrightarrow> encode m = Inr bs"
begin

lemma encode_succeeds_iff: "(\<exists>bs. encode m = Inr bs) \<longleftrightarrow> fits m"
  by (cases "fits m") (use encode_fits [of m] encode_unfit [of m] in auto)

lemma decode_iff_encode: "decode bs = Inr m \<longleftrightarrow> encode m = Inr bs"
  using encode_fits [of m] encode_unfit [of m] decode_canonical [of bs m] by fastforce

lemma encode_injective: "encode m = Inr bs \<Longrightarrow> encode m' = Inr bs \<Longrightarrow> m = m'"
  by (simp flip: decode_iff_encode)

lemma decode_injective: "decode bs = Inr m \<Longrightarrow> decode bs' = Inr m \<Longrightarrow> bs = bs'"
  by (simp add: decode_iff_encode)

text \<open>A message put into a frame and sent is decoded at the other end.\<close>

lemma framed:
  assumes "encode m = Inr bs" "t \<noteq> 0" "length bs \<le> MaxPayloadSize"
    and "rd_pending r = frame_bytes \<lparr>frame_type = t, frame_payload = bs\<rparr> @ rest"
  shows "\<exists>f r'. read_frame r = (Inr f, r') \<and> frame_type f = t \<and> decode (frame_payload f) = Inr m
     \<and> rd_pending r' = rest"
proof -
  let ?f = "\<lparr>frame_type = t, frame_payload = bs\<rparr>"
  have "valid_frame ?f" using assms(2,3) by (simp add: valid_frame_def)
  then obtain r' where "read_frame r = (Inr ?f, r')" "rd_pending r' = rest"
    using read_frame_bytes [OF _ assms(4)] by blast
  moreover have "decode bs = Inr m" using assms(1) by (simp add: decode_iff_encode)
  ultimately show ?thesis by force
qed

end

text \<open>
  A codec for a message of the same shape under other field names, as \<open>encodeEvent\<close>,
  \<open>encodeError\<close> and \<open>encodeShutdown\<close> are made.
\<close>

lemma codec_renamed:
  assumes "codec encode decode fits" and gf: "\<And>n. g (f n) = n" and fg: "\<And>m. f (g m) = m"
  shows "codec (\<lambda>n. encode (f n)) (\<lambda>bs. case decode bs of Inl e \<Rightarrow> Inl e | Inr m \<Rightarrow> Inr (g m))
    (\<lambda>n. fits (f n))"
proof (unfold_locales, goal_cases)
  case (1 n)
  then obtain bs where "encode (f n) = Inr bs" "decode bs = Inr (f n)"
    using codec.encode_fits [OF assms(1)] by blast
  then show ?case by (auto simp: gf)
next
  case (2 n)
  then show ?case by (rule codec.encode_unfit [OF assms(1)])
next
  case (3 bs n)
  then show ?case
    using codec.decode_canonical [OF assms(1)] by (auto simp: fg split: sum.splits)
qed

section \<open>Fields round trip\<close>

lemma maxUint16_eq: "maxUint16 = 65535"
  by (simp add: maxUint16_def unsigned_minus_1_eq_mask mask_eq_exp_minus_1)

lemma writeString_buffer [codec_simps]:
  "wr_script w = [] \<Longrightarrow>
     writeString s w =
       (if short_string s then (None, w\<lparr>wr_bytes := wr_bytes w @ string_field s\<rparr>)
        else (Some ErrInvalidPayload, w))"
  by (simp add: writeString_def short_string_def string_field_def)

lemma writeBytes_buffer [codec_simps]:
  "wr_script w = [] \<Longrightarrow>
     writeBytes d w =
       (if length d \<le> MaxPayloadSize then (None, w\<lparr>wr_bytes := wr_bytes w @ bytes_field d\<rparr>)
        else (Some ErrFrameTooLarge, w))"
  by (simp add: writeBytes_def bytes_field_def)

lemma writeByte_buffer [codec_simps]:
  "wr_script w = [] \<Longrightarrow> writeByte b w = (None, w\<lparr>wr_bytes := wr_bytes w @ [b]\<rparr>)"
  by (simp add: writeByte_def)

lemma empty_buffer_simps [simp]: "wr_script empty_buffer = []" "wr_bytes empty_buffer = []"
  by (simp_all add: empty_buffer_def)

lemma unat_short_length: "short_string s \<Longrightarrow> unat (word_of_nat (length s) :: u16) = length s"
  by (simp add: short_string_def maxUint16_eq unat_of_nat)

lemma unat_bytes_length: "length d \<le> MaxPayloadSize \<Longrightarrow> unat (word_of_nat (length d) :: u32) = length d"
  by (simp add: MaxPayloadSize_eq unat_of_nat)

lemma readString_field:
  assumes "short_string s" "rd_pending r = string_field s @ rest"
  shows "\<exists>r'. readString r = (Inr s, r') \<and> rd_pending r' = rest"
proof -
  let ?l = "put_uint16 (word_of_nat (length s))"
  obtain r1 where r1: "read_full 2 r = (Inr ?l, r1)" "rd_pending r1 = bytes_of_string s @ rest"
    using rs.readn_append [of r ?l "bytes_of_string s @ rest"] assms(2) by (auto simp: string_field_def)
  obtain r2 where "read_full (length s) r1 = (Inr (bytes_of_string s), r2)" "rd_pending r2 = rest"
    using rs.readn_append [OF r1(2)] by auto
  with r1 assms(1) show ?thesis by (simp add: readString_def unat_short_length)
qed

lemma readString_Inr:
  assumes "readString r = (Inr s, r')"
  shows "short_string s \<and> rd_pending r = string_field s @ rd_pending r'"
proof -
  from assms obtain l r1 d where l: "read_full 2 r = (Inr l, r1)"
      and d: "read_full (unat (get_uint16 l)) r1 = (Inr d, r')" and s: "s = string_of_bytes d"
    by (auto simp: readString_def split: prod.splits sum.splits)
  note ls = rs.readn_Inr [OF l] and ds = rs.readn_Inr [OF d]
  have "length s < 2 ^ LENGTH(16)"
    using unsigned_less [of "get_uint16 l"] ds s by simp
  moreover have "put_uint16 (word_of_nat (length s)) = l"
    using ls ds s by (simp add: put_get_uint16)
  ultimately show ?thesis
    using ls ds s by (auto simp: short_string_def string_field_def maxUint16_eq)
qed

lemma readBytes_field:
  assumes "length d \<le> MaxPayloadSize" "rd_pending r = bytes_field d @ rest"
  shows "\<exists>r'. readBytes r = (Inr d, r') \<and> rd_pending r' = rest"
proof -
  let ?l = "put_uint32 (word_of_nat (length d))"
  obtain r1 where r1: "read_full 4 r = (Inr ?l, r1)" "rd_pending r1 = d @ rest"
    using rs.readn_append [of r ?l "d @ rest"] assms(2) by (auto simp: bytes_field_def)
  obtain r2 where "read_full (length d) r1 = (Inr d, r2)" "rd_pending r2 = rest"
    using rs.readn_append [OF r1(2)] by auto
  with r1 assms(1) show ?thesis by (simp add: readBytes_def unat_bytes_length)
qed

lemma readBytes_Inr:
  assumes "readBytes r = (Inr d, r')"
  shows "length d \<le> MaxPayloadSize \<and> rd_pending r = bytes_field d @ rd_pending r'"
proof -
  from assms obtain l r1 where l: "read_full 4 r = (Inr l, r1)"
      and d: "read_full (unat (get_uint32 l)) r1 = (Inr d, r')" and le: "unat (get_uint32 l) \<le> MaxPayloadSize"
    by (auto simp: readBytes_def Let_def split: prod.splits sum.splits if_splits)
  note ls = rs.readn_Inr [OF l] and ds = rs.readn_Inr [OF d]
  have "put_uint32 (word_of_nat (length d)) = l"
    using ls ds by (simp add: put_get_uint32)
  then show ?thesis using ls ds le by (auto simp: bytes_field_def)
qed

section \<open>The encodings\<close>

lemma encodeTopic_eq:
  "encodeTopic m = (if short_string (tm_Topic m) then Inr (string_field (tm_Topic m)) else Inl ErrInvalidPayload)"
  by (simp add: encodeTopic_def codec_simps)

lemma encodeConnect_eq:
  "encodeConnect m =
     (if short_string (cm_ClientID m) then Inr (string_field (cm_ClientID m)) else Inl ErrInvalidPayload)"
  by (simp add: encodeConnect_def codec_simps)

definition publish_bytes :: "publishMessage \<Rightarrow> byte list" where
  "publish_bytes m = string_field (pm_ID m) @ string_field (pm_IdempotencyKey m)
     @ string_field (pm_Topic m) @ string_field (pm_Key m) @ bytes_field (pm_Payload m)"

definition ack_bytes :: "ackMessage \<Rightarrow> byte list" where
  "ack_bytes m = string_field (am_ID m) @ [am_Status m] @ string_field (am_Error m)"

lemma encodePublish_eq:
  "encodePublish m =
     (if publish_fits m then Inr (publish_bytes m)
      else if list_all short_string [pm_ID m, pm_IdempotencyKey m, pm_Topic m, pm_Key m]
      then Inl ErrFrameTooLarge else Inl ErrInvalidPayload)"
  by (simp add: encodePublish_def codec_simps publish_fits_def publish_bytes_def)

lemma encodeAck_eq:
  "encodeAck m = (if ack_fits m then Inr (ack_bytes m) else Inl ErrInvalidPayload)"
  by (simp add: encodeAck_def codec_simps ack_fits_def ack_bytes_def)

lemma decodeTopic_iff:
  "decodeTopic bs = Inr m \<longleftrightarrow> short_string (tm_Topic m) \<and> bs = string_field (tm_Topic m)"
proof
  assume "decodeTopic bs = Inr m"
  then show "short_string (tm_Topic m) \<and> bs = string_field (tm_Topic m)"
    by (auto simp: decodeTopic_def reader_len_def dest!: readString_Inr
        split: prod.splits sum.splits if_splits)
next
  assume m: "short_string (tm_Topic m) \<and> bs = string_field (tm_Topic m)"
  then show "decodeTopic bs = Inr m"
    using readString_field [of "tm_Topic m" "bytes_reader bs" "[]"]
    by (auto simp: decodeTopic_def reader_len_def)
qed

lemma decodeConnect_iff:
  "decodeConnect bs = Inr m \<longleftrightarrow> short_string (cm_ClientID m) \<and> bs = string_field (cm_ClientID m)"
proof
  assume "decodeConnect bs = Inr m"
  then show "short_string (cm_ClientID m) \<and> bs = string_field (cm_ClientID m)"
    by (auto simp: decodeConnect_def reader_len_def dest!: readString_Inr
        split: prod.splits sum.splits if_splits)
next
  assume m: "short_string (cm_ClientID m) \<and> bs = string_field (cm_ClientID m)"
  then show "decodeConnect bs = Inr m"
    using readString_field [of "cm_ClientID m" "bytes_reader bs" "[]"]
    by (auto simp: decodeConnect_def reader_len_def)
qed

lemma decodePublish_bytes:
  assumes "publish_fits m"
  shows "decodePublish (publish_bytes m) = Inr m"
proof -
  let ?r = "bytes_reader (publish_bytes m)"
  from assms have fit: "short_string (pm_ID m)" "short_string (pm_IdempotencyKey m)"
      "short_string (pm_Topic m)" "short_string (pm_Key m)" "length (pm_Payload m) \<le> MaxPayloadSize"
    by (auto simp: publish_fits_def)
  obtain r1 where r1: "readString ?r = (Inr (pm_ID m), r1)"
      "rd_pending r1 = string_field (pm_IdempotencyKey m) @ string_field (pm_Topic m)
         @ string_field (pm_Key m) @ bytes_field (pm_Payload m)"
    using readString_field [OF fit(1), of ?r] by (auto simp: publish_bytes_def)
  obtain r2 where r2: "readString r1 = (Inr (pm_IdempotencyKey m), r2)"
      "rd_pending r2 = string_field (pm_Topic m) @ string_field (pm_Key m) @ bytes_field (pm_Payload m)"
    using readString_field [OF fit(2) r1(2)] by auto
  obtain r3 where r3: "readString r2 = (Inr (pm_Topic m), r3)"
      "rd_pending r3 = string_field (pm_Key m) @ bytes_field (pm_Payload m)"
    using readString_field [OF fit(3) r2(2)] by auto
  obtain r4 where r4: "readString r3 = (Inr (pm_Key m), r4)" "rd_pending r4 = bytes_field (pm_Payload m) @ []"
    using readString_field [OF fit(4) r3(2)] by auto
  obtain r5 where "readBytes r4 = (Inr (pm_Payload m), r5)" "rd_pending r5 = []"
    using readBytes_field [OF fit(5) r4(2)] by auto
  with r1(1) r2(1) r3(1) r4(1) show ?thesis by (simp add: decodePublish_def reader_len_def)
qed

lemma decodePublish_Inr:
  "decodePublish bs = Inr m \<Longrightarrow> publish_fits m \<and> bs = publish_bytes m"
  by (auto simp: decodePublish_def publish_fits_def publish_bytes_def reader_len_def
      dest!: readString_Inr readBytes_Inr split: prod.splits sum.splits if_splits)

lemma decodeAck_bytes:
  assumes "ack_fits m"
  shows "decodeAck (ack_bytes m) = Inr m"
proof -
  let ?r = "bytes_reader (ack_bytes m)"
  from assms have fit: "short_string (am_ID m)" "short_string (am_Error m)"
    by (auto simp: ack_fits_def)
  obtain r1 where r1: "readString ?r = (Inr (am_ID m), r1)"
      "rd_pending r1 = am_Status m # string_field (am_Error m)"
    using readString_field [OF fit(1), of ?r] by (auto simp: ack_bytes_def)
  obtain r2 where r2: "read_byte r1 = (Inr (am_Status m), r2)" "rd_pending r2 = string_field (am_Error m) @ []"
    using read_byte_Cons [OF r1(2)] by auto
  obtain r3 where "readString r2 = (Inr (am_Error m), r3)" "rd_pending r3 = []"
    using readString_field [OF fit(2) r2(2)] by auto
  with r1(1) r2(1) show ?thesis by (simp add: decodeAck_def reader_len_def)
qed

lemma decodeAck_Inr: "decodeAck bs = Inr m \<Longrightarrow> ack_fits m \<and> bs = ack_bytes m"
  by (auto simp: decodeAck_def ack_fits_def ack_bytes_def reader_len_def
      dest!: readString_Inr read_byte_Inr split: prod.splits sum.splits if_splits)

lemma message_event_inverse [simp]:
  "event_of_message (message_of_event ev) = ev" "message_of_event (event_of_message m) = m"
  by (simp_all add: message_of_event_def event_of_message_def)

section \<open>The interpretations of the codec contract\<close>

interpretation topic_codec: codec encodeTopic decodeTopic "\<lambda>m. short_string (tm_Topic m)"
  by unfold_locales (auto simp: encodeTopic_eq decodeTopic_iff)

interpretation connect_codec: codec encodeConnect decodeConnect "\<lambda>m. short_string (cm_ClientID m)"
  by unfold_locales (auto simp: encodeConnect_eq decodeConnect_iff)

interpretation publish_codec: codec encodePublish decodePublish publish_fits
  by unfold_locales (auto simp: encodePublish_eq decodePublish_bytes dest: decodePublish_Inr)

interpretation ack_codec: codec encodeAck decodeAck ack_fits
  by unfold_locales (auto simp: encodeAck_eq decodeAck_bytes dest: decodeAck_Inr)

interpretation event_codec: codec encodeEvent decodeEvent "\<lambda>ev. publish_fits (message_of_event ev)"
  using codec_renamed [OF publish_codec.codec_axioms, of event_of_message message_of_event]
  by (simp add: encodeEvent_def [abs_def] decodeEvent_def [abs_def])

interpretation error_codec: codec encodeError decodeError "\<lambda>m. short_string (em_Error m)"
  using codec_renamed [OF topic_codec.codec_axioms,
      of "\<lambda>m. \<lparr>em_Error = tm_Topic m\<rparr>" "\<lambda>m. \<lparr>tm_Topic = em_Error m\<rparr>"]
  by (simp add: encodeError_def [abs_def] decodeError_def [abs_def])

interpretation shutdown_codec: codec encodeShutdown decodeShutdown "\<lambda>m. short_string (sm_Redirect m)"
  using codec_renamed [OF topic_codec.codec_axioms,
      of "\<lambda>m. \<lparr>sm_Redirect = tm_Topic m\<rparr>" "\<lambda>m. \<lparr>tm_Topic = sm_Redirect m\<rparr>"]
  by (simp add: encodeShutdown_def [abs_def] decodeShutdown_def [abs_def])

section \<open>Properties\<close>

abbreviation sample_message :: publishMessage where
  "sample_message \<equiv> \<lparr>pm_ID = ''m1'', pm_IdempotencyKey = ''k'', pm_Topic = ''orders'', pm_Key = [],
     pm_Payload = [7, 0, 255]\<rparr>"

text \<open>
  C26 (PUBLISH and EVENT payloads are canonical). A payload decodes to a message exactly
  when it is that message's encoding, so encoding and decoding invert each other and no
  two payloads carry the same message.
\<close>

theorem publish_payload_canonical: "decodePublish bs = Inr m \<longleftrightarrow> encodePublish m = Inr bs"
  by (rule publish_codec.decode_iff_encode)

text \<open>
  Which messages can be encoded, and the error of the others. \<open>encodePublish\<close>
  succeeds exactly when the four strings are at most 65535 bytes and the payload at most
  \<open>MaxPayloadSize\<close>; otherwise it returns \<open>errInvalidPayload\<close> if a string is too long, and
  \<open>protocol.ErrFrameTooLarge\<close> if only the payload is.
\<close>

theorem encodePublish_errors:
  "encodePublish m =
     (if \<exists>s \<in> {pm_ID m, pm_IdempotencyKey m, pm_Topic m, pm_Key m}. 65535 < length s
      then Inl ErrInvalidPayload
      else if 16777216 < length (pm_Payload m) then Inl ErrFrameTooLarge
      else Inr (publish_bytes m))"
  by (auto simp: encodePublish_eq publish_fits_def short_string_def maxUint16_eq MaxPayloadSize_eq)

text \<open>
  Acknowledgements round trip. An ACK payload decodes to a message exactly when it
  is that message's encoding, and every ACK whose identifier and error text fit their
  length prefixes has one.
\<close>

theorem ack_payload_canonical:
  "(decodeAck bs = Inr m \<longleftrightarrow> encodeAck m = Inr bs) \<and> ((\<exists>p. encodeAck m = Inr p) \<longleftrightarrow> ack_fits m)"
  by (simp add: ack_codec.decode_iff_encode ack_codec.encode_succeeds_iff)

text \<open>
  What a publisher sends is what a subscriber decodes. An event whose PUBLISH frame
  was accepted by the server is re-encoded by \<open>deliver\<close> to the very same payload: the
  EVENT frame is always within the frame limit, it is read back whole on the other side,
  and the subscriber decodes the event that was published.
\<close>

theorem relayed_event_is_published_event:
  assumes "read_frame r0 = (Inr f, r0')" "decodePublish (frame_payload f) = Inr m"
    and "rd_pending r = frame_bytes \<lparr>frame_type = TypeEvent, frame_payload = frame_payload f\<rparr> @ rest"
  shows "encodeEvent (event_of_message m) = Inr (frame_payload f)
     \<and> (\<exists>g r'. read_frame r = (Inr g, r') \<and> frame_type g = TypeEvent \<and> rd_pending r' = rest
          \<and> decodeEvent (frame_payload g) = Inr (event_of_message m))"
proof -
  have enc: "encodeEvent (event_of_message m) = Inr (frame_payload f)"
    using assms(2) by (simp add: encodeEvent_def publish_codec.decode_iff_encode)
  moreover have "length (frame_payload f) \<le> MaxPayloadSize"
    using read_frame_Inr [OF assms(1)] by (simp add: valid_frame_def)
  ultimately show ?thesis
    using event_codec.framed [OF enc _ _ assms(3)] by (auto simp: TypeEvent_def)
qed

theorem relayed_event_is_published_event_witness:
  "encodeEvent (event_of_message sample_message) = Inr (publish_bytes sample_message)"
proof -
  let ?p = "publish_bytes sample_message"
  let ?f = "\<lparr>frame_type = TypePublish, frame_payload = ?p\<rparr>"
  have "length ?p \<le> MaxPayloadSize"
    by (simp add: publish_bytes_def string_field_def bytes_field_def MaxPayloadSize_eq)
  then have "valid_frame ?f" by (simp add: valid_frame_def TypePublish_def)
  then obtain r0' where "read_frame (bytes_reader (frame_bytes ?f)) = (Inr ?f, r0')"
    using read_frame_bytes [of ?f "bytes_reader (frame_bytes ?f)" "[]"] by auto
  moreover have "decodePublish (frame_payload ?f) = Inr sample_message"
    by (simp add: decodePublish_bytes publish_fits_def short_string_def maxUint16_eq MaxPayloadSize_eq)
  ultimately show ?thesis
    using relayed_event_is_published_event [of "bytes_reader (frame_bytes ?f)" ?f r0' sample_message
        "bytes_reader (frame_bytes \<lparr>frame_type = TypeEvent, frame_payload = ?p\<rparr>)" "[]"]
    by simp
qed

text \<open>
  C27 (an event can be too large to send although it encodes). The payload limit of a
  message and the payload limit of a frame are the same number, and a message is longer
  than its payload: a PUBLISH whose payload is at the limit is encoded without error and
  then refused by \<open>WriteFrame\<close>, with nothing sent.
\<close>

theorem full_payload_encodes_but_is_not_sent:
  assumes "publish_fits m" "length (pm_Payload m) = MaxPayloadSize"
  shows "\<exists>bs. encodePublish m = Inr bs
     \<and> write_frame \<lparr>frame_type = TypePublish, frame_payload = bs\<rparr> w
         = (Some (ErrFrameTooLargeBytes (length bs)), w)"
  using assms
  by (auto simp: encodePublish_eq write_frame_def TypePublish_def publish_bytes_def bytes_field_def)

theorem full_payload_encodes_but_is_not_sent_witness:
  "\<exists>bs. encodePublish (sample_message\<lparr>pm_Payload := replicate MaxPayloadSize 0\<rparr>) = Inr bs
     \<and> write_frame \<lparr>frame_type = TypePublish, frame_payload = bs\<rparr> empty_buffer
         = (Some (ErrFrameTooLargeBytes (length bs)), empty_buffer)"
  by (rule full_payload_encodes_but_is_not_sent)
    (simp_all add: publish_fits_def short_string_def maxUint16_eq)

end
