(* ===== verification/Transport.thy ===== *)
theory Transport
  imports Messages
begin

text \<open>
  A \<open>net.Conn\<close> as the client and the server use it: the stream that arrives, the stream that
  is sent, and whether it was closed locally. Reading and writing after \<open>Close\<close> fail.
\<close>

record conn =
  cn_in :: reader
  cn_out :: writer
  cn_closed :: bool

definition errNetClosed :: go_error where
  "errNetClosed = NetError ''use of closed network connection''"

definition conn_close :: "conn \<Rightarrow> conn" where
  "conn_close c = c\<lparr>cn_closed := True\<rparr>"

definition conn_read_frame :: "conn \<Rightarrow> (go_error + frame) \<times> conn" where
  "conn_read_frame c =
     (if cn_closed c then (Inl errNetClosed, c)
      else (case read_frame (cn_in c) of (res, r) \<Rightarrow> (res, c\<lparr>cn_in := r\<rparr>)))"

text \<open>\<open>WriteFrame\<close> checks the frame before it writes; on a closed connection the write fails.\<close>

definition conn_write_frame :: "frame \<Rightarrow> conn \<Rightarrow> go_error option \<times> conn" where
  "conn_write_frame f c =
     (if cn_closed c
      then (fst (write_frame f ((cn_out c)\<lparr>wr_script := [Fail 0 errNetClosed]\<rparr>)), c)
      else (case write_frame f (cn_out c) of (res, w) \<Rightarrow> (res, c\<lparr>cn_out := w\<rparr>)))"

definition mk_frame :: "byte \<Rightarrow> byte list \<Rightarrow> frame" where
  "mk_frame t p = \<lparr>frame_type = t, frame_payload = p\<rparr>"

lemma mk_frame_simps [simp]: "frame_type (mk_frame t p) = t" "frame_payload (mk_frame t p) = p"
  by (simp_all add: mk_frame_def)

lemma mk_frame_eq [simp]: "mk_frame (frame_type f) (frame_payload f) = f"
  by (simp add: mk_frame_def)

text \<open>What was sent before stays sent; closing sends nothing.\<close>

lemma conn_close_simps [simp]:
  "cn_out (conn_close c) = cn_out c" "cn_in (conn_close c) = cn_in c" "cn_closed (conn_close c)"
  by (simp_all add: conn_close_def)

lemma conn_write_simps [simp]:
  "cn_in (snd (conn_write_frame f c)) = cn_in c" "cn_closed (snd (conn_write_frame f c)) = cn_closed c"
  by (simp_all add: conn_write_frame_def split: prod.splits)

lemma conn_read_simps [simp]:
  "cn_out (snd (conn_read_frame c)) = cn_out c" "cn_closed (snd (conn_read_frame c)) = cn_closed c"
  by (simp_all add: conn_read_frame_def split: prod.splits)

text \<open>A healthy open connection carries every valid frame.\<close>

abbreviation usable_conn :: "conn \<Rightarrow> bool" where
  "usable_conn c \<equiv> \<not> cn_closed c \<and> healthy (cn_out c)"

abbreviation sent_bytes :: "conn \<Rightarrow> byte list" where
  "sent_bytes c \<equiv> wr_bytes (cn_out c)"

lemma conn_write_ok:
  assumes "usable_conn c" "valid_frame f"
  shows "\<exists>c'. conn_write_frame f c = (None, c') \<and> usable_conn c' \<and> sent_bytes c' = sent_bytes c @ frame_bytes f
    \<and> cn_in c' = cn_in c"
proof -
  obtain w where "write_frame f (cn_out c) = (None, w)" "healthy w" "wr_bytes w = sent_bytes c @ frame_bytes f"
    using write_frame_healthy [OF assms(2), of "cn_out c"] assms(1) by auto
  with assms(1) show ?thesis by (simp add: conn_write_frame_def)
qed

lemma conn_write_closed: "cn_closed c \<Longrightarrow> \<exists>e. conn_write_frame f c = (Some e, c)"
  by (auto simp: conn_write_frame_def write_frame_def write_full.simps writer_write_def put_uint32_def Let_def)

lemma conn_write_sent:
  assumes "conn_write_frame f c = (None, c')"
  shows "valid_frame f \<and> \<not> cn_closed c \<and> sent_bytes c' = sent_bytes c @ frame_bytes f"
proof -
  have "\<not> cn_closed c" using conn_write_closed [of c f] assms by auto
  with assms obtain w where "write_frame f (cn_out c) = (None, w)" "c' = c\<lparr>cn_out := w\<rparr>"
    by (auto simp: conn_write_frame_def split: prod.splits)
  moreover from this(1) have "valid_frame f"
    by (auto simp: write_frame_def valid_frame_def split: if_splits)
  ultimately show ?thesis using write_frame_prefix [of f "cn_out c"] \<open>\<not> cn_closed c\<close> by simp
qed

lemma valid_mk_frame: "t \<noteq> 0 \<Longrightarrow> length p \<le> 16777216 \<Longrightarrow> valid_frame (mk_frame t p)"
  by (simp add: valid_frame_def MaxPayloadSize_eq)

text \<open>A connection that takes every write and on which the given bytes arrive.\<close>

definition open_conn :: "byte list \<Rightarrow> conn" where
  "open_conn bs = \<lparr>cn_in = bytes_reader bs, cn_out = empty_buffer, cn_closed = False\<rparr>"

lemma open_conn_simps [simp]:
  "usable_conn (open_conn bs)" "rd_pending (cn_in (open_conn bs)) = bs" "sent_bytes (open_conn bs) = []"
  "\<not> cn_closed (open_conn bs)"
  by (simp_all add: open_conn_def healthy_def bytes_reader_def rd_pending_def)

end
