(* ===== verification/Server.thy ===== *)
theory Server
  imports Transport Broker_Properties
begin

text \<open>
  The TCP server of \<open>transport/tcp/server.go\<close>: the connections and their handlers, the
  delivery goroutines with their acknowledgement timeouts, closing and graceful shutdown. A
  handler runs from one frame to the next without interruption and calls the operations of
  \<open>Broker\<close>; \<open>server_step\<close> interleaves the frames of all connections, the steps of the
  delivery goroutines, the shutdown and the arrival of connections. (The interleaving inside
  the broker's operations is the subject of \<open>Concurrency\<close>.)
\<close>

section \<open>State\<close>

definition deliveryMaxAttempts :: nat where
  "deliveryMaxAttempts = 3"

text \<open>
  Where the goroutine that \<open>subscribe\<close> starts can be: at the \<open>range\<close> over the events, before
  the send of an attempt, in the \<open>select\<close> after it (with the payload, the number of the
  attempt and the channel of \<open>pendingAck\<close>), or ended.
\<close>

datatype delivery =
    Ranging
  | Sending event "byte list" nat addr
  | Awaiting event "byte list" nat addr
  | Stopped

datatype phase = Greeting | Serving | Ended

text \<open>The fields of \<open>connection\<close>, then the program counters of its goroutines.\<close>

record connection =
  co_net :: conn
  co_subs :: "(string, addr) gomap"
  co_closed :: bool
  co_draining :: bool
  co_pendingAck :: "(string, addr) gomap"
  co_acks :: "byte chan list"
  co_phase :: phase
  co_deliveries :: "(addr \<times> delivery) list"

text \<open>The steps of \<open>gracefulClose\<close>: its start, the subscriptions to drain, its end.\<close>

datatype closer = GracefulStart | GracefulDrain "addr list" | GracefulDone

record server =
  sv_broker :: broker
  sv_listener :: "bool option"
  sv_closed :: bool
  sv_draining :: bool
  sv_heap :: "connection list"
  sv_conns :: "addr list"
  sv_closers :: "(addr \<times> closer) list"

definition NewServer :: "broker \<Rightarrow> server" where
  "NewServer b =
     \<lparr>sv_broker = b, sv_listener = None, sv_closed = False, sv_draining = False, sv_heap = [], sv_conns = [],
      sv_closers = []\<rparr>"

definition newConnection :: "conn \<Rightarrow> connection" where
  "newConnection cn =
     \<lparr>co_net = cn, co_subs = [], co_closed = False, co_draining = False, co_pendingAck = [], co_acks = [],
      co_phase = Greeting, co_deliveries = []\<rparr>"

abbreviation the_conn :: "addr \<Rightarrow> server \<Rightarrow> connection" where
  "the_conn k s \<equiv> sv_heap s ! k"

definition put_conn :: "addr \<Rightarrow> connection \<Rightarrow> server \<Rightarrow> server" where
  "put_conn k co s = s\<lparr>sv_heap := (sv_heap s)[k := co]\<rparr>"

section \<open>Sending\<close>

definition conn_send :: "frame \<Rightarrow> addr \<Rightarrow> server \<Rightarrow> go_error option \<times> server" where
  "conn_send f k s =
     (case conn_write_frame f (co_net (the_conn k s)) of
        (err, cn) \<Rightarrow> (err, put_conn k ((the_conn k s)\<lparr>co_net := cn\<rparr>) s))"

definition sendError :: "go_error \<Rightarrow> addr \<Rightarrow> server \<Rightarrow> go_error option \<times> server" where
  "sendError err k s =
     (case encodeError \<lparr>em_Error = error_text err\<rparr> of
        Inl marshalErr \<Rightarrow> (Some marshalErr, s)
      | Inr payload \<Rightarrow> conn_send (mk_frame TypeError payload) k s)"

definition isDraining :: "addr \<Rightarrow> server \<Rightarrow> bool" where
  "isDraining k s \<longleftrightarrow> co_draining (the_conn k s) \<or> sv_draining s"

section \<open>Closing a connection\<close>

text \<open>
  \<open>Close\<close> on each subscription in turn; \<open>None\<close> if one of them does not return.
\<close>

primrec close_subs :: "addr list \<Rightarrow> broker \<Rightarrow> broker option" where
  "close_subs [] b = Some b"
| "close_subs (a # as) b = Option.bind (Subscription_Close a b) (close_subs as)"

definition close_conn :: "addr iter \<Rightarrow> addr \<Rightarrow> server \<Rightarrow> server option" where
  "close_conn ai k s =
     (let co = the_conn k s in
      if co_closed co then Some s
      else
        map_option (\<lambda>b. (put_conn k (co\<lparr>co_closed := True, co_subs := [], co_net := conn_close (co_net co)\<rparr>) s)
            \<lparr>sv_broker := b\<rparr>)
          (close_subs (ai (map snd (co_subs co))) (sv_broker s)))"

definition closeTransport :: "addr \<Rightarrow> server \<Rightarrow> server" where
  "closeTransport k s =
     (let co = the_conn k s in put_conn k (co\<lparr>co_closed := True, co_net := conn_close (co_net co)\<rparr>) s)"

definition abort :: "addr iter \<Rightarrow> addr \<Rightarrow> server \<Rightarrow> server option" where
  "abort ai k s =
     (if co_draining (the_conn k s) \<or> sv_draining s then Some s else close_conn ai k s)"

definition removeConnection :: "addr \<Rightarrow> server \<Rightarrow> server" where
  "removeConnection k s = s\<lparr>sv_conns := removeAll k (sv_conns s)\<rparr>"

section \<open>Handlers\<close>

definition handle_subscribe :: "byte list \<Rightarrow> addr \<Rightarrow> server \<Rightarrow> (go_error option \<times> server) option" where
  "handle_subscribe payload k s =
     (case decodeTopic payload of
        Inl _ \<Rightarrow> Some (Some (ErrorsNew ''invalid SUBSCRIBE payload''), s)
      | Inr message \<Rightarrow>
          (let topic = tm_Topic message in
           if topic = [] then Some (Some (ErrorsNew ''invalid SUBSCRIBE payload''), s)
           else if isDraining k s then Some (Some ErrDraining, s)
           else
             (case Subscribe topic (sv_broker s) of
                None \<Rightarrow> None
              | Some (Inl e, b) \<Rightarrow> Some (Some e, s\<lparr>sv_broker := b\<rparr>)
              | Some (Inr a, b) \<Rightarrow>
                  (let co = the_conn k s in
                   map_option
                     (\<lambda>b'. (None, (put_conn k (co\<lparr>co_subs := AList.update topic a (co_subs co),
                         co_deliveries := co_deliveries co @ [(a, Ranging)]\<rparr>) s)\<lparr>sv_broker := b'\<rparr>))
                     (case map_of (co_subs co) topic of
                        None \<Rightarrow> Some b
                      | Some old \<Rightarrow> Subscription_Close old b)))))"

definition ack_of_result :: "string \<Rightarrow> PublishResult \<Rightarrow> go_error option \<Rightarrow> ackMessage" where
  "ack_of_result i result publishErr =
     (let ack = \<lparr>am_ID = i, am_Status = ackPublished, am_Error = []\<rparr>;
          ack1 = (if result = Duplicate then ack\<lparr>am_Status := ackDuplicate\<rparr> else ack)
      in case publishErr of
           None \<Rightarrow> ack1
         | Some e \<Rightarrow> ack1\<lparr>am_Status := ackRejected, am_Error := error_text e\<rparr>)"

text \<open>
  The event is published with \<open>context.Background()\<close>, which is never done. A publish that
  the broker's backpressure blocks has no result.
\<close>

definition handle_publish :: "(u64 \<times> addr) iter \<Rightarrow> string iter \<Rightarrow> byte list \<Rightarrow> addr \<Rightarrow> server \<Rightarrow>
    (go_error option \<times> server) option list" where
  "handle_publish si ki payload k s =
     (case decodePublish payload of
        Inl _ \<Rightarrow> [Some (Some (ErrorsNew ''invalid PUBLISH payload''), s)]
      | Inr message \<Rightarrow>
          if pm_Topic message = [] then [Some (Some (ErrorsNew ''invalid PUBLISH payload''), s)]
          else
            map (map_option (\<lambda>((result, publishErr), b).
                (case encodeAck (ack_of_result (pm_ID message) result publishErr) of
                   Inl e \<Rightarrow> (Some e, s\<lparr>sv_broker := b\<rparr>)
                 | Inr ackPayload \<Rightarrow> conn_send (mk_frame TypeAck ackPayload) k (s\<lparr>sv_broker := b\<rparr>))))
              (PublishWithResult si ki None (event_of_message message) (sv_broker s)))"

text \<open>The status goes to the delivery that waits for it, unless one is already there.\<close>

definition handle_ack :: "byte list \<Rightarrow> addr \<Rightarrow> server \<Rightarrow> go_error option \<times> server" where
  "handle_ack payload k s =
     (case decodeAck payload of
        Inl e \<Rightarrow> (Some e, s)
      | Inr ack \<Rightarrow>
          (let co = the_conn k s in
           case map_of (co_pendingAck co) (am_ID ack) of
             None \<Rightarrow> (None, s)
           | Some ch \<Rightarrow>
               (case chan_send (am_Status ack) (co_acks co ! ch) of
                  SendOk c \<Rightarrow> (None, put_conn k (co\<lparr>co_acks := (co_acks co)[ch := c]\<rparr>) s)
                | _ \<Rightarrow> (None, s))))"

definition handle_unsubscribe :: "byte list \<Rightarrow> addr \<Rightarrow> server \<Rightarrow> server option" where
  "handle_unsubscribe payload k s =
     (case decodeTopic payload of
        Inl _ \<Rightarrow> Some s
      | Inr message \<Rightarrow>
          (let co = the_conn k s;
               s1 = put_conn k (co\<lparr>co_subs := AList.delete (tm_Topic message) (co_subs co)\<rparr>) s
           in case map_of (co_subs co) (tm_Topic message) of
                None \<Rightarrow> Some s1
              | Some a \<Rightarrow> map_option (\<lambda>b. s1\<lparr>sv_broker := b\<rparr>) (Subscription_Close a (sv_broker s1))))"

text \<open>An error a handler returns is reported to the client.\<close>

definition report :: "addr \<Rightarrow> go_error option \<times> server \<Rightarrow> server" where
  "report k r = (case r of (None, s) \<Rightarrow> s | (Some e, s) \<Rightarrow> snd (sendError e k s))"

definition handle_frame :: "(u64 \<times> addr) iter \<Rightarrow> string iter \<Rightarrow> frame \<Rightarrow> addr \<Rightarrow> server \<Rightarrow> server option list" where
  "handle_frame si ki f k s =
     (if frame_type f = TypeSubscribe then [map_option (report k) (handle_subscribe (frame_payload f) k s)]
      else if frame_type f = TypePublish then
        (if isDraining k s then [Some (snd (sendError ErrDraining k s))]
         else map (map_option (report k)) (handle_publish si ki (frame_payload f) k s))
      else if frame_type f = TypeAck then [Some (report k (handle_ack (frame_payload f) k s))]
      else if frame_type f = TypePing then [Some (snd (conn_send (mk_frame TypePong []) k s))]
      else if frame_type f = TypeUnsubscribe then [handle_unsubscribe (frame_payload f) k s]
      else [Some (snd (sendError (ErrorsNew (''unsupported frame type: '' @ digits10 (unat (frame_type f)))) k s))])"

subsection \<open>The serving goroutine\<close>

definition serve_end :: "addr iter \<Rightarrow> addr \<Rightarrow> server \<Rightarrow> server option" where
  "serve_end ai k s =
     map_option (\<lambda>s'. removeConnection k (put_conn k ((the_conn k s')\<lparr>co_phase := Ended\<rparr>) s')) (abort ai k s)"

text \<open>One frame; empty while a publish is blocked, \<open>None\<close> for a call that does not return.\<close>

definition serve :: "(u64 \<times> addr) iter \<Rightarrow> string iter \<Rightarrow> addr iter \<Rightarrow> addr \<Rightarrow> server \<Rightarrow> server option list" where
  "serve si ki ai k s =
     (let co = the_conn k s in
      case co_phase co of
        Ended \<Rightarrow> []
      | Greeting \<Rightarrow>
          (case conn_read_frame (co_net co) of
             (res, cn) \<Rightarrow>
               (let s1 = put_conn k (co\<lparr>co_net := cn\<rparr>) s in
                case res of
                  Inl _ \<Rightarrow> [serve_end ai k s1]
                | Inr f \<Rightarrow>
                    if frame_type f \<noteq> TypeConnect then [serve_end ai k (snd (sendError ErrNotConnected k s1))]
                    else
                      (case decodeConnect (frame_payload f) of
                         Inl e \<Rightarrow>
                           [serve_end ai k (snd (sendError (ErrorsNew (''invalid CONNECT payload: '' @ error_text e)) k s1))]
                       | Inr _ \<Rightarrow> [Some (put_conn k ((the_conn k s1)\<lparr>co_phase := Serving\<rparr>) s1)])))
      | Serving \<Rightarrow>
          (case conn_read_frame (co_net co) of
             (res, cn) \<Rightarrow>
               (let s1 = put_conn k (co\<lparr>co_net := cn\<rparr>) s in
                case res of
                  Inl _ \<Rightarrow> [serve_end ai k s1]
                | Inr f \<Rightarrow> handle_frame si ki f k s1)))"

section \<open>Delivery\<close>

definition put_delivery :: "addr \<Rightarrow> nat \<Rightarrow> delivery \<Rightarrow> server \<Rightarrow> server" where
  "put_delivery k d st s =
     (let co = the_conn k s in
      put_conn k (co\<lparr>co_deliveries := (co_deliveries co)[d := (fst (co_deliveries co ! d), st)]\<rparr>) s)"

text \<open>
  The head of \<open>range sub.Events()\<close> and the beginning of \<open>deliver\<close>, up to its loop.
\<close>

definition deliver_next :: "addr \<Rightarrow> nat \<Rightarrow> server \<Rightarrow> server list" where
  "deliver_next k d s =
     (let co = the_conn k s; a = fst (co_deliveries co ! d) in
      case chan_recv (sub_events (b_heap (sv_broker s) ! a)) of
        RecvBlocks \<Rightarrow> []
      | RecvClosed \<Rightarrow> [put_delivery k d Stopped s]
      | RecvOk ev _ \<Rightarrow>
          (let s1 = (case Receive a (sv_broker s) of None \<Rightarrow> s | Some (_, b) \<Rightarrow> s\<lparr>sv_broker := b\<rparr>) in
           case encodeEvent ev of
             Inl _ \<Rightarrow> [put_delivery k d Stopped s1]
           | Inr payload \<Rightarrow>
               [put_delivery k d (Sending ev payload 1 (length (co_acks co)))
                  (put_conn k (co\<lparr>co_acks := co_acks co @ [make_chan 1],
                      co_pendingAck := AList.update (ev_ID ev) (length (co_acks co)) (co_pendingAck co)\<rparr>) s1)]))"

text \<open>\<open>deliver\<close> returns: the deferred removal, then on to the next event or out.\<close>

definition deliver_return :: "addr \<Rightarrow> nat \<Rightarrow> event \<Rightarrow> bool \<Rightarrow> server \<Rightarrow> server" where
  "deliver_return k d ev delivered s =
     (let co = the_conn k s in
      put_delivery k d (if delivered then Ranging else Stopped)
        (put_conn k (co\<lparr>co_pendingAck := AList.delete (ev_ID ev) (co_pendingAck co)\<rparr>) s))"

definition deliver_send :: "addr \<Rightarrow> nat \<Rightarrow> event \<Rightarrow> byte list \<Rightarrow> nat \<Rightarrow> addr \<Rightarrow> server \<Rightarrow> server" where
  "deliver_send k d ev payload attempt ch s =
     (case conn_send (mk_frame TypeEvent payload) k s of
        (Some _, s1) \<Rightarrow> deliver_return k d ev False s1
      | (None, s1) \<Rightarrow> put_delivery k d (Awaiting ev payload attempt ch) s1)"

definition deliver_retry :: "addr \<Rightarrow> nat \<Rightarrow> event \<Rightarrow> byte list \<Rightarrow> nat \<Rightarrow> addr \<Rightarrow> server \<Rightarrow> server" where
  "deliver_retry k d ev payload attempt ch s =
     (if attempt + 1 \<le> deliveryMaxAttempts then put_delivery k d (Sending ev payload (attempt + 1) ch) s
      else deliver_return k d ev False s)"

text \<open>The \<open>select\<close> after a send: a status that has arrived, or the timer.\<close>

definition deliver_await :: "addr \<Rightarrow> nat \<Rightarrow> event \<Rightarrow> byte list \<Rightarrow> nat \<Rightarrow> addr \<Rightarrow> server \<Rightarrow> server list" where
  "deliver_await k d ev payload attempt ch s =
     (let co = the_conn k s in
      case chan_recv (co_acks co ! ch) of
        RecvOk st c \<Rightarrow>
          (let s1 = put_conn k (co\<lparr>co_acks := (co_acks co)[ch := c]\<rparr>) s in
           [if st = ackDelivered then deliver_return k d ev True s1
            else deliver_retry k d ev payload attempt ch s1])
      | _ \<Rightarrow> [])
     @ [deliver_retry k d ev payload attempt ch s]"

definition deliver :: "addr \<Rightarrow> nat \<Rightarrow> server \<Rightarrow> server list" where
  "deliver k d s =
     (case snd (co_deliveries (the_conn k s) ! d) of
        Ranging \<Rightarrow> deliver_next k d s
      | Sending ev payload attempt ch \<Rightarrow> [deliver_send k d ev payload attempt ch s]
      | Awaiting ev payload attempt ch \<Rightarrow> deliver_await k d ev payload attempt ch s
      | Stopped \<Rightarrow> [])"

section \<open>Accepting and closing\<close>

definition Serve_listen :: "server \<Rightarrow> server" where
  "Serve_listen s = s\<lparr>sv_listener := Some True\<rparr>"

text \<open>A connection that \<open>Accept\<close> returned; after \<open>Close\<close> it is closed at once.\<close>

definition Serve_accept :: "conn \<Rightarrow> server \<Rightarrow> server" where
  "Serve_accept cn s =
     (if sv_closed s then s
      else s\<lparr>sv_heap := sv_heap s @ [newConnection cn], sv_conns := length (sv_heap s) # sv_conns s\<rparr>)"

text \<open>What \<open>Serve\<close> returns when \<open>Accept\<close> fails.\<close>

definition Serve_error :: "go_error \<Rightarrow> server \<Rightarrow> go_error option" where
  "Serve_error err s = (if sv_closed s \<or> err = errNetClosed then None else Some err)"

definition close_listener :: "server \<Rightarrow> server" where
  "close_listener s = (case sv_listener s of None \<Rightarrow> s | Some _ \<Rightarrow> s\<lparr>sv_listener := Some False\<rparr>)"

primrec close_conns :: "addr iter \<Rightarrow> addr list \<Rightarrow> server \<Rightarrow> server option" where
  "close_conns ai [] s = Some s"
| "close_conns ai (k # ks) s = Option.bind (close_conn ai k s) (close_conns ai ks)"

text \<open>\<open>Server.Close\<close> up to the wait for the serving goroutines.\<close>

definition Server_Close :: "addr iter \<Rightarrow> addr iter \<Rightarrow> server \<Rightarrow> server option" where
  "Server_Close ci ai s =
     (if sv_closed s then Some s
      else close_conns ai (ci (sv_conns s)) (close_listener (s\<lparr>sv_closed := True\<rparr>)))"

subsection \<open>Graceful shutdown\<close>

text \<open>\<open>GracefulShutdown\<close> up to its wait: one goroutine per connection is started.\<close>

definition mark_draining :: "addr \<Rightarrow> server \<Rightarrow> server" where
  "mark_draining k s =
     (let co = the_conn k s in if co_closed co then s else put_conn k (co\<lparr>co_draining := True\<rparr>) s)"

definition GracefulShutdown :: "addr iter \<Rightarrow> server \<Rightarrow> server" where
  "GracefulShutdown ci s =
     (if sv_closed s then s
      else
        (let connections = ci (sv_conns s);
             s1 = close_listener (s\<lparr>sv_closed := True, sv_draining := True\<rparr>);
             s2 = s1\<lparr>sv_broker := BeginShutdown (sv_broker s1)\<rparr>
         in (fold mark_draining connections s2)
              \<lparr>sv_closers := sv_closers s @ map (\<lambda>k. (k, GracefulStart)) connections\<rparr>))"

definition put_closer :: "nat \<Rightarrow> closer \<Rightarrow> server \<Rightarrow> server" where
  "put_closer g c s = s\<lparr>sv_closers := (sv_closers s)[g := (fst (sv_closers s ! g), c)]\<rparr>"

definition graceful_finish :: "string \<Rightarrow> addr \<Rightarrow> server \<Rightarrow> server" where
  "graceful_finish redirect k s =
     closeTransport k
       (case encodeShutdown \<lparr>sm_Redirect = redirect\<rparr> of
          Inl _ \<Rightarrow> s
        | Inr payload \<Rightarrow> snd (conn_send (mk_frame TypeShutdown payload) k s))"

text \<open>
  The next step of \<open>gracefulClose\<close>: empty while it waits, \<open>None\<close> for a call that does not
  return. \<open>Drain\<close> sees an empty queue and closes, or the end of the context; the deliveries
  are waited for without a look at the context.
\<close>

definition gracefulClose :: "ctx \<Rightarrow> string \<Rightarrow> addr iter \<Rightarrow> nat \<Rightarrow> server \<Rightarrow> server option list" where
  "gracefulClose ctx redirect ai g s =
     (let k = fst (sv_closers s ! g); co = the_conn k s in
      case snd (sv_closers s ! g) of
        GracefulDone \<Rightarrow> []
      | GracefulStart \<Rightarrow>
          if co_closed co then [Some (put_closer g GracefulDone s)]
          else [Some (put_closer g (GracefulDrain (ai (map snd (co_subs co))))
                        (put_conn k (co\<lparr>co_draining := True\<rparr>) s))]
      | GracefulDrain (a # as) \<Rightarrow>
          (if queue (b_heap (sv_broker s) ! a) = []
           then [map_option (\<lambda>b. put_closer g (GracefulDrain as) (s\<lparr>sv_broker := b\<rparr>)) (Subscription_Close a (sv_broker s))]
           else case ctx of
                  None \<Rightarrow> []
                | Some _ \<Rightarrow> [map_option (put_closer g GracefulDone) (close_conn ai k s)])
      | GracefulDrain [] \<Rightarrow>
          if \<forall>(_, st) \<in> set (co_deliveries co). st = Stopped
          then [Some (put_closer g GracefulDone (graceful_finish redirect k s))] else [])"

text \<open>What \<open>GracefulShutdown\<close> returns once all of them are done.\<close>

definition GracefulShutdown_result :: "ctx \<Rightarrow> server \<Rightarrow> go_error option option" where
  "GracefulShutdown_result ctx s =
     (if \<forall>(_, c) \<in> set (sv_closers s). c = GracefulDone then Some ctx else None)"

record ServerState =
  ss_Closed :: bool
  ss_Draining :: bool
  ss_ActiveConnections :: nat

definition server_State :: "server \<Rightarrow> ServerState" where
  "server_State s =
     \<lparr>ss_Closed = sv_closed s, ss_Draining = sv_draining s, ss_ActiveConnections = length (sv_conns s)\<rparr>"

section \<open>Runs of the server\<close>

inductive server_step :: "server \<Rightarrow> server \<Rightarrow> bool" where
  s_listen: "server_step s (Serve_listen s)"
| s_accept: "\<not> cn_closed cn \<Longrightarrow> server_step s (Serve_accept cn s)"
| s_serve: "k < length (sv_heap s) \<Longrightarrow> iteration_order si \<Longrightarrow> iteration_order ki \<Longrightarrow> iteration_order ai \<Longrightarrow>
    Some s' \<in> set (serve si ki ai k s) \<Longrightarrow> server_step s s'"
| s_deliver: "k < length (sv_heap s) \<Longrightarrow> d < length (co_deliveries (the_conn k s)) \<Longrightarrow>
    s' \<in> set (deliver k d s) \<Longrightarrow> server_step s s'"
| s_close: "iteration_order ci \<Longrightarrow> iteration_order ai \<Longrightarrow> Server_Close ci ai s = Some s' \<Longrightarrow> server_step s s'"
| s_graceful: "iteration_order ci \<Longrightarrow> server_step s (GracefulShutdown ci s)"
| s_graceful_close: "g < length (sv_closers s) \<Longrightarrow> iteration_order ai \<Longrightarrow>
    Some s' \<in> set (gracefulClose ctx redirect ai g s) \<Longrightarrow> server_step s s'"

definition server_init :: "server \<Rightarrow> bool" where
  "server_init s \<longleftrightarrow> (\<exists>config. s = NewServer (broker_New config))"

end
