(* ===== verification/Server_Invariant.thy ===== *)
theory Server_Invariant
  imports Server
begin

text \<open>
  The invariant of the server and its preservation: the broker inside it only ever moves by
  its own operations, and connections, deliveries and closers refer to subscriptions and
  acknowledgement channels that exist.
\<close>

section \<open>The invariant\<close>

fun delivery_ok :: "nat \<Rightarrow> delivery \<Rightarrow> bool" where
  "delivery_ok m (Sending ev payload attempt ch) =
     (encodeEvent ev = Inr payload \<and> 1 \<le> attempt \<and> attempt \<le> deliveryMaxAttempts \<and> ch < m)"
| "delivery_ok m (Awaiting ev payload attempt ch) =
     (encodeEvent ev = Inr payload \<and> 1 \<le> attempt \<and> attempt \<le> deliveryMaxAttempts \<and> ch < m)"
| "delivery_ok m _ = True"

text \<open>A connection beside a broker with \<open>n\<close> subscriptions.\<close>

definition conn_ok :: "nat \<Rightarrow> connection \<Rightarrow> bool" where
  "conn_ok n co \<longleftrightarrow>
     (\<forall>a \<in> snd ` set (co_subs co). a < n)
     \<and> (\<forall>(a, st) \<in> set (co_deliveries co). a < n \<and> delivery_ok (length (co_acks co)) st)
     \<and> (\<forall>ch \<in> set (co_acks co). chan_cap ch = 1 \<and> length (chan_buf ch) \<le> 1 \<and> \<not> chan_closed ch)
     \<and> (\<forall>ch \<in> snd ` set (co_pendingAck co). ch < length (co_acks co))"

fun closer_ok :: "nat \<Rightarrow> closer \<Rightarrow> bool" where
  "closer_ok n (GracefulDrain as) = (\<forall>a \<in> set as. a < n)"
| "closer_ok n _ = True"

definition server_ok :: "server \<Rightarrow> bool" where
  "server_ok s \<longleftrightarrow>
     (let n = length (b_heap (sv_broker s)); m = length (sv_heap s) in
      reachable (sv_broker s)
      \<and> (\<forall>co \<in> set (sv_heap s). conn_ok n co)
      \<and> (\<forall>k \<in> set (sv_conns s). k < m)
      \<and> (\<forall>(k, c) \<in> set (sv_closers s). k < m \<and> closer_ok n c))"

lemma server_okD:
  assumes "server_ok s"
  shows "reachable (sv_broker s)" "k < length (sv_heap s) \<Longrightarrow> conn_ok (length (b_heap (sv_broker s))) (the_conn k s)"
    "k \<in> set (sv_conns s) \<Longrightarrow> k < length (sv_heap s)"
    "(k, c) \<in> set (sv_closers s) \<Longrightarrow> k < length (sv_heap s) \<and> closer_ok (length (b_heap (sv_broker s))) c"
  using assms unfolding server_ok_def Let_def by auto

lemma conn_ok_mono: "conn_ok n co \<Longrightarrow> n \<le> n' \<Longrightarrow> conn_ok n' co"
  unfolding conn_ok_def by fastforce

lemma closer_ok_mono: "closer_ok n c \<Longrightarrow> n \<le> n' \<Longrightarrow> closer_ok n' c"
  by (cases c) auto

lemma put_conn_simps [simp]:
  "sv_broker (put_conn k co s) = sv_broker s" "sv_closed (put_conn k co s) = sv_closed s"
  "sv_draining (put_conn k co s) = sv_draining s" "sv_conns (put_conn k co s) = sv_conns s"
  "sv_closers (put_conn k co s) = sv_closers s" "sv_listener (put_conn k co s) = sv_listener s"
  "sv_heap (put_conn k co s) = (sv_heap s)[k := co]"
  "put_conn k co (put_conn k co' s) = put_conn k co s"
  by (simp_all add: put_conn_def)

text \<open>The two ways in which an operation changes the state.\<close>

lemma server_ok_broker:
  assumes "server_ok s" "reachable b" "length (b_heap (sv_broker s)) \<le> length (b_heap b)"
  shows "server_ok (s\<lparr>sv_broker := b\<rparr>)"
  using assms conn_ok_mono closer_ok_mono unfolding server_ok_def Let_def by fastforce

lemma server_ok_conn:
  assumes "server_ok s" "conn_ok (length (b_heap (sv_broker s))) co"
  shows "server_ok (put_conn k co s)"
  using assms set_update_subset_insert [of "sv_heap s" k co] unfolding server_ok_def Let_def by auto

lemma conn_ok_update:
  assumes "conn_ok n co" "snd ` set (co_subs co') \<subseteq> {..<n}" "co_deliveries co' = co_deliveries co"
    "co_acks co' = co_acks co" "co_pendingAck co' = co_pendingAck co"
  shows "conn_ok n co'"
  using assms by (auto simp: conn_ok_def)

lemma conn_ok_subs: "conn_ok n co \<Longrightarrow> snd ` set (co_subs co) \<subseteq> {..<n}"
  by (auto simp: conn_ok_def)

lemma server_ok_fields:
  assumes "server_ok s" "k < length (sv_heap s)" "snd ` set (co_subs co) \<subseteq> snd ` set (co_subs (the_conn k s))"
    "co_deliveries co = co_deliveries (the_conn k s)" "co_acks co = co_acks (the_conn k s)"
    "co_pendingAck co = co_pendingAck (the_conn k s)"
  shows "server_ok (put_conn k co s)"
proof (rule server_ok_conn [OF assms(1)])
  show "conn_ok (length (b_heap (sv_broker s))) co"
    by (rule conn_ok_update [OF server_okD(2) [OF assms(1,2)]])
      (use assms conn_ok_subs [OF server_okD(2) [OF assms(1,2)]] in auto)
qed

subsection \<open>The broker's operations inside the server\<close>

lemma reachable_Subscription_Close:
  assumes "reachable b" "a < length (b_heap b)"
  obtains b' where "Subscription_Close a b = Some b'" "reachable b'" "length (b_heap b') = length (b_heap b)"
proof -
  obtain b' where b': "Subscription_Close a b = Some b'" "length (b_heap b') = length (b_heap b)"
    using Subscription_Close_eq [OF reachable_wf [OF assms(1)] assms(2)] by auto
  with assms that show ?thesis by (meson reach_step step_Close_sub)
qed

lemma reachable_close_subs:
  assumes "reachable b" "\<forall>a \<in> set as. a < length (b_heap b)"
  shows "\<exists>b'. close_subs as b = Some b' \<and> reachable b' \<and> length (b_heap b') = length (b_heap b)"
  using assms
proof (induction as arbitrary: b)
  case (Cons a as)
  then obtain b1 where "Subscription_Close a b = Some b1" "reachable b1" "length (b_heap b1) = length (b_heap b)"
    by (auto elim: reachable_Subscription_Close)
  with Cons.IH [of b1] Cons.prems show ?case by auto
qed simp

lemma reachable_Subscribe_op:
  assumes "reachable b" "Subscribe t b = Some (r, b')"
  shows "reachable b'" "length (b_heap b) \<le> length (b_heap b')" "r = Inr a \<Longrightarrow> a < length (b_heap b')"
proof -
  show "reachable b'" using assms by (meson reach_step step_Subscribe)
  have "r = Inl ErrClosed \<and> b' = b \<or> r = Inr (length (b_heap b)) \<and> b' = subscribed t b"
    using assms(2) Subscribe_eq [of b t] by (cases "b_closed b \<or> b_draining b") (auto simp: Subscribe_def)
  then show "length (b_heap b) \<le> length (b_heap b')" "r = Inr a \<Longrightarrow> a < length (b_heap b')"
    by (auto simp: subscribed_def Let_def)
qed

lemma reachable_Publish_op:
  assumes "reachable b" "iteration_order si" "iteration_order ki" "Some (r, b') \<in> set (PublishWithResult si ki c ev b)"
  shows "reachable b'" "length (b_heap b') = length (b_heap b)"
proof -
  show "reachable b'" using assms by (meson reach_step step_Publish)
  show "length (b_heap b') = length (b_heap b)"
    using reachable_wf [OF assms(1)] assms(2,4) by (cases rule: publish_outcomes) auto
qed

lemma reachable_Receive_op:
  assumes "reachable b" "a < length (b_heap b)" "Receive a b = Some (x, b')"
  shows "reachable b'" "length (b_heap b') = length (b_heap b)"
proof -
  show "reachable b'" using assms by (meson reach_step step_Receive)
  show "length (b_heap b') = length (b_heap b)" using assms(3) by (auto simp: Receive_def split: recv_result.splits)
qed

subsection \<open>Sending and closing\<close>

lemma conn_send_simps [simp]:
  "sv_broker (snd (conn_send f k s)) = sv_broker s" "sv_closed (snd (conn_send f k s)) = sv_closed s"
  "sv_draining (snd (conn_send f k s)) = sv_draining s" "sv_conns (snd (conn_send f k s)) = sv_conns s"
  "sv_closers (snd (conn_send f k s)) = sv_closers s"
  "length (sv_heap (snd (conn_send f k s))) = length (sv_heap s)"
  by (simp_all add: conn_send_def case_prod_beta)

lemma sendError_simps [simp]:
  "sv_broker (snd (sendError e k s)) = sv_broker s" "sv_closed (snd (sendError e k s)) = sv_closed s"
  "sv_draining (snd (sendError e k s)) = sv_draining s" "sv_conns (snd (sendError e k s)) = sv_conns s"
  "sv_closers (snd (sendError e k s)) = sv_closers s"
  "length (sv_heap (snd (sendError e k s))) = length (sv_heap s)"
  by (simp_all add: sendError_def split: sum.splits)

lemma server_ok_net:
  assumes "server_ok s" "k < length (sv_heap s)"
  shows "server_ok (put_conn k ((the_conn k s)\<lparr>co_net := cn\<rparr>) s)"
  by (rule server_ok_fields [OF assms]) simp_all

lemma server_ok_send:
  assumes "server_ok s" "k < length (sv_heap s)"
  shows "server_ok (snd (conn_send f k s))" "server_ok (snd (sendError e k s))"
proof -
  show send: "server_ok (snd (conn_send f k s))" for f
    using server_ok_net [OF assms] by (simp add: conn_send_def case_prod_beta)
  show "server_ok (snd (sendError e k s))"
    using assms(1) send by (simp add: sendError_def split: sum.splits)
qed

text \<open>What closing changes: only the broker and connections that stay connections.\<close>

lemma close_conn_ok:
  assumes "server_ok s" "k < length (sv_heap s)" "iteration_order ai"
  obtains s' where "close_conn ai k s = Some s'" "server_ok s'" "length (sv_heap s') = length (sv_heap s)"
    "sv_conns s' = sv_conns s" "sv_closers s' = sv_closers s"
    "length (b_heap (sv_broker s')) = length (b_heap (sv_broker s))"
proof (cases "co_closed (the_conn k s)")
  case True
  with assms that show ?thesis by (simp add: close_conn_def Let_def)
next
  case False
  let ?co = "the_conn k s"
  let ?co' = "?co\<lparr>co_closed := True, co_subs := [], co_net := conn_close (co_net ?co)\<rparr>"
  have "\<forall>a \<in> set (ai (map snd (co_subs ?co))). a < length (b_heap (sv_broker s))"
    using conn_ok_subs [OF server_okD(2) [OF assms(1,2)]] assms(3) by auto
  then obtain b where b: "close_subs (ai (map snd (co_subs ?co))) (sv_broker s) = Some b" "reachable b"
      "length (b_heap b) = length (b_heap (sv_broker s))"
    using reachable_close_subs [OF server_okD(1) [OF assms(1)]] by blast
  have "server_ok (put_conn k ?co' s)"
    by (rule server_ok_fields [OF assms(1,2)]) simp_all
  then have "server_ok ((put_conn k ?co' s)\<lparr>sv_broker := b\<rparr>)"
    using b by (intro server_ok_broker) simp_all
  with False b that [of "(put_conn k ?co' s)\<lparr>sv_broker := b\<rparr>"] show ?thesis
    by (simp add: close_conn_def Let_def)
qed

lemma serve_end_ok:
  assumes "server_ok s" "k < length (sv_heap s)" "iteration_order ai"
  obtains s' where "serve_end ai k s = Some s'" "server_ok s'"
proof -
  obtain s1 where s1: "abort ai k s = Some s1" "server_ok s1" "length (sv_heap s1) = length (sv_heap s)"
    using assms by (cases "co_draining (the_conn k s) \<or> sv_draining s")
      (auto simp: abort_def intro: close_conn_ok [OF assms])
  let ?s2 = "put_conn k ((the_conn k s1)\<lparr>co_phase := Ended\<rparr>) s1"
  have "server_ok ?s2"
    by (rule server_ok_fields [OF s1(2)]) (use s1(3) assms(2) in simp_all)
  then have "server_ok (removeConnection k ?s2)"
    by (auto simp: server_ok_def removeConnection_def Let_def)
  with s1(1) that show ?thesis by (simp add: serve_end_def)
qed

subsection \<open>Handlers\<close>

lemma put_conn_broker: "(put_conn k co s)\<lparr>sv_broker := b\<rparr> = put_conn k co (s\<lparr>sv_broker := b\<rparr>)"
  by (simp add: put_conn_def)

lemma conn_ok_subscribe:
  assumes "conn_ok n co" "a < n"
  shows "conn_ok n (co\<lparr>co_subs := AList.update t a (co_subs co), co_deliveries := co_deliveries co @ [(a, Ranging)]\<rparr>)"
  using assms set_AList_update_subset [of t a "co_subs co"] by (fastforce simp: conn_ok_def)

lemma handle_subscribe_ok:
  assumes "server_ok s" "k < length (sv_heap s)"
  obtains r s' where "handle_subscribe payload k s = Some (r, s')" "server_ok s'"
    "length (sv_heap s') = length (sv_heap s)"
proof -
  have "\<exists>r s'. handle_subscribe payload k s = Some (r, s') \<and> server_ok s' \<and> length (sv_heap s') = length (sv_heap s)"
  proof (cases "decodeTopic payload")
    case (Inr m)
    let ?t = "tm_Topic m" and ?co = "the_conn k s"
    show ?thesis
    proof (cases "?t = [] \<or> isDraining k s")
      case False
      obtain r b where b: "Subscribe ?t (sv_broker s) = Some (r, b)"
        using Subscribe_eq [of "sv_broker s" ?t]
        by (cases "b_closed (sv_broker s) \<or> b_draining (sv_broker s)") (auto simp: Subscribe_def)
      note rb = reachable_Subscribe_op [OF server_okD(1) [OF assms(1)] b]
      have sb: "server_ok (s\<lparr>sv_broker := b\<rparr>)" using rb by (intro server_ok_broker [OF assms(1)])
      show ?thesis
      proof (cases r)
        case (Inl e)
        with Inr False b sb show ?thesis by (simp add: handle_subscribe_def)
      next
        case (Inr a)
        have a: "a < length (b_heap b)" using rb(3) Inr by simp
        have co: "conn_ok (length (b_heap b)) ?co" using server_okD(2) [OF sb, of k] assms(2) by simp
        have "old < length (b_heap b)" if "map_of (co_subs ?co) ?t = Some old" for old
          using conn_ok_subs [OF co] map_of_SomeD [OF that] by force
        then obtain b' where b': "(case map_of (co_subs ?co) ?t of None \<Rightarrow> Some b | Some old \<Rightarrow> Subscription_Close old b) = Some b'"
            "reachable b'" "length (b_heap b') = length (b_heap b)"
          using rb(1) by (cases "map_of (co_subs ?co) ?t") (auto elim: reachable_Subscription_Close)
        let ?s' = "(put_conn k (?co\<lparr>co_subs := AList.update ?t a (co_subs ?co),
            co_deliveries := co_deliveries ?co @ [(a, Ranging)]\<rparr>) s)\<lparr>sv_broker := b'\<rparr>"
        have "server_ok ?s'" unfolding put_conn_broker
          using a b'(3) conn_ok_subscribe [OF co a] server_ok_broker [OF assms(1) b'(2)] rb(2)
          by (intro server_ok_conn) simp_all
        then show ?thesis
          using \<open>decodeTopic payload = Inr m\<close> False b Inr b'(1) by (simp add: handle_subscribe_def Let_def)
      qed
    qed (use Inr assms in \<open>auto simp: handle_subscribe_def Let_def\<close>)
  qed (use assms in \<open>simp add: handle_subscribe_def\<close>)
  with that show ?thesis by blast
qed

text \<open>What a handled PUBLISH did: the broker's result is the answer.\<close>

lemma handle_publish_cases:
  assumes "Some (r, s') \<in> set (handle_publish si ki payload k s)"
  obtains (invalid) "r = Some (ErrorsNew ''invalid PUBLISH payload'')" "s' = s"
        "\<And>m. decodePublish payload = Inr m \<Longrightarrow> pm_Topic m = []"
    | (published) m res err b where "decodePublish payload = Inr m" "pm_Topic m \<noteq> []"
        "Some ((res, err), b) \<in> set (PublishWithResult si ki None (event_of_message m) (sv_broker s))"
        "(r, s') = (case encodeAck (ack_of_result (pm_ID m) res err) of
           Inl e \<Rightarrow> (Some e, s\<lparr>sv_broker := b\<rparr>) | Inr p \<Rightarrow> conn_send (mk_frame TypeAck p) k (s\<lparr>sv_broker := b\<rparr>))"
proof (cases "\<exists>m. decodePublish payload = Inr m \<and> pm_Topic m \<noteq> []")
  case True
  then obtain m where m: "decodePublish payload = Inr m" "pm_Topic m \<noteq> []" by blast
  with assms obtain x where x: "x \<in> set (PublishWithResult si ki None (event_of_message m) (sv_broker s))"
      "Some (r, s') = map_option (\<lambda>((result, publishErr), b).
              (case encodeAck (ack_of_result (pm_ID m) result publishErr) of
                 Inl e \<Rightarrow> (Some e, s\<lparr>sv_broker := b\<rparr>)
               | Inr p \<Rightarrow> conn_send (mk_frame TypeAck p) k (s\<lparr>sv_broker := b\<rparr>))) x"
    by (auto simp: handle_publish_def)
  from x(2) obtain res err b where rb: "x = Some ((res, err), b)" by (cases x rule: option.exhaust) auto
  show ?thesis by (rule published [OF m x(1) [unfolded rb]]) (use x(2) rb in simp)
next
  case False
  with assms have "r = Some (ErrorsNew ''invalid PUBLISH payload'') \<and> s' = s"
    by (auto simp: handle_publish_def split: sum.splits)
  then show ?thesis using False by (intro invalid) auto
qed

lemma answered_state:
  assumes "(r, s') = (case x of Inl e \<Rightarrow> (Some e, s1) | Inr p \<Rightarrow> conn_send (f p) k s1)"
  obtains "s' = s1" | g where "s' = snd (conn_send g k s1)"
  using assms by (cases x) (auto, metis snd_conv)

lemma handle_publish_ok:
  assumes "server_ok s" "k < length (sv_heap s)" "iteration_order si" "iteration_order ki"
    and "Some (r, s') \<in> set (handle_publish si ki payload k s)"
  shows "server_ok s' \<and> length (sv_heap s') = length (sv_heap s)"
  using assms(5)
proof (cases rule: handle_publish_cases)
  case (published m res err b)
  note pub = reachable_Publish_op [OF server_okD(1) [OF assms(1)] assms(3,4) published(3)]
  have sb: "server_ok (s\<lparr>sv_broker := b\<rparr>)" by (rule server_ok_broker [OF assms(1)]) (use pub in simp_all)
  from published(4) show ?thesis
    using sb server_ok_send(1) [OF sb, of k] assms(2) by (cases rule: answered_state) simp_all
qed (use assms in simp)

lemma handle_ack_ok:
  assumes "server_ok s" "k < length (sv_heap s)" "handle_ack payload k s = (r, s')"
  shows "server_ok s' \<and> length (sv_heap s') = length (sv_heap s)"
proof -
  let ?co = "the_conn k s"
  have co: "conn_ok (length (b_heap (sv_broker s))) ?co" using server_okD(2) [OF assms(1,2)] .
  consider "s' = s" | st ch c where "ch < length (co_acks ?co)" "chan_send st (co_acks ?co ! ch) = SendOk c"
      "s' = put_conn k (?co\<lparr>co_acks := (co_acks ?co)[ch := c]\<rparr>) s"
  proof (cases "decodeAck payload")
    case (Inl e)
    with assms(3) have "s' = s" unfolding handle_ack_def by simp
    then show ?thesis by (rule that(1))
  next
    case (Inr ack)
    show ?thesis
    proof (cases "map_of (co_pendingAck ?co) (am_ID ack)")
      case (Some ch)
      then have ch: "ch < length (co_acks ?co)"
        using co map_of_SomeD [OF Some] by (force simp: conn_ok_def)
      show ?thesis
      proof (cases "chan_send (am_Status ack) (co_acks ?co ! ch)")
        case (SendOk c)
        with Some Inr assms(3) have "s' = put_conn k (?co\<lparr>co_acks := (co_acks ?co)[ch := c]\<rparr>) s"
          by (simp add: handle_ack_def Let_def)
        with ch SendOk show ?thesis by (rule that(2))
      qed (rule that(1), use Some Inr assms(3) in \<open>simp add: handle_ack_def Let_def\<close>)+
    qed (rule that(1), use assms(3) Inr in \<open>simp add: handle_ack_def Let_def\<close>)
  qed
  then show ?thesis
  proof cases
    case 2
    then have "chan_cap c = 1 \<and> length (chan_buf c) \<le> 1 \<and> \<not> chan_closed c"
      using co nth_mem [OF 2(1)] by (auto simp: conn_ok_def chan_send_def split: if_splits)
    then have "conn_ok (length (b_heap (sv_broker s))) (?co\<lparr>co_acks := (co_acks ?co)[ch := c]\<rparr>)"
      using co set_update_subset_insert [of "co_acks ?co" ch c] by (auto simp: conn_ok_def)
    then show ?thesis using 2(3) by (simp add: server_ok_conn [OF assms(1)])
  qed (use assms in simp)
qed

lemma handle_unsubscribe_ok:
  assumes "server_ok s" "k < length (sv_heap s)"
  obtains s' where "handle_unsubscribe payload k s = Some s'" "server_ok s'" "length (sv_heap s') = length (sv_heap s)"
proof (cases "decodeTopic payload")
  case (Inl e)
  with assms that show ?thesis by (simp add: handle_unsubscribe_def)
next
  case (Inr m)
  let ?co = "the_conn k s"
  let ?s1 = "put_conn k (?co\<lparr>co_subs := AList.delete (tm_Topic m) (co_subs ?co)\<rparr>) s"
  have s1: "server_ok ?s1"
    by (rule server_ok_fields [OF assms]) (use set_AList_delete_subset [of "tm_Topic m" "co_subs ?co"] in auto)
  show ?thesis
  proof (cases "map_of (co_subs ?co) (tm_Topic m)")
    case None
    with Inr s1 that show ?thesis by (simp add: handle_unsubscribe_def Let_def)
  next
    case (Some a)
    have "a < length (b_heap (sv_broker s))"
      using conn_ok_subs [OF server_okD(2) [OF assms]] map_of_SomeD [OF Some] by force
    then obtain b where b: "Subscription_Close a (sv_broker s) = Some b" "reachable b"
        "length (b_heap b) = length (b_heap (sv_broker s))"
      using server_okD(1) [OF assms(1)] by (auto elim: reachable_Subscription_Close)
    have "server_ok (?s1\<lparr>sv_broker := b\<rparr>)" by (rule server_ok_broker [OF s1]) (use b in simp_all)
    with Inr Some b(1) that [of "?s1\<lparr>sv_broker := b\<rparr>"] show ?thesis
      by (simp add: handle_unsubscribe_def Let_def)
  qed
qed

lemma report_ok:
  assumes "server_ok s" "k < length (sv_heap s)"
  shows "server_ok (report k (r, s))"
  using assms server_ok_send(2) [OF assms] by (simp add: report_def split: option.splits)

lemma handle_frame_ok:
  assumes "server_ok s" "k < length (sv_heap s)" "iteration_order si" "iteration_order ki"
    and "Some s' \<in> set (handle_frame si ki f k s)"
  shows "server_ok s'"
proof -
  have sub: "server_ok s'" if "Some s' = map_option (report k) (handle_subscribe (frame_payload f) k s)"
    by (rule handle_subscribe_ok [OF assms(1,2), of "frame_payload f"]) (use that assms(2) report_ok in auto)
  have pub: "server_ok s'" if "Some s' \<in> set (map (map_option (report k)) (handle_publish si ki (frame_payload f) k s))"
  proof -
    from that obtain r s1 where "Some (r, s1) \<in> set (handle_publish si ki (frame_payload f) k s)" "s' = report k (r, s1)"
      by (auto simp: map_option_case split: option.splits)
    with handle_publish_ok [OF assms(1-4)] assms(2) report_ok show ?thesis by metis
  qed
  have ack: "server_ok (report k (handle_ack (frame_payload f) k s))"
    using handle_ack_ok [OF assms(1,2), of "frame_payload f"] assms(2) report_ok
    by (cases "handle_ack (frame_payload f) k s") auto
  have uns: "server_ok s'" if "Some s' = handle_unsubscribe (frame_payload f) k s"
    by (rule handle_unsubscribe_ok [OF assms(1,2), of "frame_payload f"]) (use that in auto)
  show ?thesis
    using assms(5) sub pub ack uns server_ok_send [OF assms(1,2)]
    by (auto simp: handle_frame_def split: if_splits)
qed

text \<open>The turns of the serving goroutine, after the read that begins them.\<close>

inductive served :: "(u64 \<times> addr) iter \<Rightarrow> string iter \<Rightarrow> addr iter \<Rightarrow> addr \<Rightarrow> server \<Rightarrow> server \<Rightarrow> bool"
  for si ki ai k s where
  ended: "serve_end ai k s = Some s' \<Longrightarrow> served si ki ai k s s'"
| refused: "serve_end ai k (snd (sendError e k s)) = Some s' \<Longrightarrow> served si ki ai k s s'"
| greeted: "s' = put_conn k ((the_conn k s)\<lparr>co_phase := Serving\<rparr>) s \<Longrightarrow> served si ki ai k s s'"
| handled: "Some s' \<in> set (handle_frame si ki f k s) \<Longrightarrow> served si ki ai k s s'"

lemmas served_cases = served.cases [consumes 1, case_names ended refused greeted handled]

lemma serve_cases:
  assumes "Some s' \<in> set (serve si ki ai k s)"
  obtains (turn) cn where "served si ki ai k (put_conn k ((the_conn k s)\<lparr>co_net := cn\<rparr>) s) s'"
proof -
  obtain res cn where rd: "conn_read_frame (co_net (the_conn k s)) = (res, cn)" by (metis prod.exhaust)
  have "served si ki ai k (put_conn k ((the_conn k s)\<lparr>co_net := cn\<rparr>) s) s'"
    using assms rd
    by (auto simp: serve_def Let_def intro: ended [OF sym] refused [OF sym] greeted handled split: phase.splits sum.splits if_splits)
  with turn show ?thesis .
qed

lemma serve_ok:
  assumes "server_ok s" "k < length (sv_heap s)" "iteration_order si" "iteration_order ki" "iteration_order ai"
    and "Some s' \<in> set (serve si ki ai k s)"
  shows "server_ok s'"
  using assms(6)
proof (cases rule: serve_cases)
  case (turn cn)
  let ?s1 = "put_conn k ((the_conn k s)\<lparr>co_net := cn\<rparr>) s"
  have s1: "server_ok ?s1" and k1: "k < length (sv_heap ?s1)" using server_ok_net [OF assms(1,2)] assms(2) by simp_all
  from turn show ?thesis
  proof (cases rule: served_cases)
    case ended
    then show ?thesis by (auto intro: serve_end_ok [OF s1 k1 assms(5)])
  next
    case (refused e)
    have "k < length (sv_heap (snd (sendError e k ?s1)))" using k1 by simp
    from serve_end_ok [OF server_ok_send(2) [OF s1 k1] this assms(5)] refused show ?thesis by auto
  next
    case greeted
    show ?thesis unfolding greeted by (rule server_ok_fields [OF s1 k1]) simp_all
  next
    case (handled f)
    then show ?thesis using handle_frame_ok [OF s1 k1 assms(3,4)] by blast
  qed
qed

subsection \<open>Delivery\<close>

lemma conn_ok_delivery:
  assumes "conn_ok n co" "delivery_ok (length (co_acks co)) st"
  shows "conn_ok n (co\<lparr>co_deliveries := (co_deliveries co)[d := (fst (co_deliveries co ! d), st)]\<rparr>)"
proof (cases "d < length (co_deliveries co)")
  case True
  have "fst (co_deliveries co ! d) < n"
    using assms(1) nth_mem [OF True] by (auto simp: conn_ok_def)
  then show ?thesis
    using assms set_update_subset_insert [of "co_deliveries co" d "(fst (co_deliveries co ! d), st)"]
    by (auto simp: conn_ok_def)
qed (use assms(1) in \<open>simp add: conn_ok_def list_update_beyond\<close>)

lemma put_delivery_ok:
  assumes "server_ok s" "k < length (sv_heap s)" "delivery_ok (length (co_acks (the_conn k s))) st"
  shows "server_ok (put_delivery k d st s)"
  unfolding put_delivery_def Let_def
  by (rule server_ok_conn [OF assms(1) conn_ok_delivery [OF server_okD(2) [OF assms(1,2)] assms(3)]])

lemma deliver_return_ok:
  assumes "server_ok s" "k < length (sv_heap s)"
  shows "server_ok (deliver_return k d ev ok s)"
proof -
  let ?co = "the_conn k s"
  let ?s1 = "put_conn k (?co\<lparr>co_pendingAck := AList.delete (ev_ID ev) (co_pendingAck ?co)\<rparr>) s"
  have "conn_ok (length (b_heap (sv_broker s))) (?co\<lparr>co_pendingAck := AList.delete (ev_ID ev) (co_pendingAck ?co)\<rparr>)"
    using server_okD(2) [OF assms] set_AList_delete_subset [of "ev_ID ev" "co_pendingAck ?co"]
    by (auto simp: conn_ok_def)
  then have "server_ok ?s1" by (rule server_ok_conn [OF assms(1)])
  then show ?thesis
    unfolding deliver_return_def Let_def by (rule put_delivery_ok) (use assms(2) in auto)
qed

lemma deliver_retry_ok:
  assumes "server_ok s" "k < length (sv_heap s)" "delivery_ok (length (co_acks (the_conn k s))) (Awaiting ev p n ch)"
  shows "server_ok (deliver_retry k d ev p n ch s)"
  using assms deliver_return_ok [OF assms(1,2)]
  by (auto simp: deliver_retry_def intro!: put_delivery_ok)

lemma the_delivery_ok:
  assumes "server_ok s" "k < length (sv_heap s)" "d < length (co_deliveries (the_conn k s))"
  shows "fst (co_deliveries (the_conn k s) ! d) < length (b_heap (sv_broker s))"
    "delivery_ok (length (co_acks (the_conn k s))) (snd (co_deliveries (the_conn k s) ! d))"
  using server_okD(2) [OF assms(1,2)] nth_mem [OF assms(3)] by (auto simp: conn_ok_def)

lemma deliver_next_ok:
  assumes "server_ok s" "k < length (sv_heap s)" "d < length (co_deliveries (the_conn k s))"
    and "s' \<in> set (deliver_next k d s)"
  shows "server_ok s'"
proof -
  let ?co = "the_conn k s"
  let ?a = "fst (co_deliveries ?co ! d)"
  have stopped: "server_ok (put_delivery k d Stopped s0)" if "server_ok s0" "length (sv_heap s0) = length (sv_heap s)" for s0
    using that assms(2) by (intro put_delivery_ok) simp_all
  show ?thesis
  proof (cases "chan_recv (sub_events (b_heap (sv_broker s) ! ?a))")
    case (RecvOk ev c)
    then obtain b where b: "Receive ?a (sv_broker s) = Some (ev, b)" by (simp add: Receive_def)
    have sb: "server_ok (s\<lparr>sv_broker := b\<rparr>)"
      using reachable_Receive_op [OF server_okD(1) [OF assms(1)] the_delivery_ok(1) [OF assms(1-3)] b]
      by (intro server_ok_broker [OF assms(1)]) simp_all
    show ?thesis
    proof (cases "encodeEvent ev")
      case (Inl e)
      with assms(4) RecvOk b stopped [OF sb] show ?thesis by (simp add: deliver_next_def Let_def)
    next
      case (Inr p)
      let ?co1 = "?co\<lparr>co_acks := co_acks ?co @ [make_chan 1],
          co_pendingAck := AList.update (ev_ID ev) (length (co_acks ?co)) (co_pendingAck ?co)\<rparr>"
      have "delivery_ok (Suc m) st" if "delivery_ok m st" for m st using that by (cases st) auto
      then have "conn_ok (length (b_heap b)) ?co1"
        using server_okD(2) [OF sb, of k] assms(2)
          set_AList_update_subset [of "ev_ID ev" "length (co_acks ?co)" "co_pendingAck ?co"]
        by (fastforce simp: conn_ok_def make_chan_def)
      then have s1: "server_ok (put_conn k ?co1 (s\<lparr>sv_broker := b\<rparr>))"
        using sb by (intro server_ok_conn) simp_all
      have "server_ok (put_delivery k d (Sending ev p 1 (length (co_acks ?co))) (put_conn k ?co1 (s\<lparr>sv_broker := b\<rparr>)))"
        by (rule put_delivery_ok [OF s1]) (use assms(2) Inr in \<open>simp_all add: deliveryMaxAttempts_def\<close>)
      with assms(4) RecvOk b Inr show ?thesis by (simp add: deliver_next_def Let_def)
    qed
  qed (use assms stopped [OF assms(1)] in \<open>auto simp: deliver_next_def Let_def\<close>)
qed

lemma deliver_await_ok:
  assumes "server_ok s" "k < length (sv_heap s)" "delivery_ok (length (co_acks (the_conn k s))) (Awaiting ev p n ch)"
    and "s' \<in> set (deliver_await k d ev p n ch s)"
  shows "server_ok s'"
proof -
  let ?co = "the_conn k s"
  have ch: "ch < length (co_acks ?co)" using assms(3) by simp
  have s1: "server_ok (put_conn k (?co\<lparr>co_acks := (co_acks ?co)[ch := c]\<rparr>) s)"
    if "chan_recv (co_acks ?co ! ch) = RecvOk st c" for st c
  proof (rule server_ok_conn [OF assms(1)])
    have "chan_cap c = 1 \<and> length (chan_buf c) \<le> 1 \<and> \<not> chan_closed c"
      using that server_okD(2) [OF assms(1,2)] nth_mem [OF ch]
      by (auto simp: conn_ok_def chan_recv_def split: list.splits if_splits)
    then show "conn_ok (length (b_heap (sv_broker s))) (?co\<lparr>co_acks := (co_acks ?co)[ch := c]\<rparr>)"
      using server_okD(2) [OF assms(1,2)] set_update_subset_insert [of "co_acks ?co" ch c] by (auto simp: conn_ok_def)
  qed
  show ?thesis
  proof (cases "chan_recv (co_acks ?co ! ch)")
    case (RecvOk st c)
    let ?s1 = "put_conn k (?co\<lparr>co_acks := (co_acks ?co)[ch := c]\<rparr>) s"
    have "server_ok (deliver_return k d ev True ?s1)"
      by (rule deliver_return_ok [OF s1 [OF RecvOk]]) (use assms(2) in simp)
    moreover have "server_ok (deliver_retry k d ev p n ch ?s1)"
      by (rule deliver_retry_ok [OF s1 [OF RecvOk]]) (use assms(2,3) in simp_all)
    ultimately show ?thesis
      using assms(4) RecvOk deliver_retry_ok [OF assms(1-3)]
      by (auto simp: deliver_await_def Let_def split: if_splits)
  qed (use assms(4) deliver_retry_ok [OF assms(1-3)] in \<open>simp_all add: deliver_await_def\<close>)
qed

lemma deliver_ok:
  assumes "server_ok s" "k < length (sv_heap s)" "d < length (co_deliveries (the_conn k s))" "s' \<in> set (deliver k d s)"
  shows "server_ok s'"
proof (cases "snd (co_deliveries (the_conn k s) ! d)")
  case Ranging
  with assms deliver_next_ok [OF assms(1-3)] show ?thesis by (simp add: deliver_def)
next
  case (Sending ev p n ch)
  obtain err s1 where s1: "conn_send (mk_frame TypeEvent p) k s = (err, s1)" by (metis prod.exhaust)
  have ok: "server_ok s1" "length (sv_heap s1) = length (sv_heap s)"
    using server_ok_send(1) [OF assms(1,2)] conn_send_simps(6) [of "mk_frame TypeEvent p" k s] s1 by (metis snd_conv)+
  have "co_acks (the_conn k s1) = co_acks (the_conn k s)"
    using s1 assms(2) by (auto simp: conn_send_def split: prod.splits)
  then have "server_ok (put_delivery k d (Awaiting ev p n ch) s1)"
    using the_delivery_ok(2) [OF assms(1-3)] Sending ok assms(2) by (intro put_delivery_ok) simp_all
  with assms(4) Sending s1 deliver_return_ok [OF ok(1)] ok(2) assms(2) show ?thesis
    by (auto simp: deliver_def deliver_send_def split: option.splits)
next
  case (Awaiting ev p n ch)
  with assms(4) the_delivery_ok(2) [OF assms(1-3)] deliver_await_ok [OF assms(1,2)] show ?thesis
    by (simp add: deliver_def)
qed (use assms(4) in \<open>simp add: deliver_def\<close>)

subsection \<open>Accepting, closing and shutting down\<close>

lemma close_listener_simps [simp]:
  "sv_broker (close_listener s) = sv_broker s" "sv_heap (close_listener s) = sv_heap s"
  "sv_conns (close_listener s) = sv_conns s" "sv_closers (close_listener s) = sv_closers s"
  "sv_closed (close_listener s) = sv_closed s" "sv_draining (close_listener s) = sv_draining s"
  by (simp_all add: close_listener_def split: option.splits)

lemma server_ok_flags:
  assumes "server_ok s" "sv_broker s' = sv_broker s" "sv_heap s' = sv_heap s" "sv_conns s' = sv_conns s"
    "sv_closers s' = sv_closers s"
  shows "server_ok s'"
  using assms by (simp add: server_ok_def)

lemma Serve_accept_ok: "server_ok s \<Longrightarrow> server_ok (Serve_accept cn s)"
  by (fastforce simp: server_ok_def Serve_accept_def Let_def newConnection_def conn_ok_def)

lemma close_conns_ok:
  assumes "server_ok s" "\<forall>k \<in> set ks. k < length (sv_heap s)" "iteration_order ai"
  shows "\<exists>s'. close_conns ai ks s = Some s' \<and> server_ok s'"
  using assms
proof (induction ks arbitrary: s)
  case (Cons k ks)
  then obtain s1 where s1: "close_conn ai k s = Some s1" "server_ok s1" "length (sv_heap s1) = length (sv_heap s)"
    by (auto intro: close_conn_ok [of s k ai])
  with Cons.IH [OF s1(2)] Cons.prems show ?case by auto
qed simp

lemma Server_Close_ok:
  assumes "server_ok s" "iteration_order ci" "iteration_order ai"
  obtains s' where "Server_Close ci ai s = Some s'" "server_ok s'"
proof (cases "sv_closed s")
  case True
  with assms that show ?thesis by (simp add: Server_Close_def)
next
  case False
  let ?s1 = "close_listener (s\<lparr>sv_closed := True\<rparr>)"
  have "server_ok ?s1" by (rule server_ok_flags [OF assms(1)]) simp_all
  moreover have "\<forall>k \<in> set (ci (sv_conns s)). k < length (sv_heap ?s1)"
    using assms(2) server_okD(3) [OF assms(1)] by auto
  ultimately show ?thesis
    using close_conns_ok [OF _ _ assms(3), of ?s1 "ci (sv_conns s)"] False that by (auto simp: Server_Close_def)
qed

lemma mark_draining_ok:
  assumes "server_ok s" "\<forall>k \<in> set ks. k < length (sv_heap s)"
  shows "server_ok (fold mark_draining ks s) \<and> length (sv_heap (fold mark_draining ks s)) = length (sv_heap s)"
  using assms
proof (induction ks arbitrary: s)
  case (Cons k ks)
  have "server_ok (put_conn k ((the_conn k s)\<lparr>co_draining := True\<rparr>) s)"
    by (rule server_ok_fields [OF Cons.prems(1)]) (use Cons.prems(2) in simp_all)
  then have "server_ok (mark_draining k s)" "length (sv_heap (mark_draining k s)) = length (sv_heap s)"
    using Cons.prems(1) by (simp_all add: mark_draining_def Let_def)
  with Cons.IH [of "mark_draining k s"] Cons.prems(2) show ?case by simp
qed simp

lemma mark_draining_simps [simp]:
  "sv_broker (fold mark_draining ks s) = sv_broker s" "sv_conns (fold mark_draining ks s) = sv_conns s"
  "sv_closers (fold mark_draining ks s) = sv_closers s" "sv_closed (fold mark_draining ks s) = sv_closed s"
  "sv_draining (fold mark_draining ks s) = sv_draining s"
  by (induction ks arbitrary: s) (simp_all add: mark_draining_def Let_def)

lemma GracefulShutdown_ok:
  assumes "server_ok s" "iteration_order ci"
  shows "server_ok (GracefulShutdown ci s)"
proof (cases "sv_closed s")
  case True
  with assms show ?thesis by (simp add: GracefulShutdown_def)
next
  case False
  let ?s1 = "close_listener (s\<lparr>sv_closed := True, sv_draining := True\<rparr>)"
  let ?s2 = "?s1\<lparr>sv_broker := BeginShutdown (sv_broker ?s1)\<rparr>"
  let ?ks = "ci (sv_conns s)"
  have "server_ok ?s1" by (rule server_ok_flags [OF assms(1)]) simp_all
  moreover have "reachable (BeginShutdown (sv_broker s))"
    using server_okD(1) [OF assms(1)] step_BeginShutdown by (rule reach_step)
  ultimately have s2: "server_ok ?s2" by (intro server_ok_broker) (simp_all add: BeginShutdown_def)
  have ks: "\<forall>k \<in> set ?ks. k < length (sv_heap ?s2)"
    using assms(2) server_okD(3) [OF assms(1)] by auto
  have "server_ok ((fold mark_draining ?ks ?s2)\<lparr>sv_closers := sv_closers s @ map (\<lambda>k. (k, GracefulStart)) ?ks\<rparr>)"
    using mark_draining_ok [OF s2 ks] ks by (auto simp: server_ok_def Let_def)
  with False show ?thesis by (simp add: GracefulShutdown_def Let_def)
qed

lemma put_closer_ok:
  assumes "server_ok s" "g < length (sv_closers s)" "closer_ok (length (b_heap (sv_broker s))) c"
  shows "server_ok (put_closer g c s)"
proof -
  have "fst (sv_closers s ! g) < length (sv_heap s)"
    using server_okD(4) [OF assms(1), of "fst (sv_closers s ! g)" "snd (sv_closers s ! g)"] nth_mem [OF assms(2)] by simp
  then show ?thesis
    using assms set_update_subset_insert [of "sv_closers s" g "(fst (sv_closers s ! g), c)"]
    by (auto simp: server_ok_def put_closer_def Let_def)
qed

lemma graceful_finish_ok:
  assumes "server_ok s" "k < length (sv_heap s)"
  shows "server_ok (graceful_finish redirect k s)" "sv_closers (graceful_finish redirect k s) = sv_closers s"
proof -
  define s1 where "s1 = (case encodeShutdown \<lparr>sm_Redirect = redirect\<rparr> of Inl _ \<Rightarrow> s
      | Inr payload \<Rightarrow> snd (conn_send (mk_frame TypeShutdown payload) k s))"
  have s1: "server_ok s1" "k < length (sv_heap s1)" "sv_closers s1 = sv_closers s"
    using assms server_ok_send(1) [OF assms] by (simp_all add: s1_def split: sum.splits)
  have fin: "graceful_finish redirect k s = closeTransport k s1" by (simp add: graceful_finish_def s1_def)
  show "server_ok (graceful_finish redirect k s)"
    unfolding fin closeTransport_def Let_def by (rule server_ok_fields [OF s1(1,2)]) simp_all
  show "sv_closers (graceful_finish redirect k s) = sv_closers s"
    using s1(3) by (simp add: fin closeTransport_def Let_def)
qed

lemma gracefulClose_ok:
  assumes "server_ok s" "g < length (sv_closers s)" "iteration_order ai"
    and "Some s' \<in> set (gracefulClose ctx redirect ai g s)"
  shows "server_ok s'"
proof -
  let ?k = "fst (sv_closers s ! g)" and ?n = "length (b_heap (sv_broker s))"
  let ?co = "the_conn ?k s"
  have k: "?k < length (sv_heap s)" and c: "closer_ok ?n (snd (sv_closers s ! g))"
    using server_okD(4) [OF assms(1), of ?k "snd (sv_closers s ! g)"] nth_mem [OF assms(2)] by simp_all
  show ?thesis
  proof (cases "snd (sv_closers s ! g)")
    case GracefulStart
    have "server_ok (put_conn ?k (?co\<lparr>co_draining := True\<rparr>) s)"
      by (rule server_ok_fields [OF assms(1) k]) simp_all
    moreover have "closer_ok ?n (GracefulDrain (ai (map snd (co_subs ?co))))"
      using conn_ok_subs [OF server_okD(2) [OF assms(1) k]] assms(3) by auto
    ultimately have "server_ok (put_closer g (GracefulDrain (ai (map snd (co_subs ?co))))
        (put_conn ?k (?co\<lparr>co_draining := True\<rparr>) s))"
      using assms(2) by (intro put_closer_ok) simp_all
    with assms GracefulStart show ?thesis
      by (auto simp: gracefulClose_def Let_def put_closer_ok split: if_splits)
  next
    case (GracefulDrain as)
    show ?thesis
    proof (cases as)
      case Nil
      have "server_ok (put_closer g GracefulDone (graceful_finish redirect ?k s))"
        using graceful_finish_ok [OF assms(1) k] assms(2) by (intro put_closer_ok) simp_all
      with assms(4) GracefulDrain Nil show ?thesis by (auto simp: gracefulClose_def Let_def split: if_splits)
    next
      case (Cons a as')
      have a: "a < ?n" using c GracefulDrain Cons by simp
      obtain b where b: "Subscription_Close a (sv_broker s) = Some b" "reachable b" "length (b_heap b) = ?n"
        using server_okD(1) [OF assms(1)] a by (auto elim: reachable_Subscription_Close)
      have "server_ok (s\<lparr>sv_broker := b\<rparr>)" by (rule server_ok_broker [OF assms(1)]) (use b in simp_all)
      then have 1: "server_ok (put_closer g (GracefulDrain as') (s\<lparr>sv_broker := b\<rparr>))"
        using assms(2) c GracefulDrain Cons b(3) by (intro put_closer_ok) simp_all
      obtain s2 where s2: "close_conn ai ?k s = Some s2" "server_ok s2" "sv_closers s2 = sv_closers s"
        by (rule close_conn_ok [OF assms(1) k assms(3)])
      then have "server_ok (put_closer g GracefulDone s2)" using assms(2) by (intro put_closer_ok) simp_all
      with 1 assms(4) GracefulDrain Cons b(1) s2(1) show ?thesis
        by (auto simp: gracefulClose_def Let_def split: if_splits option.splits)
    qed
  qed (use assms(4) in \<open>simp add: gracefulClose_def\<close>)
qed

lemma server_ok_step: "server_step s s' \<Longrightarrow> server_ok s \<Longrightarrow> server_ok s'"
proof (induction rule: server_step.induct)
  case (s_listen s)
  then show ?case by (auto simp: Serve_listen_def intro: server_ok_flags)
next
  case (s_close ci ai s s')
  show ?case by (rule Server_Close_ok [OF s_close(4,1,2)]) (use s_close(3) in simp)
qed (blast intro: Serve_accept_ok serve_ok deliver_ok GracefulShutdown_ok gracefulClose_ok)+

lemma server_ok_init: "server_init s \<Longrightarrow> server_ok s"
  using reachable_New by (auto simp: server_init_def NewServer_def server_ok_def Let_def)

interpretation server_runs: invariant_system server_init server_step server_ok
  by unfold_locales (blast intro: server_ok_init server_ok_step)+

end
