(* ===== verification/Server_Evolution.thy ===== *)
theory Server_Evolution
  imports Server_Invariant
begin

text \<open>
  What no step of the server takes back. \<open>evolves\<close> is a preorder on server states that every
  operation respects: connections and subscriptions stay, a subscription that is closed and
  empty stays so, a delivery goroutine that has ended stays ended, and a connection that is
  draining stays draining and gains no subscription; a broker that is closed or draining stays
  so. The drain invariant of graceful shutdown rests on it.
\<close>

section \<open>The preorder\<close>

definition drained :: "subscription \<Rightarrow> bool" where
  "drained s \<longleftrightarrow> sub_closed s \<and> queue s = []"

definition broker_evolves :: "broker \<Rightarrow> broker \<Rightarrow> bool" where
  "broker_evolves b b' \<longleftrightarrow> length (b_heap b) \<le> length (b_heap b')
     \<and> (b_closed b \<longrightarrow> b_closed b') \<and> (b_draining b \<longrightarrow> b_draining b')
     \<and> (\<forall>a < length (b_heap b). drained (b_heap b ! a) \<longrightarrow> drained (b_heap b' ! a))"

definition deliveries_evolve :: "(addr \<times> delivery) list \<Rightarrow> (addr \<times> delivery) list \<Rightarrow> bool" where
  "deliveries_evolve ds ds' \<longleftrightarrow> length ds \<le> length ds'
     \<and> (\<forall>d < length ds. fst (ds' ! d) = fst (ds ! d) \<and> (snd (ds ! d) = Stopped \<longrightarrow> snd (ds' ! d) = Stopped))"

definition conn_evolves :: "connection \<Rightarrow> connection \<Rightarrow> bool" where
  "conn_evolves co co' \<longleftrightarrow> deliveries_evolve (co_deliveries co) (co_deliveries co')
     \<and> (co_draining co \<longrightarrow> co_draining co' \<and> snd ` set (co_subs co') \<subseteq> snd ` set (co_subs co))"

definition evolves :: "server \<Rightarrow> server \<Rightarrow> bool" where
  "evolves s s' \<longleftrightarrow> broker_evolves (sv_broker s) (sv_broker s') \<and> length (sv_heap s) \<le> length (sv_heap s')
     \<and> (\<forall>k < length (sv_heap s). conn_evolves (the_conn k s) (the_conn k s'))"

lemma broker_evolves_refl [simp]: "broker_evolves b b"
  by (simp add: broker_evolves_def)

lemma deliveries_evolve_refl [simp]: "deliveries_evolve ds ds"
  by (simp add: deliveries_evolve_def)

lemma deliveries_evolve_append [simp]: "deliveries_evolve ds (ds @ ds')"
  by (simp add: deliveries_evolve_def nth_append)

lemma conn_evolves_refl [simp]: "conn_evolves co co"
  by (simp add: conn_evolves_def)

lemma evolves_refl [simp]: "evolves s s"
  by (simp add: evolves_def)

lemma broker_evolves_trans: "broker_evolves b b1 \<Longrightarrow> broker_evolves b1 b2 \<Longrightarrow> broker_evolves b b2"
  by (auto simp: broker_evolves_def)

lemma deliveries_evolve_trans:
  "deliveries_evolve ds ds1 \<Longrightarrow> deliveries_evolve ds1 ds2 \<Longrightarrow> deliveries_evolve ds ds2"
  by (auto simp: deliveries_evolve_def)

lemma conn_evolves_trans: "conn_evolves co co1 \<Longrightarrow> conn_evolves co1 co2 \<Longrightarrow> conn_evolves co co2"
  unfolding conn_evolves_def using deliveries_evolve_trans by blast

lemma evolves_trans [trans]: "evolves s s1 \<Longrightarrow> evolves s1 s2 \<Longrightarrow> evolves s s2"
  unfolding evolves_def using broker_evolves_trans conn_evolves_trans by (meson order_less_le_trans order_trans)

text \<open>The shapes of a step: the broker moves, one connection changes, other fields change.\<close>

lemma evolves_broker: "broker_evolves (sv_broker s) b \<Longrightarrow> evolves s (s\<lparr>sv_broker := b\<rparr>)"
  by (simp add: evolves_def)

lemma evolves_conn: "conn_evolves (the_conn k s) co \<Longrightarrow> evolves s (put_conn k co s)"
  by (auto simp: evolves_def nth_update_at)

lemma evolves_conn_broker:
  "conn_evolves (the_conn k s) co \<Longrightarrow> broker_evolves (sv_broker s) b \<Longrightarrow> evolves s ((put_conn k co s)\<lparr>sv_broker := b\<rparr>)"
  by (auto simp: evolves_def nth_update_at)

lemma evolves_fields:
  "sv_broker s' = sv_broker s \<Longrightarrow> sv_heap s' = sv_heap s \<Longrightarrow> evolves s s'"
  by (simp add: evolves_def)

lemma conn_evolves_fields:
  assumes "deliveries_evolve (co_deliveries co) (co_deliveries co')" "co_draining co \<Longrightarrow> co_draining co'"
    "snd ` set (co_subs co') \<subseteq> snd ` set (co_subs co)"
  shows "conn_evolves co co'"
  using assms by (simp add: conn_evolves_def)

section \<open>The broker's operations\<close>

lemma Subscription_Close_evolves:
  assumes "reachable b" "a < length (b_heap b)" "Subscription_Close a b = Some b'"
  shows "broker_evolves b b'" "sub_closed (b_heap b' ! a)" "queue (b_heap b' ! a) = queue (b_heap b ! a)"
proof -
  have b': "b' = put_sub a (if sub_closed (b_heap b ! a) then b_heap b ! a else shut True (b_heap b ! a)) (unregister a b)"
    using Subscription_Close_eq [OF reachable_wf [OF assms(1)] assms(2)] assms(3) by simp
  show "broker_evolves b b'" "sub_closed (b_heap b' ! a)" "queue (b_heap b' ! a) = queue (b_heap b ! a)"
    using assms(2) by (auto simp: b' put_sub_def broker_evolves_def nth_update_at drained_def)
qed

lemma close_subs_evolves:
  assumes "reachable b" "\<forall>a \<in> set as. a < length (b_heap b)" "close_subs as b = Some b'"
  shows "broker_evolves b b'"
  using assms
proof (induction as arbitrary: b)
  case (Cons a as)
  then obtain b1 where b1: "Subscription_Close a b = Some b1" "close_subs as b1 = Some b'"
    by (auto split: bind_splits)
  have a: "a < length (b_heap b)" using Cons.prems by simp
  obtain b2 where "Subscription_Close a b = Some b2" "reachable b2" "length (b_heap b2) = length (b_heap b)"
    using Cons.prems(1) a by (rule reachable_Subscription_Close)
  with b1 Cons.IH [of b1] Cons.prems have "broker_evolves b1 b'" by auto
  with Subscription_Close_evolves(1) [OF Cons.prems(1) a b1(1)] show ?case by (rule broker_evolves_trans)
qed simp

lemma Subscribe_evolves:
  assumes "Subscribe t b = Some (r, b')"
  shows "broker_evolves b b'"
proof (cases "b_closed b \<or> b_draining b")
  case False
  with assms have "b' = subscribed t b" using Subscribe_eq [of b t] by simp
  then show ?thesis by (auto simp: subscribed_def Let_def broker_evolves_def nth_append)
qed (use assms in \<open>auto simp: Subscribe_def\<close>)

lemma Publish_evolves:
  assumes "reachable b" "iteration_order si" "Some (r, b') \<in> set (PublishWithResult si ki c ev b)"
  shows "broker_evolves b b'"
proof -
  have w: "wf_broker b" using assms(1) by (rule reachable_wf)
  have push: "broker_evolves b (push_all ev as b)" if "set as \<subseteq> set (subscribers (ev_Topic ev) b)" for as
    using routed_addrs(3) [OF w assms(2), of "ev_Topic ev"] that
    by (auto simp: broker_evolves_def drained_def)
  have rem: "broker_evolves b b1 \<Longrightarrow> broker_evolves b (remember ki t k b1)" for b1 t k
    by (simp add: broker_evolves_def)
  have cache: "broker_evolves b (cacheEvent ev b)" by (simp add: broker_evolves_def)
  from w assms(2,3) show ?thesis
  proof (cases rule: publish_outcomes)
    case (partial pre e)
    then show ?thesis using push [of pre] by auto
  qed (auto intro: rem cache push)
qed

lemma Receive_evolves:
  assumes "Receive a b = Some (x, b')"
  shows "broker_evolves b b'"
  using assms
  by (auto simp: Receive_def put_sub_def broker_evolves_def nth_update_at drained_def chan_recv_def
      split: recv_result.splits list.splits if_splits)


section \<open>Connections\<close>

lemma evolves_net: "evolves s (put_conn k ((the_conn k s)\<lparr>co_net := cn\<rparr>) s)"
  by (intro evolves_conn conn_evolves_fields) simp_all

lemma conn_send_evolves: "evolves s (snd (conn_send f k s))"
  using evolves_net by (simp add: conn_send_def case_prod_beta)

lemma sendError_evolves: "evolves s (snd (sendError e k s))"
  using conn_send_evolves by (simp add: sendError_def split: sum.splits)

lemma close_conn_evolves:
  assumes "server_ok s" "k < length (sv_heap s)" "iteration_order ai" "close_conn ai k s = Some s'"
  shows "evolves s s'"
proof (cases "co_closed (the_conn k s)")
  case False
  let ?co = "the_conn k s"
  obtain b where b: "close_subs (ai (map snd (co_subs ?co))) (sv_broker s) = Some b"
    and s': "s' = (put_conn k (?co\<lparr>co_closed := True, co_subs := [], co_net := conn_close (co_net ?co)\<rparr>) s)\<lparr>sv_broker := b\<rparr>"
    using assms(4) False by (auto simp: close_conn_def Let_def)
  have "\<forall>a \<in> set (ai (map snd (co_subs ?co))). a < length (b_heap (sv_broker s))"
    using conn_ok_subs [OF server_okD(2) [OF assms(1,2)]] assms(3) by auto
  from close_subs_evolves [OF server_okD(1) [OF assms(1)] this b] show ?thesis
    unfolding s' by (intro evolves_conn_broker conn_evolves_fields) simp_all
qed (use assms(4) in \<open>simp add: close_conn_def Let_def\<close>)

lemma serve_end_evolves:
  assumes "server_ok s" "k < length (sv_heap s)" "iteration_order ai" "serve_end ai k s = Some s'"
  shows "evolves s s'"
proof -
  obtain s1 where s1: "abort ai k s = Some s1"
    and s': "s' = removeConnection k (put_conn k ((the_conn k s1)\<lparr>co_phase := Ended\<rparr>) s1)"
    using assms(4) by (auto simp: serve_end_def)
  have "evolves s s1"
    using s1 close_conn_evolves [OF assms(1-3)] by (auto simp: abort_def split: if_splits)
  also have "evolves s1 (put_conn k ((the_conn k s1)\<lparr>co_phase := Ended\<rparr>) s1)"
    by (intro evolves_conn conn_evolves_fields) simp_all
  also have "evolves (put_conn k ((the_conn k s1)\<lparr>co_phase := Ended\<rparr>) s1) s'"
    unfolding s' by (rule evolves_fields) (simp_all add: removeConnection_def)
  finally show ?thesis .
qed

subsection \<open>Handlers\<close>

lemma handle_subscribe_evolves:
  assumes "server_ok s" "k < length (sv_heap s)" "handle_subscribe payload k s = Some (r, s')"
  shows "evolves s s'"
proof (cases "decodeTopic payload")
  case (Inr m)
  let ?t = "tm_Topic m" and ?co = "the_conn k s"
  show ?thesis
  proof (cases "?t = [] \<or> isDraining k s")
    case False
    obtain res b where b: "Subscribe ?t (sv_broker s) = Some (res, b)"
      using assms(3) Inr False by (cases "Subscribe ?t (sv_broker s)") (auto simp: handle_subscribe_def Let_def)
    note rb = reachable_Subscribe_op [OF server_okD(1) [OF assms(1)] b]
    note ev = Subscribe_evolves [OF b]
    show ?thesis
    proof (cases res)
      case (Inl e)
      with assms(3) Inr False b ev show ?thesis by (auto simp: handle_subscribe_def Let_def intro: evolves_broker)
    next
      case (Inr a)
      obtain b' where b': "(case map_of (co_subs ?co) ?t of None \<Rightarrow> Some b | Some old \<Rightarrow> Subscription_Close old b) = Some b'"
        and s': "s' = (put_conn k (?co\<lparr>co_subs := AList.update ?t a (co_subs ?co),
            co_deliveries := co_deliveries ?co @ [(a, Ranging)]\<rparr>) s)\<lparr>sv_broker := b'\<rparr>"
        using assms(3) \<open>decodeTopic payload = Inr m\<close> Inr False b by (auto simp: handle_subscribe_def Let_def)
      have "old < length (b_heap b)" if "map_of (co_subs ?co) ?t = Some old" for old
        using conn_ok_subs [OF server_okD(2) [OF assms(1,2)]] map_of_SomeD [OF that] rb(2) by force
      then have "broker_evolves b b'"
        using b' Subscription_Close_evolves(1) [OF rb(1)] by (auto split: option.splits)
      with ev have "broker_evolves (sv_broker s) b'" by (rule broker_evolves_trans)
      then show ?thesis
        unfolding s' using False by (intro evolves_conn_broker) (simp_all add: conn_evolves_def isDraining_def)
    qed
  qed (use assms(3) Inr in \<open>auto simp: handle_subscribe_def Let_def split: if_splits\<close>)
qed (use assms(3) in \<open>auto simp: handle_subscribe_def\<close>)

lemma handle_publish_evolves:
  assumes "server_ok s" "iteration_order si" "Some (r, s') \<in> set (handle_publish si ki payload k s)"
  shows "evolves s s'"
  using assms(3)
proof (cases rule: handle_publish_cases)
  case (published m res err b)
  have "evolves s (s\<lparr>sv_broker := b\<rparr>)"
    using Publish_evolves [OF server_okD(1) [OF assms(1)] assms(2) published(3)] by (rule evolves_broker)
  also have "evolves (s\<lparr>sv_broker := b\<rparr>) s'"
    using published(4) conn_send_evolves by (cases rule: answered_state) simp_all
  finally show ?thesis .
qed simp

lemma handle_ack_evolves: "evolves s (snd (handle_ack payload k s))"
  by (auto simp: handle_ack_def Let_def intro!: evolves_conn conn_evolves_fields
      split: sum.splits option.splits send_result.splits)

lemma handle_unsubscribe_evolves:
  assumes "server_ok s" "k < length (sv_heap s)" "handle_unsubscribe payload k s = Some s'"
  shows "evolves s s'"
proof (cases "decodeTopic payload")
  case (Inr m)
  let ?co = "the_conn k s" and ?t = "tm_Topic m"
  let ?co' = "?co\<lparr>co_subs := AList.delete ?t (co_subs ?co)\<rparr>"
  have co: "conn_evolves ?co ?co'"
    using set_AList_delete_subset [of ?t "co_subs ?co"] by (intro conn_evolves_fields) auto
  show ?thesis
  proof (cases "map_of (co_subs ?co) ?t")
    case None
    with assms(3) Inr co show ?thesis by (auto simp: handle_unsubscribe_def Let_def intro: evolves_conn)
  next
    case (Some a)
    then obtain b where b: "Subscription_Close a (sv_broker s) = Some b" and s': "s' = (put_conn k ?co' s)\<lparr>sv_broker := b\<rparr>"
      using assms(3) Inr by (auto simp: handle_unsubscribe_def Let_def)
    have "a < length (b_heap (sv_broker s))"
      using conn_ok_subs [OF server_okD(2) [OF assms(1,2)]] map_of_SomeD [OF Some] by force
    from Subscription_Close_evolves(1) [OF server_okD(1) [OF assms(1)] this b] co show ?thesis
      unfolding s' by (intro evolves_conn_broker)
  qed
qed (use assms(3) in \<open>auto simp: handle_unsubscribe_def\<close>)

lemma report_evolves: "evolves s (snd r) \<Longrightarrow> evolves s (report k r)"
  using sendError_evolves evolves_trans by (cases r) (auto simp: report_def split: option.splits)


lemma handle_frame_evolves:
  assumes "server_ok s" "k < length (sv_heap s)" "iteration_order si" "Some s' \<in> set (handle_frame si ki f k s)"
  shows "evolves s s'"
proof -
  have sub: "evolves s (report k r)" if "handle_subscribe (frame_payload f) k s = Some r" for r
    using handle_subscribe_evolves [OF assms(1,2), of _ "fst r" "snd r"] that by (intro report_evolves) simp
  have pub: "evolves s (report k r)" if "Some r \<in> set (handle_publish si ki (frame_payload f) k s)" for r
    using handle_publish_evolves [OF assms(1,3), of "fst r" "snd r"] that by (intro report_evolves) simp
  note unsub = handle_unsubscribe_evolves [OF assms(1,2), of "frame_payload f"]
  show ?thesis
    using assms(4) sub pub unsub sendError_evolves [of s] conn_send_evolves [of s] report_evolves [OF handle_ack_evolves]
    by (auto simp: handle_frame_def Some_map_option_iff split: if_splits)
qed

lemma serve_evolves:
  assumes "server_ok s" "k < length (sv_heap s)" "iteration_order si" "iteration_order ai"
    and "Some s' \<in> set (serve si ki ai k s)"
  shows "evolves s s'"
  using assms(5)
proof (cases rule: serve_cases)
  case (turn cn)
  let ?s1 = "put_conn k ((the_conn k s)\<lparr>co_net := cn\<rparr>) s"
  have s1: "server_ok ?s1" and k1: "k < length (sv_heap ?s1)" using server_ok_net [OF assms(1,2)] assms(2) by simp_all
  from turn have "evolves ?s1 s'"
  proof (cases rule: served_cases)
    case ended
    then show ?thesis by (rule serve_end_evolves [OF s1 k1 assms(4)])
  next
    case (refused e)
    have "evolves ?s1 (snd (sendError e k ?s1))" by (rule sendError_evolves)
    also have "evolves (snd (sendError e k ?s1)) s'"
      using k1 refused by (intro serve_end_evolves [OF server_ok_send(2) [OF s1 k1] _ assms(4)]) simp_all
    finally show ?thesis .
  next
    case greeted
    show ?thesis unfolding greeted by (intro evolves_conn conn_evolves_fields) simp_all
  next
    case (handled f)
    then show ?thesis by (rule handle_frame_evolves [OF s1 k1 assms(3)])
  qed
  with evolves_net show ?thesis by (rule evolves_trans)
qed

subsection \<open>Deliveries\<close>

lemma put_delivery_evolves:
  assumes "snd (co_deliveries (the_conn k s) ! d) \<noteq> Stopped"
  shows "evolves s (put_delivery k d st s)"
  using assms unfolding put_delivery_def Let_def
  by (intro evolves_conn conn_evolves_fields) (auto simp: deliveries_evolve_def nth_update_at)

text \<open>A step that first changes the connection in other fields.\<close>

lemma put_delivery_after:
  assumes "evolves s s1" "co_deliveries (the_conn k s1) = co_deliveries (the_conn k s)"
    and "snd (co_deliveries (the_conn k s) ! d) \<noteq> Stopped"
  shows "evolves s (put_delivery k d st s1)"
  using assms(1) put_delivery_evolves [of s1 k d st] assms(2,3) by (auto intro: evolves_trans)

lemma deliver_return_evolves:
  assumes "snd (co_deliveries (the_conn k s) ! d) \<noteq> Stopped" "k < length (sv_heap s)"
  shows "evolves s (deliver_return k d ev ok s)"
  using assms unfolding deliver_return_def Let_def
  by (intro put_delivery_after evolves_conn conn_evolves_fields) simp_all

lemma deliver_retry_evolves:
  assumes "snd (co_deliveries (the_conn k s) ! d) \<noteq> Stopped" "k < length (sv_heap s)"
  shows "evolves s (deliver_retry k d ev p n ch s)"
  using assms by (simp add: deliver_retry_def put_delivery_evolves deliver_return_evolves)

lemma deliver_next_evolves:
  assumes "snd (co_deliveries (the_conn k s) ! d) \<noteq> Stopped" "k < length (sv_heap s)" "s' \<in> set (deliver_next k d s)"
  shows "evolves s s'"
proof -
  let ?co = "the_conn k s"
  let ?a = "fst (co_deliveries ?co ! d)"
  define s1 where "s1 = (case Receive ?a (sv_broker s) of None \<Rightarrow> s | Some (_, b) \<Rightarrow> s\<lparr>sv_broker := b\<rparr>)"
  have s1: "evolves s s1" "sv_heap s1 = sv_heap s"
    using Receive_evolves [of ?a "sv_broker s"] by (auto simp: s1_def intro: evolves_broker split: option.splits)
  have "evolves s1 (put_conn k (?co\<lparr>co_acks := as, co_pendingAck := pa\<rparr>) s1)" for as pa
    using s1(2) by (intro evolves_conn conn_evolves_fields) simp_all
  with s1(1) have 1: "evolves s (put_conn k (?co\<lparr>co_acks := as, co_pendingAck := pa\<rparr>) s1)" for as pa
    by (rule evolves_trans)
  have 2: "evolves s (put_delivery k d st (put_conn k (?co\<lparr>co_acks := as, co_pendingAck := pa\<rparr>) s1))" for st as pa
    using 1 assms(1,2) s1(2) by (intro put_delivery_after) simp_all
  have 3: "evolves s (put_delivery k d Stopped s1)" using s1 assms(1) by (intro put_delivery_after) simp_all
  show ?thesis
    using assms(3) 2 3 put_delivery_evolves [OF assms(1)]
    by (auto simp: deliver_next_def Let_def simp flip: s1_def split: recv_result.splits sum.splits)
qed

lemma deliver_send_evolves:
  assumes "snd (co_deliveries (the_conn k s) ! d) \<noteq> Stopped" "k < length (sv_heap s)"
  shows "evolves s (deliver_send k d ev p n ch s)"
proof -
  obtain err s1 where s1: "conn_send (mk_frame TypeEvent p) k s = (err, s1)" by (metis prod.exhaust)
  have ev: "evolves s s1" using conn_send_evolves [of s "mk_frame TypeEvent p" k] s1 by simp
  have co: "co_deliveries (the_conn k s1) = co_deliveries (the_conn k s)" "k < length (sv_heap s1)"
    using s1 assms(2) by (auto simp: conn_send_def split: prod.splits)
  have "evolves s1 (deliver_return k d ev False s1)" using co assms(1) by (intro deliver_return_evolves) simp_all
  with ev have "evolves s (deliver_return k d ev False s1)" by (rule evolves_trans)
  with s1 ev co assms(1) show ?thesis
    by (auto simp: deliver_send_def intro: put_delivery_after split: option.splits)
qed

lemma deliver_await_evolves:
  assumes "snd (co_deliveries (the_conn k s) ! d) \<noteq> Stopped" "k < length (sv_heap s)"
    and "s' \<in> set (deliver_await k d ev p n ch s)"
  shows "evolves s s'"
proof -
  let ?co = "the_conn k s"
  define s1 where "s1 c = put_conn k (?co\<lparr>co_acks := (co_acks ?co)[ch := c]\<rparr>) s" for c
  have s1: "evolves s (s1 c)" "co_deliveries (the_conn k (s1 c)) = co_deliveries ?co" "k < length (sv_heap (s1 c))" for c
    using assms(2) by (auto simp: s1_def intro!: evolves_conn conn_evolves_fields)
  have 1: "evolves s (deliver_return k d ev True (s1 c))" for c
    using s1 assms(1) by (intro evolves_trans [OF s1(1) deliver_return_evolves]) simp_all
  have 2: "evolves s (deliver_retry k d ev p n ch (s1 c))" for c
    using s1 assms(1) by (intro evolves_trans [OF s1(1) deliver_retry_evolves]) simp_all
  show ?thesis
    using assms(3) 1 2 deliver_retry_evolves [OF assms(1,2)]
    by (auto simp: deliver_await_def Let_def simp flip: s1_def split: recv_result.splits if_splits)
qed

lemma deliver_evolves:
  assumes "k < length (sv_heap s)" "s' \<in> set (deliver k d s)"
  shows "evolves s s'"
  using assms(2) deliver_next_evolves [OF _ assms(1), of d] deliver_send_evolves [OF _ assms(1), of d]
    deliver_await_evolves [OF _ assms(1), of d]
  by (auto simp: deliver_def split: delivery.splits)


subsection \<open>Accepting and closing\<close>

lemma Serve_accept_evolves: "evolves s (Serve_accept cn s)"
  by (auto simp: evolves_def Serve_accept_def nth_append)

lemma close_conns_evolves:
  assumes "server_ok s" "\<forall>k \<in> set ks. k < length (sv_heap s)" "iteration_order ai" "close_conns ai ks s = Some s'"
  shows "evolves s s'"
  using assms
proof (induction ks arbitrary: s)
  case (Cons k ks)
  then obtain s1 where s1: "close_conn ai k s = Some s1" "close_conns ai ks s1 = Some s'"
    by (auto split: bind_splits)
  have k: "k < length (sv_heap s)" using Cons.prems by simp
  obtain s2 where "close_conn ai k s = Some s2" "server_ok s2" "length (sv_heap s2) = length (sv_heap s)"
    by (rule close_conn_ok [OF Cons.prems(1) k assms(3)])
  with s1 have "evolves s1 s'" using Cons.IH [of s1] Cons.prems by simp
  with close_conn_evolves [OF Cons.prems(1) k assms(3) s1(1)] show ?case by (rule evolves_trans)
qed simp

lemma Server_Close_evolves:
  assumes "server_ok s" "iteration_order ci" "iteration_order ai" "Server_Close ci ai s = Some s'"
  shows "evolves s s'"
proof (cases "sv_closed s")
  case False
  let ?s1 = "close_listener (s\<lparr>sv_closed := True\<rparr>)"
  have "server_ok ?s1" by (rule server_ok_flags [OF assms(1)]) simp_all
  moreover have "\<forall>k \<in> set (ci (sv_conns s)). k < length (sv_heap ?s1)"
    using assms(2) server_okD(3) [OF assms(1)] by auto
  moreover have "close_conns ai (ci (sv_conns s)) ?s1 = Some s'" using assms(4) False by (simp add: Server_Close_def)
  ultimately have "evolves ?s1 s'" using close_conns_evolves assms(3) by blast
  then show ?thesis by (simp add: evolves_def)
qed (use assms(4) in \<open>simp add: Server_Close_def\<close>)

lemma mark_draining_evolves: "evolves s (fold mark_draining ks s)"
proof (induction ks arbitrary: s)
  case (Cons k ks)
  have "evolves s (mark_draining k s)"
    by (auto simp: mark_draining_def Let_def intro!: evolves_conn conn_evolves_fields)
  then have "evolves s (fold mark_draining ks (mark_draining k s))" using Cons.IH by (rule evolves_trans)
  then show ?case by simp
qed simp

lemma GracefulShutdown_evolves: "evolves s (GracefulShutdown ci s)"
proof (cases "sv_closed s")
  case False
  let ?s1 = "close_listener (s\<lparr>sv_closed := True, sv_draining := True\<rparr>)"
  let ?s2 = "?s1\<lparr>sv_broker := BeginShutdown (sv_broker ?s1)\<rparr>"
  have "evolves s ?s2" by (simp add: evolves_def broker_evolves_def BeginShutdown_def)
  then have "evolves s (fold mark_draining (ci (sv_conns s)) ?s2)"
    using mark_draining_evolves by (rule evolves_trans)
  with False show ?thesis by (simp add: GracefulShutdown_def Let_def evolves_def)
qed (simp add: GracefulShutdown_def)

lemma put_closer_evolves: "evolves s s1 \<Longrightarrow> evolves s (put_closer g c s1)"
  by (simp add: evolves_def put_closer_def)

lemma graceful_finish_evolves: "evolves s (graceful_finish redirect k s)"
proof -
  have 1: "evolves s1 (closeTransport k s1)" for s1
    by (auto simp: closeTransport_def Let_def intro!: evolves_conn conn_evolves_fields)
  show ?thesis
    using 1 evolves_trans [OF conn_send_evolves 1] by (auto simp: graceful_finish_def split: sum.splits)
qed

lemma gracefulClose_evolves:
  assumes "server_ok s" "g < length (sv_closers s)" "iteration_order ai"
    and "Some s' \<in> set (gracefulClose ctx redirect ai g s)"
  shows "evolves s s'"
proof -
  let ?k = "fst (sv_closers s ! g)" and ?n = "length (b_heap (sv_broker s))"
  have k: "?k < length (sv_heap s)" and c: "closer_ok ?n (snd (sv_closers s ! g))"
    using server_okD(4) [OF assms(1), of ?k "snd (sv_closers s ! g)"] nth_mem [OF assms(2)] by simp_all
  have start: "evolves s (put_conn ?k ((the_conn ?k s)\<lparr>co_draining := True\<rparr>) s)"
    by (intro evolves_conn conn_evolves_fields) simp_all
  have sub: "evolves s (s\<lparr>sv_broker := b\<rparr>)" if "Subscription_Close a (sv_broker s) = Some b" "a < ?n" for a b
    using Subscription_Close_evolves(1) [OF server_okD(1) [OF assms(1)] that(2,1)] by (rule evolves_broker)
  note close = close_conn_evolves [OF assms(1) k assms(3)]
  show ?thesis
    using assms(4) c start sub close graceful_finish_evolves
    by (auto simp: gracefulClose_def Let_def Some_map_option_iff intro!: put_closer_evolves
        split: closer.splits list.splits option.splits if_splits)
qed

text \<open>Every step respects the preorder.\<close>

lemma server_step_evolves: "server_step s s' \<Longrightarrow> server_ok s \<Longrightarrow> evolves s s'"
proof (induction rule: server_step.induct)
  case (s_listen s)
  then show ?case by (simp add: Serve_listen_def evolves_def)
qed (blast intro: Serve_accept_evolves serve_evolves deliver_evolves Server_Close_evolves
    GracefulShutdown_evolves gracefulClose_evolves)+

lemma server_steps_evolve:
  assumes "server_step\<^sup>*\<^sup>* s s'" "server_ok s"
  shows "server_ok s' \<and> evolves s s'"
  using assms by (induction rule: rtranclp_induct) (auto intro: server_ok_step server_step_evolves evolves_trans)

section \<open>The drain invariant\<close>

text \<open>
  While a connection is being closed gracefully, each of its subscriptions is still to be
  drained or is closed and empty.
\<close>

definition closer_drains :: "server \<Rightarrow> addr \<times> closer \<Rightarrow> bool" where
  "closer_drains s c \<longleftrightarrow>
     (case c of
        (k, GracefulDrain as) \<Rightarrow> co_draining (the_conn k s)
          \<and> (\<forall>a \<in> snd ` set (co_subs (the_conn k s)). a \<in> set as \<or> drained (b_heap (sv_broker s) ! a))
      | _ \<Rightarrow> True)"

definition drain_ok :: "server \<Rightarrow> bool" where
  "drain_ok s \<longleftrightarrow> server_ok s \<and> (\<forall>c \<in> set (sv_closers s). closer_drains s c)"

lemma closer_drains_evolves:
  assumes "closer_drains s c" "evolves s s'" "server_ok s" "fst c < length (sv_heap s)"
  shows "closer_drains s' c"
proof (cases c)
  case (Pair k cl)
  show ?thesis
  proof (cases cl)
    case (GracefulDrain as)
    have ev: "conn_evolves (the_conn k s) (the_conn k s')" using assms(2,4) Pair by (simp add: evolves_def)
    have "drained (b_heap (sv_broker s) ! a) \<Longrightarrow> drained (b_heap (sv_broker s') ! a)"
      if "a \<in> snd ` set (co_subs (the_conn k s))" for a
      using conn_ok_subs [OF server_okD(2) [OF assms(3), of k]] that assms(2,4) Pair
      by (auto simp: evolves_def broker_evolves_def)
    with assms(1) ev Pair GracefulDrain show ?thesis
      by (fastforce simp: closer_drains_def conn_evolves_def)
  qed (use Pair in \<open>simp_all add: closer_drains_def\<close>)
qed


text \<open>Only shutting down moves the closers and the flags.\<close>

abbreviation shutdown_part :: "server \<Rightarrow> (addr \<times> closer) list \<times> bool \<times> bool" where
  "shutdown_part s \<equiv> (sv_closers s, sv_closed s, sv_draining s)"

lemma close_conn_part: "close_conn ai k s = Some s' \<Longrightarrow> shutdown_part s' = shutdown_part s"
  by (auto simp: close_conn_def Let_def split: if_splits)

lemma serve_end_part: "serve_end ai k s = Some s' \<Longrightarrow> shutdown_part s' = shutdown_part s"
  by (auto simp: serve_end_def abort_def removeConnection_def dest: close_conn_part split: if_splits)

lemma handle_subscribe_part: "handle_subscribe p k s = Some r \<Longrightarrow> shutdown_part (snd r) = shutdown_part s"
  by (auto simp: handle_subscribe_def Let_def split: sum.splits option.splits if_splits)

lemma handle_publish_part: "Some r \<in> set (handle_publish si ki p k s) \<Longrightarrow> shutdown_part (snd r) = shutdown_part s"
proof (cases r)
  case (Pair e s')
  assume "Some r \<in> set (handle_publish si ki p k s)"
  then have "Some (e, s') \<in> set (handle_publish si ki p k s)" using Pair by simp
  then have "shutdown_part s' = shutdown_part s"
  proof (cases rule: handle_publish_cases)
    case (published m res err b)
    from published(4) show ?thesis by (cases rule: answered_state) simp_all
  qed simp
  then show ?thesis using Pair by simp
qed

lemma handle_ack_part [simp]:
  "sv_closers (snd (handle_ack p k s)) = sv_closers s" "sv_closed (snd (handle_ack p k s)) = sv_closed s" "sv_draining (snd (handle_ack p k s)) = sv_draining s"
  by (simp_all add: handle_ack_def Let_def split: sum.splits option.splits send_result.splits)

lemma handle_unsubscribe_part: "handle_unsubscribe p k s = Some s' \<Longrightarrow> shutdown_part s' = shutdown_part s"
  by (auto simp: handle_unsubscribe_def Let_def split: sum.splits option.splits)

lemma report_part [simp]:
  "sv_closers (report k r) = sv_closers (snd r)" "sv_closed (report k r) = sv_closed (snd r)" "sv_draining (report k r) = sv_draining (snd r)"
  by (auto simp: report_def split: prod.splits option.splits)

lemma handle_frame_part: "Some s' \<in> set (handle_frame si ki f k s) \<Longrightarrow> shutdown_part s' = shutdown_part s"
  by (auto simp: handle_frame_def Some_map_option_iff
      dest!: handle_subscribe_part handle_publish_part handle_unsubscribe_part [OF sym] split: if_splits)

lemma serve_part:
  assumes "Some s' \<in> set (serve si ki ai k s)"
  shows "shutdown_part s' = shutdown_part s"
  using assms
proof (cases rule: serve_cases)
  case (turn cn)
  from this(1) show ?thesis
    by (cases rule: served_cases) (auto dest: serve_end_part handle_frame_part)
qed

lemma put_delivery_part [simp]:
  "sv_closers (put_delivery k d st s) = sv_closers s" "sv_closed (put_delivery k d st s) = sv_closed s" "sv_draining (put_delivery k d st s) = sv_draining s"
  by (simp_all add: put_delivery_def Let_def)

lemma deliver_return_part [simp]:
  "sv_closers (deliver_return k d ev ok s) = sv_closers s" "sv_closed (deliver_return k d ev ok s) = sv_closed s" "sv_draining (deliver_return k d ev ok s) = sv_draining s"
  by (simp_all add: deliver_return_def Let_def)

lemma deliver_retry_part [simp]:
  "sv_closers (deliver_retry k d ev p n ch s) = sv_closers s" "sv_closed (deliver_retry k d ev p n ch s) = sv_closed s" "sv_draining (deliver_retry k d ev p n ch s) = sv_draining s"
  by (simp_all add: deliver_retry_def)

lemma deliver_part:
  assumes "s' \<in> set (deliver k d s)"
  shows "shutdown_part s' = shutdown_part s"
proof -
  have "shutdown_part (deliver_send k d ev p n ch s) = shutdown_part s" for ev p n ch
    by (simp add: deliver_send_def case_prod_beta split: option.splits)
  with assms show ?thesis
    by (auto simp: deliver_def deliver_next_def deliver_await_def Let_def
        split: delivery.splits recv_result.splits sum.splits option.splits if_splits)
qed

lemma close_conns_closers: "close_conns ai ks s = Some s' \<Longrightarrow> sv_closers s' = sv_closers s"
  by (induction ks arbitrary: s) (auto split: bind_splits dest!: close_conn_part)

lemma Server_Close_closers: "Server_Close ci ai s = Some s' \<Longrightarrow> sv_closers s' = sv_closers s"
  by (auto simp: Server_Close_def dest!: close_conns_closers split: if_splits)

lemma drain_ok_evolves:
  assumes "drain_ok s" "evolves s s'" "server_ok s'" "sv_closers s' = sv_closers s"
  shows "drain_ok s'"
  unfolding drain_ok_def
proof (intro conjI ballI)
  fix c
  assume "c \<in> set (sv_closers s')"
  then have c: "c \<in> set (sv_closers s)" using assms(4) by simp
  have ok: "server_ok s" and drains: "closer_drains s c" using assms(1) c by (simp_all add: drain_ok_def)
  have "fst c < length (sv_heap s)" using server_okD(4) [OF ok, of "fst c" "snd c"] c by simp
  with closer_drains_evolves [OF drains assms(2) ok] show "closer_drains s' c" .
qed (rule assms(3))

text \<open>A step of one closer: the others keep, and the new one is checked.\<close>

lemma drain_ok_put_closer:
  assumes "drain_ok s" "evolves s s'" "sv_closers s' = sv_closers s" "g < length (sv_closers s)"
    and "server_ok (put_closer g c s')" "closer_drains s' (fst (sv_closers s ! g), c)"
  shows "drain_ok (put_closer g c s')"
  unfolding drain_ok_def
proof (intro conjI ballI)
  fix x
  assume x: "x \<in> set (sv_closers (put_closer g c s'))"
  have same: "closer_drains (put_closer g c s') = closer_drains s'"
    by (intro ext) (simp add: closer_drains_def put_closer_def split: prod.splits closer.splits)
  have "x \<in> set (sv_closers s) \<or> x = (fst (sv_closers s ! g), c)"
    using x assms(3) set_update_subset_insert [of "sv_closers s" g "(fst (sv_closers s ! g), c)"]
    by (auto simp: put_closer_def)
  then show "closer_drains (put_closer g c s') x"
  proof
    assume c: "x \<in> set (sv_closers s)"
    have ok: "server_ok s" and drains: "closer_drains s x" using assms(1) c by (simp_all add: drain_ok_def)
    have "fst x < length (sv_heap s)" using server_okD(4) [OF ok, of "fst x" "snd x"] c by simp
    with closer_drains_evolves [OF drains assms(2) ok] show ?thesis by (simp add: same)
  qed (use assms(6) same in simp)
qed (rule assms(5))


lemma gracefulClose_drains:
  assumes "drain_ok s" "g < length (sv_closers s)" "iteration_order ai"
    and "Some s' \<in> set (gracefulClose ctx redirect ai g s)"
  shows "drain_ok s'"
proof -
  let ?k = "fst (sv_closers s ! g)" and ?n = "length (b_heap (sv_broker s))"
  let ?co = "the_conn ?k s"
  have ok: "server_ok s" and cd: "closer_drains s (sv_closers s ! g)"
    using assms(1,2) by (simp_all add: drain_ok_def)
  have k: "?k < length (sv_heap s)" and c: "closer_ok ?n (snd (sv_closers s ! g))"
    using server_okD(4) [OF ok, of ?k "snd (sv_closers s ! g)"] nth_mem [OF assms(2)] by simp_all
  have s': "server_ok s'" using gracefulClose_ok [OF ok assms(2-4)] .
  have step: "drain_ok s'" if "s' = put_closer g cl s1" "evolves s s1" "sv_closers s1 = sv_closers s"
      "closer_drains s1 (?k, cl)" for s1 cl
    using drain_ok_put_closer [OF assms(1) that(2,3) assms(2) s' [unfolded that(1)] that(4)] that(1) by simp
  have fin: "drain_ok s'" if "s' = put_closer g GracefulDone s1" "evolves s s1" "sv_closers s1 = sv_closers s" for s1
    by (rule step [OF that]) (simp add: closer_drains_def)
  show ?thesis
  proof (cases "snd (sv_closers s ! g)")
    case GracefulStart
    let ?s1 = "put_conn ?k (?co\<lparr>co_draining := True\<rparr>) s"
    let ?cl = "GracefulDrain (ai (map snd (co_subs ?co)))"
    have "evolves s ?s1" by (intro evolves_conn conn_evolves_fields) simp_all
    moreover have "closer_drains ?s1 (?k, ?cl)" using k assms(3) by (auto simp: closer_drains_def)
    ultimately have "s' = put_closer g ?cl ?s1 \<Longrightarrow> drain_ok s'" by (intro step [of ?cl ?s1]) simp_all
    with GracefulStart assms(4) fin [OF _ evolves_refl] show ?thesis
      by (auto simp: gracefulClose_def Let_def split: if_splits)
  next
    case (GracefulDrain as)
    show ?thesis
    proof (cases as)
      case Nil
      with GracefulDrain assms(4) have "s' = put_closer g GracefulDone (graceful_finish redirect ?k s)"
        by (auto simp: gracefulClose_def Let_def split: if_splits)
      then show ?thesis using graceful_finish_ok(2) [OF ok k] graceful_finish_evolves by (intro fin)
    next
      case (Cons a as')
      have a: "a < ?n" using c GracefulDrain Cons by simp
      have "drain_ok s'" if b: "Subscription_Close a (sv_broker s) = Some b" "queue (b_heap (sv_broker s) ! a) = []"
          and s'b: "s' = put_closer g (GracefulDrain as') (s\<lparr>sv_broker := b\<rparr>)" for b
      proof (rule step [OF s'b])
        note ev = Subscription_Close_evolves [OF server_okD(1) [OF ok] a b(1)]
        show "evolves s (s\<lparr>sv_broker := b\<rparr>)" by (rule evolves_broker [OF ev(1)])
        have "drained (b_heap b ! a)" using ev(2,3) b(2) by (simp add: drained_def)
        moreover have "drained (b_heap (sv_broker s) ! x) \<Longrightarrow> drained (b_heap b ! x)"
          if "x \<in> snd ` set (co_subs ?co)" for x
          using ev(1) conn_ok_subs [OF server_okD(2) [OF ok k]] that by (auto simp: broker_evolves_def)
        ultimately show "closer_drains (s\<lparr>sv_broker := b\<rparr>) (?k, GracefulDrain as')"
          using cd GracefulDrain Cons by (cases "sv_closers s ! g") (fastforce simp: closer_drains_def)
      qed simp
      moreover have "drain_ok s'" if "close_conn ai ?k s = Some s1" "s' = put_closer g GracefulDone s1" for s1
        using fin [OF that(2) close_conn_evolves [OF ok k assms(3) that(1)]] close_conn_part [OF that(1)] by simp
      ultimately show ?thesis
        using GracefulDrain Cons assms(4)
        by (auto simp: gracefulClose_def Let_def Some_map_option_iff split: if_splits option.splits)
    qed
  qed (use assms(4) in \<open>simp add: gracefulClose_def\<close>)
qed

lemma GracefulShutdown_drains:
  assumes "drain_ok s" "iteration_order ci"
  shows "drain_ok (GracefulShutdown ci s)"
  unfolding drain_ok_def
proof (intro conjI ballI)
  have ok: "server_ok s" using assms(1) by (simp add: drain_ok_def)
  show "server_ok (GracefulShutdown ci s)" by (rule GracefulShutdown_ok [OF ok assms(2)])
  fix c
  assume "c \<in> set (sv_closers (GracefulShutdown ci s))"
  then have "c \<in> set (sv_closers s) \<or> snd c = GracefulStart"
    by (auto simp: GracefulShutdown_def Let_def split: if_splits)
  then show "closer_drains (GracefulShutdown ci s) c"
  proof
    assume c: "c \<in> set (sv_closers s)"
    then have "closer_drains s c" using assms(1) by (simp add: drain_ok_def)
    moreover have "fst c < length (sv_heap s)" using server_okD(4) [OF ok, of "fst c" "snd c"] c by simp
    ultimately show ?thesis using closer_drains_evolves [OF _ GracefulShutdown_evolves ok] by blast
  qed (cases c, simp add: closer_drains_def)
qed

lemma drain_ok_step:
  assumes "server_step s s'" "drain_ok s"
  shows "drain_ok s'"
proof -
  have ok: "server_ok s" using assms(2) by (simp add: drain_ok_def)
  note keep = drain_ok_evolves [OF assms(2) server_step_evolves [OF assms(1) ok] server_ok_step [OF assms(1) ok]]
  from assms(1) show ?thesis
  proof cases
    case s_graceful
    then show ?thesis using GracefulShutdown_drains [OF assms(2)] by simp
  next
    case (s_graceful_close g ai ctx redirect)
    then show ?thesis using gracefulClose_drains [OF assms(2)] by blast
  next
    case (s_close ci ai)
    then show ?thesis using Server_Close_closers by (intro keep)
  next
    case (s_serve k si ki ai)
    then show ?thesis using serve_part by (intro keep) blast
  next
    case (s_deliver k d)
    then show ?thesis using deliver_part by (intro keep) blast
  qed (rule keep; simp add: Serve_listen_def Serve_accept_def)+
qed

lemma drain_ok_init: "server_init s \<Longrightarrow> drain_ok s"
  using server_ok_init [of s] by (auto simp: drain_ok_def server_init_def NewServer_def)

interpretation drain_runs: invariant_system server_init server_step drain_ok
  by unfold_locales (blast intro: drain_ok_init drain_ok_step)+

end
