(* ===== verification/Server_Properties.thy ===== *)
theory Server_Properties
  imports Server_Evolution
begin

text \<open>
  Properties of the TCP server: every call it makes returns and keeps the broker sound, each
  publish is answered exactly once with the broker's verdict, a draining server refuses
  input, deliveries are retried a bounded number of times, and what graceful shutdown has
  waited for when it says good-bye.
\<close>

section \<open>A sample run\<close>

text \<open>A server with one connection, on which the client has subscribed to the topic \<open>t\<close>.\<close>

definition one_conn :: "broker \<Rightarrow> connection \<Rightarrow> server" where
  "one_conn b co =
     \<lparr>sv_broker = b, sv_listener = None, sv_closed = False, sv_draining = False, sv_heap = [co], sv_conns = [0],
      sv_closers = []\<rparr>"

definition subscriber_conn :: "conn \<Rightarrow> connection" where
  "subscriber_conn cn =
     (newConnection cn)\<lparr>co_phase := Serving, co_subs := [(''t'', 0)], co_deliveries := [(0, Ranging)]\<rparr>"

abbreviation sample_broker :: broker where
  "sample_broker \<equiv> subscribed ''t'' (broker_New sample_config)"

lemma one_conn_simps [simp]:
  "sv_broker (one_conn b co) = b" "sv_heap (one_conn b co) = [co]" "sv_closers (one_conn b co) = []"
  "put_conn 0 co' (one_conn b co) = one_conn b co'" "(one_conn b co)\<lparr>sv_broker := b'\<rparr> = one_conn b' co"
  "isDraining 0 (one_conn b co) = co_draining co" "sv_closed (one_conn b co) = False"
  by (simp_all add: one_conn_def put_conn_def isDraining_def)

lemma subscriber_conn_simps [simp]:
  "co_phase (subscriber_conn cn) = Serving" "co_subs (subscriber_conn cn) = [(''t'', 0)]"
  "co_deliveries (subscriber_conn cn) = [(0, Ranging)]" "co_net (subscriber_conn cn) = cn"
  "co_draining (subscriber_conn cn) = False" "co_acks (subscriber_conn cn) = []"
  "co_pendingAck (subscriber_conn cn) = []" "co_closed (subscriber_conn cn) = False"
  "(subscriber_conn cn)\<lparr>co_net := cn'\<rparr> = subscriber_conn cn'"
  by (simp_all add: subscriber_conn_def newConnection_def)

lemma sample_broker_simps [simp]:
  "length (b_heap sample_broker) = 1" "\<not> sub_closed (b_heap sample_broker ! 0)" "queue (b_heap sample_broker ! 0) = []"
  "chan_cap (sub_events (b_heap sample_broker ! 0)) = 2" "map_get [] (b_topics sample_broker) ''t'' = [(1, 0)]"
  "b_closed sample_broker = False" "b_draining sample_broker = False" "b_config sample_broker = sample_config"
  "b_dedup sample_broker = []"
  by (simp_all add: subscribed_def broker_New_def newSubscription_def map_get_def Let_def make_chan_def)

lemma reachable_sample_broker: "reachable sample_broker"
  by (rule reachable_Subscribe [OF reachable_New]) (simp_all add: broker_New_def Let_def)

lemma reach_subscriber:
  obtains cn where "reach server_init server_step (one_conn sample_broker (subscriber_conn cn))" "usable_conn cn"
    "rd_pending (cn_in cn) = bs" "sent_bytes cn = []"
proof -
  let ?R = "reach server_init server_step"
  let ?c = "mk_frame TypeConnect (string_field ''c'')" and ?f = "mk_frame TypeSubscribe (string_field ''t'')"
  let ?cn = "open_conn (frame_bytes ?c @ frame_bytes ?f @ bs)"
  have valid: "valid_frame ?c" "valid_frame ?f"
    by (simp_all add: valid_mk_frame TypeConnect_def TypeSubscribe_def string_field_def)
  let ?s0 = "NewServer (broker_New sample_config)"
  have "?R ?s0" by (rule reach_init) (auto simp: server_init_def)
  then have "?R (Serve_accept ?cn ?s0)" by (rule reach_step) (simp add: s_accept)
  moreover have "Serve_accept ?cn ?s0 = one_conn (broker_New sample_config) (newConnection ?cn)"
    by (simp add: Serve_accept_def NewServer_def one_conn_def)
  ultimately have 1: "?R (one_conn (broker_New sample_config) (newConnection ?cn))" by simp
  obtain r1 where r1: "read_frame (cn_in ?cn) = (Inr ?c, r1)" "rd_pending r1 = frame_bytes ?f @ bs"
    using read_frame_bytes [OF valid(1), of "cn_in ?cn"] by auto
  let ?cn1 = "?cn\<lparr>cn_in := r1\<rparr>"
  let ?co1 = "(newConnection ?cn1)\<lparr>co_phase := Serving\<rparr>"
  have "decodeConnect (string_field ''c'') = Inr \<lparr>cm_ClientID = ''c''\<rparr>"
    by (simp add: decodeConnect_iff short_string_def maxUint16_eq)
  then have "serve id id id 0 (one_conn (broker_New sample_config) (newConnection ?cn))
      = [Some (one_conn (broker_New sample_config) ?co1)]"
    using r1(1) by (simp add: serve_def newConnection_def conn_read_frame_def Let_def)
  then have 2: "?R (one_conn (broker_New sample_config) ?co1)"
    by (intro reach_step [OF 1] s_serve [of 0 _ id id id]) simp_all
  obtain r2 where r2: "read_frame r1 = (Inr ?f, r2)" "rd_pending r2 = bs"
    using read_frame_bytes [OF valid(2) r1(2)] by blast
  let ?cn2 = "?cn1\<lparr>cn_in := r2\<rparr>"
  have "decodeTopic (string_field ''t'') = Inr \<lparr>tm_Topic = ''t''\<rparr>"
    by (simp add: decodeTopic_iff short_string_def maxUint16_eq)
  moreover have "Subscribe ''t'' (broker_New sample_config) = Some (Inr 0, sample_broker)"
    by (subst Subscribe_eq) (simp_all add: broker_New_def Let_def)
  ultimately have "serve id id id 0 (one_conn (broker_New sample_config) ?co1)
      = [Some (one_conn sample_broker (subscriber_conn ?cn2))]"
    using r2(1) by (simp add: serve_def newConnection_def conn_read_frame_def handle_frame_def handle_subscribe_def
        report_def subscriber_conn_def Let_def)
  then have "?R (one_conn sample_broker (subscriber_conn ?cn2))"
    by (intro reach_step [OF 2] s_serve [of 0 _ id id id]) simp_all
  moreover have "usable_conn ?cn2" "sent_bytes ?cn2 = []"
    using open_conn_simps(1,3) [of "frame_bytes ?c @ frame_bytes ?f @ bs"] by simp_all
  ultimately show ?thesis using that r2(2) by simp
qed

section \<open>Handlers return\<close>






section \<open>Publishing\<close>

text \<open>
  Without a context only four errors reach the answer, so it always fits its frame.
\<close>

lemma enqueue_errors:
  "Returns (Some e) s' \<in> set (enqueue None ev p s) \<Longrightarrow> e \<in> {ErrSubscription, ErrQueueFull}"
  by (auto simp: enqueue_def enqueue_enter_def enqueue_select_def done_case_def ctx_case_def send_case_def Let_def
      elim!: enqueue_exit.elims split: if_splits send_result.splits)

lemma fan_out_errors:
  "Some (Some e, b') \<in> set (fan_out None ev p as b) \<Longrightarrow> e \<in> {ErrSubscription, ErrQueueFull}"
proof (induction as arbitrary: b)
  case (Cons a as)
  then obtain out where out: "out \<in> set (enqueue None ev p (b_heap b ! a))"
      and r: "Some (Some e, b') \<in> set (case out of Panics \<Rightarrow> [None] | Returns (Some e) s \<Rightarrow> [Some (Some e, put_sub a s b)]
         | Returns None s \<Rightarrow> fan_out None ev p as (put_sub a s b))"
    by auto
  show ?case
  proof (cases out rule: outcome.exhaust)
    case (Returns err s)
    show ?thesis
    proof (cases err rule: option.exhaust)
      case None
      with r Returns Cons.IH show ?thesis by simp
    next
      case (Some e')
      with r Returns out enqueue_errors [of e' s ev p "b_heap b ! a"] show ?thesis by simp
    qed
  qed (use r in simp)
qed simp

lemma publish_errors:
  assumes "Some ((res, Some e), b') \<in> set (PublishWithResult si ki None ev b)"
  shows "e \<in> {ErrClosed, ErrDraining, ErrSubscription, ErrQueueFull}"
proof (cases "publish_begin si ki ev b")
  case (StartReturns r err b1)
  with assms have "err = Some e" by (simp add: PublishWithResult_def)
  with StartReturns show ?thesis by (auto simp: publish_begin_def Let_def split: if_splits)
next
  case (StartRoutes as p)
  with assms obtain x where "Some x \<in> set (fan_out None ev p as b)" "publish_end ki ev x = ((res, Some e), b')"
    by (auto simp: PublishWithResult_def Some_map_option_iff)
  then show ?thesis
    using fan_out_errors [of e "snd x" ev p as b] by (auto simp: publish_end_def split: prod.splits option.splits)
qed

lemma ack_of_result_fits:
  assumes "Some ((res, err), b') \<in> set (PublishWithResult si ki None ev b)" "short_string i"
  shows "ack_fits (ack_of_result i res err)"
proof (cases err)
  case (Some e)
  with publish_errors assms(1) have "e \<in> {ErrClosed, ErrDraining, ErrSubscription, ErrQueueFull}" by blast
  then have "length (error_text e) \<le> 100" by auto
  with assms(2) Some show ?thesis by (auto simp: ack_of_result_def Let_def ack_fits_def short_string_def maxUint16_eq)
qed (use assms(2) in \<open>auto simp: ack_of_result_def Let_def ack_fits_def short_string_def\<close>)

text \<open>Reading one frame of a connection that has been greeted.\<close>

lemma serve_turn:
  assumes "co_phase (the_conn k s) = Serving" "\<not> cn_closed (co_net (the_conn k s))" "valid_frame f"
    "rd_pending (cn_in (co_net (the_conn k s))) = frame_bytes f @ rest"
  obtains cn where "serve si ki ai k s = handle_frame si ki f k (put_conn k ((the_conn k s)\<lparr>co_net := cn\<rparr>) s)"
    "cn_closed cn = cn_closed (co_net (the_conn k s))" "cn_out cn = cn_out (co_net (the_conn k s))"
    "rd_pending (cn_in cn) = rest"
proof -
  let ?cn = "co_net (the_conn k s)"
  obtain r where "read_frame (cn_in ?cn) = (Inr f, r)" "rd_pending r = rest"
    using read_frame_bytes [OF assms(3,4)] by blast
  then show ?thesis
    using assms(1,2) that [of "?cn\<lparr>cn_in := r\<rparr>"] by (simp add: serve_def conn_read_frame_def Let_def)
qed

lemma conn_send_usable:
  assumes "k < length (sv_heap s)" "usable_conn (co_net (the_conn k s))" "valid_frame f"
  obtains cn where "conn_send f k s = (None, put_conn k ((the_conn k s)\<lparr>co_net := cn\<rparr>) s)" "usable_conn cn"
    "sent_bytes cn = sent_bytes (co_net (the_conn k s)) @ frame_bytes f" "cn_in cn = cn_in (co_net (the_conn k s))"
  using conn_write_ok [OF assms(2,3)] that by (auto simp: conn_send_def)

lemma publish_answered:
  assumes "reach server_init server_step s" "k < length (sv_heap s)" "iteration_order si" "iteration_order ki"
    and "co_phase (the_conn k s) = Serving" "\<not> isDraining k s" "usable_conn (co_net (the_conn k s))"
    and "decodePublish p = Inr m" "pm_Topic m \<noteq> []" "length p \<le> MaxPayloadSize"
    and "rd_pending (cn_in (co_net (the_conn k s))) = frame_bytes (mk_frame TypePublish p) @ rest"
    and "Some s' \<in> set (serve si ki ai k s)"
  shows "\<exists>res err ap. Some ((res, err), sv_broker s') \<in> set (PublishWithResult si ki None (event_of_message m) (sv_broker s))
    \<and> sent_bytes (co_net (the_conn k s')) = sent_bytes (co_net (the_conn k s)) @ frame_bytes (mk_frame TypeAck ap)
    \<and> decodeAck ap = Inr \<lparr>am_ID = pm_ID m,
         am_Status = (if err \<noteq> None then ackRejected else if res = Duplicate then ackDuplicate else ackPublished),
         am_Error = (case err of None \<Rightarrow> [] | Some e \<Rightarrow> error_text e)\<rparr>
    \<and> (\<forall>j. j \<noteq> k \<longrightarrow> the_conn j s' = the_conn j s)
    \<and> length (sv_heap s') = length (sv_heap s)
    \<and> (\<exists>cn'. the_conn k s' = (the_conn k s)\<lparr>co_net := cn'\<rparr> \<and> usable_conn cn' \<and> rd_pending (cn_in cn') = rest)"
proof -
  let ?f = "mk_frame TypePublish p"
  have f: "valid_frame ?f" using assms(10) by (simp add: valid_frame_def TypePublish_def)
  obtain cn where turn: "serve si ki ai k s = handle_frame si ki ?f k (put_conn k ((the_conn k s)\<lparr>co_net := cn\<rparr>) s)"
    and cn: "usable_conn cn" "cn_out cn = cn_out (co_net (the_conn k s))" "rd_pending (cn_in cn) = rest"
    using serve_turn [OF assms(5) _ f assms(11), of si ki ai] assms(7) by metis
  let ?s1 = "put_conn k ((the_conn k s)\<lparr>co_net := cn\<rparr>) s"
  have "\<not> isDraining k ?s1" using assms(2,6) by (simp add: isDraining_def)
  with assms(12) turn obtain r where r: "Some r \<in> set (handle_publish si ki p k ?s1)" "s' = report k r"
    by (auto simp: handle_frame_def TypePublish_def TypeSubscribe_def Some_map_option_iff)
  have "Some (fst r, snd r) \<in> set (handle_publish si ki p k ?s1)" using r(1) by simp
  then show ?thesis
  proof (cases rule: handle_publish_cases)
    case invalid
    with assms(8,9) show ?thesis by simp
  next
    case (published m' res err b)
    have m': "m' = m" using published(1) assms(8) by simp
    let ?ack = "ack_of_result (pm_ID m) res err"
    have "short_string (pm_ID m)" using decodePublish_Inr [OF assms(8)] by (simp add: publish_fits_def)
    then have fits: "ack_fits ?ack" using ack_of_result_fits published(3) by blast
    have "valid_frame (mk_frame TypeAck (ack_bytes ?ack))"
      using fits by (intro valid_mk_frame)
        (auto simp: TypeAck_def ack_bytes_def ack_fits_def short_string_def maxUint16_eq string_field_def)
    then obtain cn' where "conn_send (mk_frame TypeAck (ack_bytes ?ack)) k (?s1\<lparr>sv_broker := b\<rparr>)
        = (None, put_conn k ((the_conn k (?s1\<lparr>sv_broker := b\<rparr>))\<lparr>co_net := cn'\<rparr>) (?s1\<lparr>sv_broker := b\<rparr>))"
      and cn': "sent_bytes cn' = sent_bytes cn @ frame_bytes (mk_frame TypeAck (ack_bytes ?ack))" "usable_conn cn'"
        "cn_in cn' = cn_in cn"
      using conn_send_usable [of k "?s1\<lparr>sv_broker := b\<rparr>"] cn(1) assms(2) by auto
    then have s': "s' = put_conn k ((the_conn k (?s1\<lparr>sv_broker := b\<rparr>))\<lparr>co_net := cn'\<rparr>) (?s1\<lparr>sv_broker := b\<rparr>)"
      using published(4) r(2) fits m' by (cases r) (simp add: encodeAck_eq report_def)
    have "the_conn k s' = (the_conn k s)\<lparr>co_net := cn'\<rparr> \<and> usable_conn cn' \<and> rd_pending (cn_in cn') = rest"
      using assms(2) cn(3) cn'(2,3) by (simp add: s')
    moreover have "length (sv_heap s') = length (sv_heap s)" by (simp add: s')
    moreover have "the_conn j s' = the_conn j s" if "j \<noteq> k" for j using that by (simp add: s')
    moreover have "sv_broker s' = b" by (simp add: s')
    moreover have "sent_bytes (co_net (the_conn k s')) = sent_bytes (co_net (the_conn k s))
        @ frame_bytes (mk_frame TypeAck (ack_bytes ?ack))"
      using assms(2) cn cn' by (simp add: s')
    ultimately show ?thesis
      using published(3) m' decodeAck_bytes [OF fits]
      by (intro exI [of _ res] exI [of _ err] exI [of _ "ack_bytes ?ack"])
        (auto simp: ack_of_result_def Let_def split: option.splits)
  qed
qed

text \<open>
  C7 (a publish is answered with the broker's verdict). A PUBLISH frame with a topic that a
  connection reads while the server accepts input is published exactly once, and when the
  publish returns the connection has been sent exactly one frame in answer: an ACK with the
  message's identifier and the status of the broker's result, \<open>ackRejected\<close> with the error's
  text when it failed. No other connection changes.
\<close>

theorem publish_is_acknowledged:
  assumes "reach server_init server_step s" "k < length (sv_heap s)" "iteration_order si" "iteration_order ki"
    and "co_phase (the_conn k s) = Serving" "\<not> isDraining k s" "usable_conn (co_net (the_conn k s))"
    and "decodePublish p = Inr m" "pm_Topic m \<noteq> []" "length p \<le> MaxPayloadSize"
    and "rd_pending (cn_in (co_net (the_conn k s))) = frame_bytes (mk_frame TypePublish p) @ rest"
    and "Some s' \<in> set (serve si ki ai k s)"
  shows "\<exists>res err ap. Some ((res, err), sv_broker s') \<in> set (PublishWithResult si ki None (event_of_message m) (sv_broker s))
    \<and> sent_bytes (co_net (the_conn k s')) = sent_bytes (co_net (the_conn k s)) @ frame_bytes (mk_frame TypeAck ap)
    \<and> decodeAck ap = Inr \<lparr>am_ID = pm_ID m,
         am_Status = (if err \<noteq> None then ackRejected else if res = Duplicate then ackDuplicate else ackPublished),
         am_Error = (case err of None \<Rightarrow> [] | Some e \<Rightarrow> error_text e)\<rparr>
    \<and> (\<forall>j. j \<noteq> k \<longrightarrow> the_conn j s' = the_conn j s)"
  using publish_answered [OF assms] by blast

section \<open>Draining\<close>

text \<open>
  C38 (a draining server refuses input). While the server or the connection drains, a
  SUBSCRIBE with a topic and a PUBLISH are answered with one ERROR frame that says so; the
  broker, the connection's subscriptions and its deliveries stay as they are, and the
  connection goes on.
\<close>

theorem draining_connection_refuses:
  assumes "k < length (sv_heap s)" "co_phase (the_conn k s) = Serving" "isDraining k s"
    and "usable_conn (co_net (the_conn k s))" "valid_frame f"
    and "frame_type f = TypePublish \<or> (frame_type f = TypeSubscribe \<and> (\<exists>m. decodeTopic (frame_payload f) = Inr m \<and> tm_Topic m \<noteq> []))"
    and "rd_pending (cn_in (co_net (the_conn k s))) = frame_bytes f @ rest"
  shows "\<exists>s' ep. serve si ki ai k s = [Some s'] \<and> sv_broker s' = sv_broker s
    \<and> decodeError ep = Inr \<lparr>em_Error = ''broker is draining''\<rparr>
    \<and> sent_bytes (co_net (the_conn k s')) = sent_bytes (co_net (the_conn k s)) @ frame_bytes (mk_frame TypeError ep)
    \<and> co_subs (the_conn k s') = co_subs (the_conn k s) \<and> co_deliveries (the_conn k s') = co_deliveries (the_conn k s)
    \<and> co_phase (the_conn k s') = Serving"
proof -
  obtain cn where turn: "serve si ki ai k s = handle_frame si ki f k (put_conn k ((the_conn k s)\<lparr>co_net := cn\<rparr>) s)"
    and cn: "usable_conn cn" "cn_out cn = cn_out (co_net (the_conn k s))"
    using serve_turn [OF assms(2) _ assms(5,7), of si ki ai] assms(4) by metis
  let ?s1 = "put_conn k ((the_conn k s)\<lparr>co_net := cn\<rparr>) s"
  have dr: "isDraining k ?s1" using assms(1,3) by (simp add: isDraining_def)
  have frame: "handle_frame si ki f k ?s1 = [Some (snd (sendError ErrDraining k ?s1))]"
    using assms(6)
  proof (elim disjE conjE exE)
    assume "frame_type f = TypePublish"
    with dr show ?thesis by (simp add: handle_frame_def TypePublish_def TypeSubscribe_def)
  next
    fix m
    assume m: "frame_type f = TypeSubscribe" "decodeTopic (frame_payload f) = Inr m" "tm_Topic m \<noteq> []"
    then have "handle_subscribe (frame_payload f) k ?s1 = Some (Some ErrDraining, ?s1)"
      using dr by (simp add: handle_subscribe_def Let_def)
    with m show ?thesis by (simp add: handle_frame_def report_def)
  qed
  let ?em = "\<lparr>em_Error = ''broker is draining''\<rparr>"
  obtain ep where ep: "encodeError ?em = Inr ep" "decodeError ep = Inr ?em"
    using error_codec.encode_fits [of ?em] by (auto simp: short_string_def maxUint16_eq)
  have "length ep \<le> 16777216"
    using ep(1) by (auto simp: encodeError_def encodeTopic_eq string_field_def short_string_def split: if_splits)
  then have "valid_frame (mk_frame TypeError ep)" by (intro valid_mk_frame) (simp add: TypeError_def)
  then obtain cn' where "conn_send (mk_frame TypeError ep) k ?s1 = (None, put_conn k ((the_conn k ?s1)\<lparr>co_net := cn'\<rparr>) ?s1)"
    and cn': "sent_bytes cn' = sent_bytes cn @ frame_bytes (mk_frame TypeError ep)"
    using conn_send_usable [of k ?s1] cn(1) assms(1) by auto
  then have "snd (sendError ErrDraining k ?s1) = put_conn k ((the_conn k ?s1)\<lparr>co_net := cn'\<rparr>) ?s1"
    using ep(1) by (simp add: sendError_def)
  with turn frame cn cn' ep(2) assms(1,2) show ?thesis
    by (intro exI [of _ "put_conn k ((the_conn k ?s1)\<lparr>co_net := cn'\<rparr>) ?s1"] exI [of _ ep]) simp
qed

section \<open>Delivery\<close>

text \<open>The sends and waits that a delivery still has before it must return.\<close>

fun remaining :: "delivery \<Rightarrow> nat" where
  "remaining (Sending ev p n ch) = 2 * (deliveryMaxAttempts - n) + 2"
| "remaining (Awaiting ev p n ch) = 2 * (deliveryMaxAttempts - n) + 1"
| "remaining _ = 0"

abbreviation the_delivery :: "addr \<Rightarrow> nat \<Rightarrow> server \<Rightarrow> delivery" where
  "the_delivery k d s \<equiv> snd (co_deliveries (the_conn k s) ! d)"

lemma the_delivery_put [simp]:
  assumes "k < length (sv_heap s)" "d < length (co_deliveries (the_conn k s))"
  shows "the_delivery k d (put_delivery k d st s) = st" "sv_broker (put_delivery k d st s) = sv_broker s"
    "co_subs (the_conn k (put_delivery k d st s)) = co_subs (the_conn k s)"
    "co_net (the_conn k (put_delivery k d st s)) = co_net (the_conn k s)"
  using assms by (simp_all add: put_delivery_def Let_def)

lemma the_delivery_return [simp]:
  assumes "k < length (sv_heap s)" "d < length (co_deliveries (the_conn k s))"
  shows "the_delivery k d (deliver_return k d ev ok s) = (if ok then Ranging else Stopped)"
    "sv_broker (deliver_return k d ev ok s) = sv_broker s"
    "co_subs (the_conn k (deliver_return k d ev ok s)) = co_subs (the_conn k s)"
    "co_net (the_conn k (deliver_return k d ev ok s)) = co_net (the_conn k s)"
  using assms by (simp_all add: deliver_return_def Let_def)

lemma the_delivery_retry [simp]:
  assumes "k < length (sv_heap s)" "d < length (co_deliveries (the_conn k s))"
  shows "the_delivery k d (deliver_retry k d ev p n ch s)
      = (if n < deliveryMaxAttempts then Sending ev p (n + 1) ch else Stopped)"
    "sv_broker (deliver_retry k d ev p n ch s) = sv_broker s"
    "co_subs (the_conn k (deliver_retry k d ev p n ch s)) = co_subs (the_conn k s)"
    "co_net (the_conn k (deliver_retry k d ev p n ch s)) = co_net (the_conn k s)"
  using assms by (simp_all add: deliver_retry_def)


lemma conn_send_deliveries [simp]:
  "co_deliveries (the_conn k (snd (conn_send f k s))) = co_deliveries (the_conn k s)"
  by (cases "k < length (sv_heap s)") (simp_all add: conn_send_def case_prod_beta list_update_beyond)

lemma the_delivery_send:
  assumes "k < length (sv_heap s)" "d < length (co_deliveries (the_conn k s))"
  shows "the_delivery k d (deliver_send k d ev p n ch s) \<in> {Awaiting ev p n ch, Stopped}"
  using assms by (simp add: deliver_send_def case_prod_beta split: option.splits)

lemma deliver_decreases:
  assumes "k < length (sv_heap s)" "d < length (co_deliveries (the_conn k s))" "s' \<in> set (deliver k d s)"
    and "0 < remaining (the_delivery k d s)" "delivery_ok m (the_delivery k d s)"
  shows "remaining (the_delivery k d s') < remaining (the_delivery k d s)"
proof (cases "the_delivery k d s")
  case (Sending ev p n ch)
  with assms(3) the_delivery_send [OF assms(1,2), of ev p n ch] show ?thesis by (auto simp: deliver_def)
next
  case (Awaiting ev p n ch)
  have "remaining (the_delivery k d (deliver_retry k d ev p n ch s1)) \<le> 2 * (deliveryMaxAttempts - n)"
    if "k < length (sv_heap s1)" "d < length (co_deliveries (the_conn k s1))" for s1
    using that by auto
  with Awaiting assms(1-3) show ?thesis
    by (auto simp: deliver_def deliver_await_def Let_def less_Suc_eq_le split: recv_result.splits if_splits)
qed (use assms(4) in simp_all)

text \<open>
  C11 (a delivery makes at most three attempts and returns). Once a delivery goroutine has
  taken an event it never blocks: each of its steps brings it closer to its return, after at
  most three sends and three waits. Every send is of the event's own encoding, numbered from
  1 to 3, and puts exactly one EVENT frame on a connection that works.
\<close>

theorem delivery_attempts_bounded:
  assumes "reach server_init server_step s" "k < length (sv_heap s)" "d < length (co_deliveries (the_conn k s))"
  shows "remaining (the_delivery k d s) \<le> 6
    \<and> (0 < remaining (the_delivery k d s) \<longrightarrow> deliver k d s \<noteq> []
         \<and> (\<forall>s' \<in> set (deliver k d s). remaining (the_delivery k d s') < remaining (the_delivery k d s)))
    \<and> (\<forall>ev p n ch. the_delivery k d s = Sending ev p n ch \<longrightarrow> encodeEvent ev = Inr p \<and> 1 \<le> n \<and> n \<le> 3
         \<and> (usable_conn (co_net (the_conn k s)) \<longrightarrow> length p \<le> MaxPayloadSize \<longrightarrow>
              (\<exists>s'. deliver k d s = [s'] \<and> the_delivery k d s' = Awaiting ev p n ch
                 \<and> sent_bytes (co_net (the_conn k s')) = sent_bytes (co_net (the_conn k s)) @ frame_bytes (mk_frame TypeEvent p))))"
proof (intro conjI impI allI ballI)
  have ok: "server_ok s" using assms(1) by (rule server_runs.reach_inv)
  obtain m where m: "delivery_ok m (the_delivery k d s)"
    using the_delivery_ok [OF ok assms(2,3)] by (cases "co_deliveries (the_conn k s) ! d") auto
  show "remaining (the_delivery k d s) \<le> 6"
    using m by (cases "the_delivery k d s") (auto simp: deliveryMaxAttempts_def)
  show "deliver k d s \<noteq> []" if "0 < remaining (the_delivery k d s)"
    using that by (cases "the_delivery k d s") (auto simp: deliver_def deliver_await_def Let_def)
  show "remaining (the_delivery k d s') < remaining (the_delivery k d s)"
    if "0 < remaining (the_delivery k d s)" "s' \<in> set (deliver k d s)" for s'
    using deliver_decreases [OF assms(2,3) that(2,1) m] .
  fix ev p n ch
  assume st: "the_delivery k d s = Sending ev p n ch"
  then show "encodeEvent ev = Inr p" "1 \<le> n" "n \<le> 3" using m by (auto simp: deliveryMaxAttempts_def)
  assume us: "usable_conn (co_net (the_conn k s))" and le: "length p \<le> MaxPayloadSize"
  have "valid_frame (mk_frame TypeEvent p)" using le by (simp add: valid_frame_def TypeEvent_def)
  then obtain cn where "conn_send (mk_frame TypeEvent p) k s = (None, put_conn k ((the_conn k s)\<lparr>co_net := cn\<rparr>) s)"
    "sent_bytes cn = sent_bytes (co_net (the_conn k s)) @ frame_bytes (mk_frame TypeEvent p)"
    using conn_send_usable [OF assms(2) us] by metis
  with st assms(2,3) show "\<exists>s'. deliver k d s = [s'] \<and> the_delivery k d s' = Awaiting ev p n ch
      \<and> sent_bytes (co_net (the_conn k s')) = sent_bytes (co_net (the_conn k s)) @ frame_bytes (mk_frame TypeEvent p)"
    by (simp add: deliver_def deliver_send_def)
qed

text \<open>
  C39 (an abandoned delivery ends its subscription's deliveries). When the third attempt is
  not answered in time, the goroutine ends, and it has ended in every later state, whatever
  arrives; but the subscription is neither closed nor removed: the broker and the
  connection's map of subscriptions are what they were, so events of the topic go on being
  queued for it.
\<close>

theorem abandoned_delivery_never_resumes:
  assumes "reach server_init server_step s" "k < length (sv_heap s)" "d < length (co_deliveries (the_conn k s))"
    and "the_delivery k d s = Awaiting ev p 3 ch" "chan_recv (co_acks (the_conn k s) ! ch) = RecvBlocks"
    and "s1 \<in> set (deliver k d s)" "server_step\<^sup>*\<^sup>* s1 s2"
  shows "sv_broker s1 = sv_broker s \<and> co_subs (the_conn k s1) = co_subs (the_conn k s)
    \<and> the_delivery k d s2 = Stopped \<and> deliver k d s2 = []"
proof -
  have s1: "s1 = deliver_retry k d ev p 3 ch s"
    using assms(4-6) by (simp add: deliver_def deliver_await_def Let_def)
  have one: "sv_broker s1 = sv_broker s" "co_subs (the_conn k s1) = co_subs (the_conn k s)" "the_delivery k d s1 = Stopped"
    using assms(2,3) by (simp_all add: s1 deliveryMaxAttempts_def)
  have ok: "server_ok s" using assms(1) by (rule server_runs.reach_inv)
  have "server_step s s1" using assms(2,3,6) by (rule s_deliver)
  then have ok1: "server_ok s1" and ev: "evolves s s1" using ok by (auto intro: server_ok_step server_step_evolves)
  have "evolves s1 s2" using server_steps_evolve [OF assms(7) ok1] by blast
  moreover have "k < length (sv_heap s1)" "d < length (co_deliveries (the_conn k s1))"
    using ev assms(2,3) by (auto simp: evolves_def conn_evolves_def deliveries_evolve_def)
  ultimately have "the_delivery k d s2 = Stopped"
    using one(3) by (simp add: evolves_def conn_evolves_def deliveries_evolve_def)
  with one show ?thesis by (simp add: deliver_def)
qed

section \<open>Graceful shutdown\<close>



section \<open>The properties on the sample run\<close>


text \<open>A PUBLISH frame that arrives there is published.\<close>

definition sample_publish :: frame where
  "sample_publish = mk_frame TypePublish (publish_bytes (message_of_event keyed_event))"

lemma sample_fits: "publish_fits (message_of_event keyed_event)"
  by (simp add: publish_fits_def message_of_event_def short_string_def maxUint16_eq MaxPayloadSize_eq)

lemma sample_payload_decodes:
  "decodePublish (publish_bytes (message_of_event keyed_event)) = Inr (message_of_event keyed_event)"
  "encodeEvent keyed_event = Inr (publish_bytes (message_of_event keyed_event))"
  using sample_fits by (simp_all add: decodePublish_bytes encodeEvent_def encodePublish_eq)

lemma sample_payload_length: "length (publish_bytes (message_of_event keyed_event)) \<le> MaxPayloadSize"
  by (simp add: message_of_event_def MaxPayloadSize_eq publish_bytes_def string_field_def bytes_field_def)

abbreviation sample_published :: broker where
  "sample_published \<equiv> remember id ''t'' ''1'' (push_all keyed_event [0] sample_broker)"

lemma publish_sample:
  "PublishWithResult id id None keyed_event sample_broker = [Some ((Published, None), sample_published)]"
proof -
  have "\<not> seen t k sample_broker" for t k by (simp add: seen_def map_get_def)
  then show ?thesis
    using publish_room [OF reachable_wf [OF reachable_sample_broker], of keyed_event id None id]
    by (simp add: idempotencyKey_def)
qed

lemma publish_turn:
  assumes "usable_conn cn" "rd_pending (cn_in cn) = frame_bytes sample_publish @ rest"
    and "PublishWithResult id id None keyed_event b = [Some ((res, None), b')]"
  obtains cn' where "serve id id id 0 (one_conn b (subscriber_conn cn)) = [Some (one_conn b' (subscriber_conn cn'))]"
    "usable_conn cn'" "rd_pending (cn_in cn') = rest"
proof -
  let ?s = "one_conn b (subscriber_conn cn)"
  have valid: "valid_frame sample_publish"
    using sample_payload_length by (simp add: sample_publish_def valid_frame_def TypePublish_def)
  obtain cn1 where turn: "serve id id id 0 ?s = handle_frame id id sample_publish 0 (put_conn 0 ((the_conn 0 ?s)\<lparr>co_net := cn1\<rparr>) ?s)"
    and cn1: "cn_closed cn1 = cn_closed (co_net (the_conn 0 ?s))" "cn_out cn1 = cn_out (co_net (the_conn 0 ?s))"
      "rd_pending (cn_in cn1) = rest"
    by (rule serve_turn [of ?s 0 sample_publish rest id id id]) (use assms(1,2) valid in simp_all)
  have us: "usable_conn cn1" using cn1 assms(1) by simp
  let ?m = "\<lparr>am_ID = ''1'', am_Status = (if res = Duplicate then ackDuplicate else ackPublished), am_Error = []\<rparr>"
  let ?ack = "ack_bytes ?m"
  have enc: "encodeAck ?m = Inr ?ack"
    by (simp add: encodeAck_eq ack_fits_def short_string_def maxUint16_eq)
  have ack: "ack_of_result ''1'' res None = ?m" by (simp add: ack_of_result_def Let_def)
  have "valid_frame (mk_frame TypeAck ?ack)"
    by (rule valid_mk_frame) (simp_all add: TypeAck_def ack_bytes_def string_field_def)
  then obtain cn' where cn': "conn_send (mk_frame TypeAck ?ack) 0 (one_conn b' (subscriber_conn cn1))
      = (None, one_conn b' (subscriber_conn cn'))" "usable_conn cn'" "cn_in cn' = cn_in cn1"
    by (rule conn_send_usable [of 0 "one_conn b' (subscriber_conn cn1)", rotated 2]) (use us in simp_all)
  have "serve id id id 0 ?s = [Some (one_conn b' (subscriber_conn cn'))]"
    using turn sample_payload_decodes(1) assms(3) enc cn'(1) ack
    by (simp add: handle_frame_def sample_publish_def TypePublish_def TypeSubscribe_def handle_publish_def report_def)
      (simp add: message_of_event_def)
  with cn'(2,3) cn1(3) that show ?thesis by metis
qed

lemma reach_published:
  obtains cn cn' where "reach server_init server_step (one_conn sample_broker (subscriber_conn cn))" "usable_conn cn"
    "rd_pending (cn_in cn) = frame_bytes sample_publish @ rest" "sent_bytes cn = []"
    "serve id id id 0 (one_conn sample_broker (subscriber_conn cn)) = [Some (one_conn sample_published (subscriber_conn cn'))]"
    "usable_conn cn'" "rd_pending (cn_in cn') = rest"
proof -
  obtain cn where cn: "reach server_init server_step (one_conn sample_broker (subscriber_conn cn))" "usable_conn cn"
    "rd_pending (cn_in cn) = frame_bytes sample_publish @ rest" "sent_bytes cn = []"
    by (rule reach_subscriber [of "frame_bytes sample_publish @ rest"])
  obtain cn' where
    "serve id id id 0 (one_conn sample_broker (subscriber_conn cn)) = [Some (one_conn sample_published (subscriber_conn cn'))]"
    "usable_conn cn'" "rd_pending (cn_in cn') = rest"
    using cn(2,3) publish_sample by (rule publish_turn)
  with cn that show ?thesis by blast
qed

theorem publish_is_acknowledged_witness:
  "\<exists>s s' ap. reach server_init server_step s \<and> server_step s s'
     \<and> decodeAck ap = Inr \<lparr>am_ID = ''1'', am_Status = ackPublished, am_Error = []\<rparr>
     \<and> sent_bytes (co_net (the_conn 0 s)) = [] \<and> sent_bytes (co_net (the_conn 0 s')) = frame_bytes (mk_frame TypeAck ap)"
proof -
  obtain cn cn' where r: "reach server_init server_step (one_conn sample_broker (subscriber_conn cn))" "usable_conn cn"
    "rd_pending (cn_in cn) = frame_bytes sample_publish" "sent_bytes cn = []"
    "serve id id id 0 (one_conn sample_broker (subscriber_conn cn)) = [Some (one_conn sample_published (subscriber_conn cn'))]"
    by (rule reach_published [of "[]", simplified])
  have "\<exists>ap. sent_bytes cn' = frame_bytes (mk_frame TypeAck ap)
      \<and> decodeAck ap = Inr \<lparr>am_ID = ''1'', am_Status = ackPublished, am_Error = []\<rparr>"
    using publish_is_acknowledged [OF r(1), of 0 id id "publish_bytes (message_of_event keyed_event)"
        "message_of_event keyed_event" "[]" "one_conn sample_published (subscriber_conn cn')" id]
      r(2-5) sample_payload_decodes(1) sample_payload_length publish_sample
    by (simp add: sample_publish_def) (simp add: message_of_event_def)
  moreover have "server_step (one_conn sample_broker (subscriber_conn cn)) (one_conn sample_published (subscriber_conn cn'))"
    by (rule s_serve [of 0 _ id id id]) (use r(5) in simp_all)
  ultimately show ?thesis
    using r(1,4) by (metis nth_Cons_0 one_conn_simps(2) subscriber_conn_simps(4))
qed

theorem draining_connection_refuses_witness:
  "\<exists>s s' ep. reach server_init server_step s \<and> isDraining 0 s \<and> serve id id id 0 s = [Some s']
     \<and> sv_broker s' = sv_broker s \<and> decodeError ep = Inr \<lparr>em_Error = ''broker is draining''\<rparr>
     \<and> sent_bytes (co_net (the_conn 0 s')) = frame_bytes (mk_frame TypeError ep)"
proof -
  obtain cn where r: "reach server_init server_step (one_conn sample_broker (subscriber_conn cn))" "usable_conn cn"
    "rd_pending (cn_in cn) = frame_bytes sample_publish" "sent_bytes cn = []"
    by (rule reach_subscriber [of "frame_bytes sample_publish"])
  let ?s = "GracefulShutdown id (one_conn sample_broker (subscriber_conn cn))"
  have s: "sv_heap ?s = [(subscriber_conn cn)\<lparr>co_draining := True\<rparr>]" "sv_draining ?s"
    by (simp_all add: GracefulShutdown_def one_conn_def mark_draining_def put_conn_def close_listener_def Let_def)
  have "reach server_init server_step ?s" using r(1) by (rule reach_step) (simp add: s_graceful)
  moreover have "valid_frame sample_publish" "frame_type sample_publish = TypePublish"
    using sample_payload_length by (simp_all add: sample_publish_def valid_frame_def TypePublish_def)
  ultimately show ?thesis
    using draining_connection_refuses [of 0 ?s sample_publish "[]" id id id] r(2-4) s
    by (simp add: isDraining_def) blast
qed


text \<open>The delivery of that event, with its three attempts.\<close>

definition delivering :: "broker \<Rightarrow> conn \<Rightarrow> delivery \<Rightarrow> server" where
  "delivering b cn st =
     one_conn b ((subscriber_conn cn)\<lparr>co_acks := [make_chan 1], co_pendingAck := [(''1'', 0)], co_deliveries := [(0, st)]\<rparr>)"

lemma delivering_simps [simp]:
  "sv_broker (delivering b cn st) = b" "length (sv_heap (delivering b cn st)) = 1"
  "co_deliveries (the_conn 0 (delivering b cn st)) = [(0, st)]" "co_net (the_conn 0 (delivering b cn st)) = cn"
  "co_acks (the_conn 0 (delivering b cn st)) = [make_chan 1]" "put_delivery 0 0 st' (delivering b cn st) = delivering b cn st'"
  "put_conn 0 ((the_conn 0 (delivering b cn st))\<lparr>co_net := cn'\<rparr>) (delivering b cn st) = delivering b cn' st"
  by (simp_all add: delivering_def put_delivery_def subscriber_conn_def newConnection_def)

abbreviation sample_bytes :: "byte list" where
  "sample_bytes \<equiv> publish_bytes (message_of_event keyed_event)"

lemma delivering_sends:
  assumes "usable_conn cn"
  obtains cn' where "deliver 0 0 (delivering b cn (Sending ev sample_bytes n 0)) = [delivering b cn' (Awaiting ev sample_bytes n 0)]"
    "usable_conn cn'"
proof -
  have "valid_frame (mk_frame TypeEvent sample_bytes)"
    using sample_payload_length by (simp add: valid_frame_def TypeEvent_def)
  then obtain cn' where "conn_send (mk_frame TypeEvent sample_bytes) 0 (delivering b cn (Sending ev sample_bytes n 0))
      = (None, put_conn 0 ((the_conn 0 (delivering b cn (Sending ev sample_bytes n 0)))\<lparr>co_net := cn'\<rparr>)
           (delivering b cn (Sending ev sample_bytes n 0)))" "usable_conn cn'"
    by (rule conn_send_usable [of 0 "delivering b cn (Sending ev sample_bytes n 0)", rotated 2]) (use assms in simp_all)
  then show ?thesis using that by (simp add: deliver_def deliver_send_def)
qed

lemma delivering_retries:
  "n < 3 \<Longrightarrow> deliver 0 0 (delivering b cn (Awaiting ev p n 0)) = [delivering b cn (Sending ev p (n + 1) 0)]"
  by (simp add: deliver_def deliver_await_def deliver_retry_def chan_recv_def make_chan_def deliveryMaxAttempts_def Let_def)

lemma reach_deliver:
  assumes "reach server_init server_step (delivering b cn st)" "deliver 0 0 (delivering b cn st) = [s']"
  shows "reach server_init server_step s'"
  by (rule reach_step [OF assms(1)]) (rule s_deliver [of 0 _ 0], use assms(2) in simp_all)

lemma reach_sending:
  obtains b cn where "reach server_init server_step (delivering b cn (Sending keyed_event sample_bytes 1 0))"
    "usable_conn cn" "\<not> sub_closed (b_heap b ! 0)"
proof -
  obtain cn0 cn where r: "reach server_init server_step (one_conn sample_broker (subscriber_conn cn0))"
    "serve id id id 0 (one_conn sample_broker (subscriber_conn cn0)) = [Some (one_conn sample_published (subscriber_conn cn))]"
    "usable_conn cn"
    by (rule reach_published)
  have 1: "reach server_init server_step (one_conn sample_published (subscriber_conn cn))"
    by (rule reach_step [OF r(1)]) (rule s_serve [of 0 _ id id id], use r(2) in simp_all)
  let ?b = "put_sub 0 (b_heap sample_broker ! 0) sample_published"
  have rec: "chan_recv (sub_events (b_heap sample_published ! 0))
      = RecvOk keyed_event (sub_events (b_heap sample_broker ! 0))"
    by (simp add: chan_recv_def)
  then have "Receive 0 sample_published = Some (keyed_event, ?b)"
    by (simp add: Receive_def put_sub_def)
  with rec have "deliver 0 0 (one_conn sample_published (subscriber_conn cn))
      = [delivering ?b cn (Sending keyed_event sample_bytes 1 0)]"
    by (simp add: deliver_def deliver_next_def delivering_def put_delivery_def sample_payload_decodes(2) Let_def)
  then have "reach server_init server_step (delivering ?b cn (Sending keyed_event sample_bytes 1 0))"
    by (intro reach_step [OF 1] s_deliver [of 0 _ 0]) simp_all
  then show ?thesis using r(3) by (rule that) (simp add: put_sub_def)
qed


theorem delivery_attempts_bounded_witness:
  "\<exists>s s'. reach server_init server_step s \<and> remaining (the_delivery 0 0 s) = 6 \<and> deliver 0 0 s = [s']
     \<and> remaining (the_delivery 0 0 s') < 6
     \<and> sent_bytes (co_net (the_conn 0 s')) = sent_bytes (co_net (the_conn 0 s)) @ frame_bytes (mk_frame TypeEvent sample_bytes)"
proof -
  obtain b cn where r: "reach server_init server_step (delivering b cn (Sending keyed_event sample_bytes 1 0))"
    "usable_conn cn" by (rule reach_sending)
  let ?s = "delivering b cn (Sending keyed_event sample_bytes 1 0)"
  have rem: "remaining (the_delivery 0 0 ?s) = 6" by (simp add: deliveryMaxAttempts_def)
  note bounded = delivery_attempts_bounded [OF r(1), of 0 0]
  have "\<exists>s'. deliver 0 0 ?s = [s'] \<and> the_delivery 0 0 s' = Awaiting keyed_event sample_bytes 1 0
      \<and> sent_bytes (co_net (the_conn 0 s')) = sent_bytes cn @ frame_bytes (mk_frame TypeEvent sample_bytes)"
    using bounded r(2) sample_payload_length by simp
  moreover have "remaining (the_delivery 0 0 s') < 6" if "deliver 0 0 ?s = [s']" for s'
    using bounded that rem by simp
  ultimately show ?thesis using r(1) rem by (metis delivering_simps(4))
qed

theorem abandoned_delivery_never_resumes_witness:
  "\<exists>s s1. reach server_init server_step s \<and> the_delivery 0 0 s = Awaiting keyed_event sample_bytes 3 0
     \<and> s1 \<in> set (deliver 0 0 s) \<and> the_delivery 0 0 s1 = Stopped \<and> deliver 0 0 s1 = []
     \<and> \<not> sub_closed (b_heap (sv_broker s1) ! 0)"
proof -
  let ?st = "\<lambda>n. Sending keyed_event sample_bytes n 0"
  let ?aw = "\<lambda>n. Awaiting keyed_event sample_bytes n 0"
  let ?R = "\<lambda>b cn st. reach server_init server_step (delivering b cn st)"
  obtain b cn1 where r1: "?R b cn1 (?st 1)" "usable_conn cn1" "\<not> sub_closed (b_heap b ! 0)" by (rule reach_sending)
  obtain cn2 where r2: "?R b cn2 (?aw 1)" "usable_conn cn2"
    using delivering_sends [OF r1(2)] reach_deliver [OF r1(1)] by metis
  have r3: "?R b cn2 (?st 2)" using reach_deliver [OF r2(1) delivering_retries] by (simp add: numeral_2_eq_2)
  obtain cn3 where r4: "?R b cn3 (?aw 2)" "usable_conn cn3"
    using delivering_sends [OF r2(2)] reach_deliver [OF r3] by metis
  have r5: "?R b cn3 (?st 3)" using reach_deliver [OF r4(1) delivering_retries] by (simp add: numeral_3_eq_3 numeral_2_eq_2)
  obtain cn4 where r6: "?R b cn4 (?aw 3)"
    using delivering_sends [OF r4(2)] reach_deliver [OF r5] by metis
  let ?s = "delivering b cn4 (?aw 3)"
  let ?s1 = "hd (deliver 0 0 ?s)"
  have "deliver 0 0 ?s \<noteq> []" by (simp add: deliver_def deliver_await_def)
  then have s1: "?s1 \<in> set (deliver 0 0 ?s)" by (rule list.set_sel(1))
  from abandoned_delivery_never_resumes [OF r6 _ _ _ _ s1 rtranclp.rtrancl_refl, of keyed_event sample_bytes 0]
  have "sv_broker ?s1 = b" "the_delivery 0 0 ?s1 = Stopped"
      "deliver 0 0 ?s1 = []"
    by (simp_all add: chan_recv_def make_chan_def)
  with r1(3) r6 s1 show ?thesis by (intro exI [of _ ?s] exI [of _ ?s1]) simp
qed


text \<open>A graceful shutdown of that connection, its subscription drained first.\<close>

definition draining_conn :: "conn \<Rightarrow> delivery \<Rightarrow> connection" where
  "draining_conn cn st = (subscriber_conn cn)\<lparr>co_draining := True, co_deliveries := [(0, st)]\<rparr>"

definition shutting_down :: "broker \<Rightarrow> conn \<Rightarrow> delivery \<Rightarrow> closer \<Rightarrow> server" where
  "shutting_down b cn st c =
     (one_conn b (draining_conn cn st))\<lparr>sv_closed := True, sv_draining := True, sv_closers := [(0, c)]\<rparr>"

lemma shutting_down_simps [simp]:
  "sv_broker (shutting_down b cn st c) = b" "sv_heap (shutting_down b cn st c) = [draining_conn cn st]"
  "sv_closers (shutting_down b cn st c) = [(0, c)]" "put_closer 0 c' (shutting_down b cn st c) = shutting_down b cn st c'"
  "(shutting_down b cn st c)\<lparr>sv_broker := b'\<rparr> = shutting_down b' cn st c"
  "put_delivery 0 0 st' (shutting_down b cn st c) = shutting_down b cn st' c"
  "put_conn 0 (draining_conn cn st) (shutting_down b cn st c) = shutting_down b cn st c"
  by (simp_all add: shutting_down_def one_conn_def put_closer_def put_delivery_def put_conn_def draining_conn_def)

lemma draining_conn_simps [simp]:
  "co_subs (draining_conn cn st) = [(''t'', 0)]" "co_deliveries (draining_conn cn st) = [(0, st)]"
  "co_net (draining_conn cn st) = cn" "co_closed (draining_conn cn st) = False"
  "(draining_conn cn st)\<lparr>co_draining := True\<rparr> = draining_conn cn st"
  by (simp_all add: draining_conn_def)




end
