(* ===== verification/Memory.thy ===== *)
theory Memory
  imports Broker_Properties
begin

text \<open>
  The contract of a bounded memory of identifiers, which the broker's deduplication
  (\<open>seen\<close> and \<open>remember\<close>) and the client's record of acknowledged deliveries
  (\<open>wasDelivered\<close> and \<open>rememberDelivery\<close>) both keep, and the stronger contract of a memory
  that forgets in first-in first-out order, which only the client's keeps.
\<close>

locale bounded_memory =
  fixes record_key :: "'k \<Rightarrow> 's \<Rightarrow> 's"
    and keys :: "'s \<Rightarrow> 'k set"
    and valid :: "'s \<Rightarrow> bool"
    and usable :: "'k \<Rightarrow> bool"
    and capacity :: nat
  assumes valid_record: "valid s \<Longrightarrow> valid (record_key k s)"
    and keys_bounded: "valid s \<Longrightarrow> finite (keys s) \<and> card (keys s) \<le> capacity"
    and record_present: "valid s \<Longrightarrow> usable k \<Longrightarrow> k \<in> keys (record_key k s)"
    and record_subset: "valid s \<Longrightarrow> keys (record_key k s) \<subseteq> insert k (keys s)"
    and record_drops_one: "valid s \<Longrightarrow> \<exists>gone. keys s - {gone} \<subseteq> keys (record_key k s)"
begin

lemma valid_fold: "valid s \<Longrightarrow> valid (fold record_key ks s)"
  by (induction ks arbitrary: s) (simp_all add: valid_record)

lemma fold_subset: "valid s \<Longrightarrow> keys (fold record_key ks s) \<subseteq> set ks \<union> keys s"
proof (induction ks arbitrary: s)
  case (Cons k ks)
  with record_subset [OF Cons.prems, of k] show ?case using valid_record by fastforce
qed simp

lemma fold_bounded: "valid s \<Longrightarrow> card (keys (fold record_key ks s)) \<le> capacity"
  using keys_bounded valid_fold by blast

text \<open>A sequence of records forgets at most one key per record.\<close>

lemma fold_forgets: "valid s \<Longrightarrow> card (keys s - keys (fold record_key ks s)) \<le> length ks"
proof (induction ks arbitrary: s)
  case (Cons k ks)
  let ?s1 = "record_key k s"
  obtain gone where "keys s - {gone} \<subseteq> keys ?s1" using record_drops_one [OF Cons.prems] by blast
  then have "keys s - keys (fold record_key ks ?s1) \<subseteq> insert gone (keys ?s1 - keys (fold record_key ks ?s1))"
    by blast
  then have "card (keys s - keys (fold record_key ks ?s1))
      \<le> card (insert gone (keys ?s1 - keys (fold record_key ks ?s1)))"
    using keys_bounded [OF valid_record [OF Cons.prems]] by (intro card_mono) auto
  also have "\<dots> \<le> Suc (card (keys ?s1 - keys (fold record_key ks ?s1)))"
    by (rule card_insert_le_m1) simp_all
  also have "\<dots> \<le> Suc (length ks)"
    using Cons.IH [OF valid_record [OF Cons.prems]] by simp
  finally show ?case by simp
qed simp

end

locale fifo_memory = bounded_memory +
  fixes arrivals :: "'b \<Rightarrow> 'a list"
  assumes keys_arrivals: "valid s \<Longrightarrow> keys s = set (arrivals s)"
    and record_fifo: "valid s \<Longrightarrow>
      arrivals (record_key k s) =
        (if k \<in> set (arrivals s) then arrivals s else last_n capacity (arrivals s @ [k]))"
begin

lemma arrivals_suffix:
  assumes "valid s" "arrivals s = xs @ k # ys" "length ys + length ks < capacity"
  shows "k \<in> keys (fold record_key ks s)"
  using assms
proof (induction ks arbitrary: s xs ys)
  case Nil
  then show ?case by (simp add: keys_arrivals)
next
  case (Cons k' ks)
  show ?case
  proof (cases "k' \<in> set (arrivals s)")
    case True
    then have "arrivals (record_key k' s) = xs @ k # ys" using Cons.prems by (simp add: record_fifo)
    then show ?thesis
      using Cons.IH [of "record_key k' s" xs ys] Cons.prems valid_record by simp
  next
    case False
    define n where "n = length (arrivals s @ [k']) - capacity"
    have "arrivals (record_key k' s) = drop n (xs @ k # ys @ [k'])"
      using False Cons.prems by (simp add: record_fifo last_n_def n_def)
    moreover have "n \<le> length xs" using Cons.prems by (simp add: n_def)
    ultimately have "arrivals (record_key k' s) = drop n xs @ k # (ys @ [k'])" by simp
    then show ?thesis
      using Cons.IH [of "record_key k' s" "drop n xs" "ys @ [k']"] Cons.prems valid_record by simp
  qed
qed

text \<open>A key is remembered until \<open>capacity\<close> records have followed it.\<close>

lemma fifo_retains:
  assumes "valid s" "k \<notin> keys s" "length ks < capacity"
  shows "k \<in> keys (fold record_key ks (record_key k s))"
proof -
  have "arrivals (record_key k s) = last_n (capacity - 1) (arrivals s) @ [k]"
    using assms keys_arrivals [OF assms(1)] by (auto simp: record_fifo last_n_def Suc_diff_Suc)
  with assms show ?thesis
    by (intro arrivals_suffix [of _ "last_n (capacity - 1) (arrivals s)" k "[]"]) (simp_all add: valid_record)
qed

end

section \<open>The broker's deduplication\<close>

text \<open>
  One topic of a broker whose deduplication is on, whatever the iteration order of the map.
\<close>

abbreviation dedup_valid :: "string iter \<Rightarrow> nat \<Rightarrow> broker \<Rightarrow> bool" where
  "dedup_valid ki n b \<equiv> wf_broker b \<and> iteration_order ki \<and> 0 < n \<and> DeduplicationSize (b_config b) = int n"

abbreviation dedup_keys_of :: "string \<Rightarrow> broker \<Rightarrow> string set" where
  "dedup_keys_of t b \<equiv> set (map_get [] (b_dedup b) t)"

interpretation broker_memory: bounded_memory "remember ki t" "dedup_keys_of t" "dedup_valid ki n" "\<lambda>k. k \<noteq> []" n
  for ki t n
proof
  fix b k
  assume valid: "dedup_valid ki n b"
  let ?keys = "map_get [] (b_dedup b) t"
  show "dedup_valid ki n (remember ki t k b)" using valid by (simp add: wf_remember)
  have "int (length ?keys) \<le> int n"
    using valid dedup_keys(3) [OF wf_brokerD(6) wf_brokerD(1), of b t] by simp
  then show "finite (dedup_keys_of t b) \<and> card (dedup_keys_of t b) \<le> n"
    using card_length [of ?keys] by simp
  show "k \<in> dedup_keys_of t (remember ki t k b)" if "k \<noteq> []"
    using valid that by (simp add: remember_def Let_def)
  show "dedup_keys_of t (remember ki t k b) \<subseteq> insert k (dedup_keys_of t b)"
    using set_remove1_subset by (fastforce simp: remember_def Let_def split: list.splits if_splits)
  show "\<exists>gone. dedup_keys_of t b - {gone} \<subseteq> dedup_keys_of t (remember ki t k b)"
    by (intro exI [of _ "hd (ki ?keys)"])
      (auto simp: remember_def Let_def in_set_remove1 split: list.splits, metis in_set_remove1)
qed

end
