(* ===== verification/Client.thy ===== *)
theory Client
  imports Transport Memory
begin

text \<open>
  The TCP client of \<open>transport/tcp/client.go\<close>. A \<open>Client\<close> is shared by the application's
  goroutines and its \<open>readLoop\<close>: each critical section, \<open>select\<close> and turn of the loop is a
  definition of its own, and \<open>client_step\<close> interleaves them. The channels that
  \<open>PublishWithResult\<close> makes live in a store, since \<open>pending\<close> and the waiting publisher both
  hold them.
\<close>

section \<open>Definitions\<close>

datatype PublishStatus = PublishNone | PublishAccepted | PublishDuplicate

record client =
  cl_conn :: conn
  cl_events :: "event chan"
  cl_shutdowns :: "string chan"
  cl_done :: bool
  cl_once :: bool
  cl_pending :: "(string, addr) gomap"
  cl_acks :: "ackMessage chan list"
  cl_acked :: "string list"
  cl_ackedIDs :: "string list"

definition maxRememberedDeliveries :: nat where
  "maxRememberedDeliveries = 4096"

subsection \<open>Close and send\<close>

definition Client_Close :: "client \<Rightarrow> client" where
  "Client_Close c =
     (if cl_once c then c
      else c\<lparr>cl_once := True, cl_done := True, cl_conn := conn_close (cl_conn c)\<rparr>)"

definition client_send :: "frame \<Rightarrow> client \<Rightarrow> go_error option \<times> client" where
  "client_send f c =
     (if cl_done c then (Some ErrClientClosed, c)
      else (case conn_write_frame f (cl_conn c) of (err, cn) \<Rightarrow> (err, c\<lparr>cl_conn := cn\<rparr>)))"

text \<open>\<open>Dial\<close>, with what the dialer returned: an error or a connection.\<close>

definition new_client :: "conn \<Rightarrow> client" where
  "new_client cn =
     \<lparr>cl_conn = cn, cl_events = make_chan 32, cl_shutdowns = make_chan 1, cl_done = False, cl_once = False,
      cl_pending = [], cl_acks = [], cl_acked = [], cl_ackedIDs = []\<rparr>"

definition Dial :: "go_error + conn \<Rightarrow> string \<Rightarrow> go_error + client" where
  "Dial dialed clientID =
     (case dialed of
        Inl e \<Rightarrow> Inl e
      | Inr cn \<Rightarrow>
          (case encodeConnect \<lparr>cm_ClientID = clientID\<rparr> of
             Inl e \<Rightarrow> Inl e
           | Inr payload \<Rightarrow>
               (case client_send (mk_frame TypeConnect payload) (new_client cn) of
                  (Some _, _) \<Rightarrow> Inl (ErrorsNew ''failed to send CONNECT frame'')
                | (None, c) \<Rightarrow> Inr c)))"

subsection \<open>Subscribing\<close>

definition Client_Subscribe :: "string \<Rightarrow> client \<Rightarrow> go_error option \<times> client" where
  "Client_Subscribe topic c =
     (case encodeTopic \<lparr>tm_Topic = topic\<rparr> of
        Inl e \<Rightarrow> (Some e, c)
      | Inr payload \<Rightarrow> client_send (mk_frame TypeSubscribe payload) c)"

definition Client_Unsubscribe :: "string \<Rightarrow> client \<Rightarrow> go_error option \<times> client" where
  "Client_Unsubscribe topic c =
     (case encodeTopic \<lparr>tm_Topic = topic\<rparr> of
        Inl e \<Rightarrow> (Some e, c)
      | Inr payload \<Rightarrow> client_send (mk_frame TypeUnsubscribe payload) c)"

subsection \<open>Acknowledging deliveries\<close>

definition wasDelivered :: "string \<Rightarrow> client \<Rightarrow> bool" where
  "wasDelivered eventID c \<longleftrightarrow> eventID \<in> set (cl_acked c)"

text \<open>\<open>acked\<close> is the key list of the map, \<open>ackedIDs\<close> the slice in arrival order.\<close>

definition rememberDelivery :: "string \<Rightarrow> client \<Rightarrow> client" where
  "rememberDelivery eventID c =
     (if eventID \<in> set (cl_acked c) then c
      else
        (let acked = eventID # cl_acked c; ackedIDs = cl_ackedIDs c @ [eventID] in
         if maxRememberedDeliveries < length ackedIDs
         then c\<lparr>cl_acked := removeAll (hd ackedIDs) acked, cl_ackedIDs := tl ackedIDs\<rparr>
         else c\<lparr>cl_acked := acked, cl_ackedIDs := ackedIDs\<rparr>))"

definition Client_Acknowledge :: "string \<Rightarrow> client \<Rightarrow> go_error option \<times> client" where
  "Client_Acknowledge eventID c =
     (if eventID = [] then (Some (ErrorsNew ''event ID is required''), c)
      else
        (case encodeAck \<lparr>am_ID = eventID, am_Status = ackDelivered, am_Error = []\<rparr> of
           Inl e \<Rightarrow> (Some e, c)
         | Inr payload \<Rightarrow>
             (case client_send (mk_frame TypeAck payload) c of
                (Some e, c') \<Rightarrow> (Some e, c')
              | (None, c') \<Rightarrow> (None, rememberDelivery eventID c'))))"

subsection \<open>Publishing\<close>

text \<open>\<open>newMessageID\<close>, with what \<open>rand.Read\<close> put into the array.\<close>

definition hex_digit :: "nat \<Rightarrow> char" where
  "hex_digit n = ''0123456789abcdef'' ! n"

definition hex_encode :: "byte list \<Rightarrow> string" where
  "hex_encode data = concat (map (\<lambda>b. [hex_digit (unat b div 16), hex_digit (unat b mod 16)]) data)"

definition newMessageID :: "go_error + byte list \<Rightarrow> go_error + string" where
  "newMessageID random = (case random of Inl e \<Rightarrow> Inl e | Inr data \<Rightarrow> Inr (hex_encode data))"

text \<open>
  The identifiers an event leaves with; the same lines open \<open>ConnectionManager.Publish\<close>.
\<close>

definition identify :: "go_error + byte list \<Rightarrow> event \<Rightarrow> go_error + event" where
  "identify random event =
     (case (if ev_ID event = [] then newMessageID random else Inr (ev_ID event)) of
        Inl e \<Rightarrow> Inl e
      | Inr i \<Rightarrow>
          (let event1 = event\<lparr>ev_ID := i\<rparr> in
           Inr (if ev_IdempotencyKey event1 = [] then event1\<lparr>ev_IdempotencyKey := i\<rparr> else event1)))"

text \<open>The deferred removal from \<open>pending\<close>.\<close>

definition publish_forget :: "string \<Rightarrow> client \<Rightarrow> client" where
  "publish_forget i c = c\<lparr>cl_pending := AList.delete i (cl_pending c)\<rparr>"

text \<open>
  Up to the \<open>select\<close>: an error that returns, or the channel to wait on and the identifier to
  forget at the end.
\<close>

definition publish_register :: "string \<Rightarrow> client \<Rightarrow> addr \<times> client" where
  "publish_register i c =
     (length (cl_acks c),
      c\<lparr>cl_acks := cl_acks c @ [make_chan 1],
        cl_pending := AList.update i (length (cl_acks c)) (cl_pending c)\<rparr>)"

definition publish_send :: "go_error + byte list \<Rightarrow> event \<Rightarrow> client \<Rightarrow>
    (go_error \<times> client) + (addr \<times> string \<times> client)" where
  "publish_send random event0 c =
     (case identify random event0 of
        Inl e \<Rightarrow> Inl (e, c)
      | Inr event \<Rightarrow>
          (case publish_register (ev_ID event) c of
             (a, c1) \<Rightarrow>
               (case encodePublish (message_of_event event) of
                  Inl e \<Rightarrow> Inl (e, publish_forget (ev_ID event) c1)
                | Inr payload \<Rightarrow>
                    (case client_send (mk_frame TypePublish payload) c1 of
                       (Some e, c2) \<Rightarrow> Inl (e, publish_forget (ev_ID event) c2)
                     | (None, c2) \<Rightarrow> Inr (a, ev_ID event, c2)))))"

text \<open>The \<open>select\<close>: one result per ready case, empty while it blocks.\<close>

definition status_of_ack :: "ackMessage \<Rightarrow> PublishStatus \<times> go_error option" where
  "status_of_ack ack =
     (if am_Status ack = ackRejected then (PublishNone, Some (ErrorsNew (am_Error ack)))
      else if am_Status ack = ackDuplicate then (PublishDuplicate, None)
      else (PublishAccepted, None))"

definition publish_wait :: "ctx \<Rightarrow> addr \<Rightarrow> client \<Rightarrow> ((PublishStatus \<times> go_error option) \<times> client) list" where
  "publish_wait ctx a c =
     (case chan_recv (cl_acks c ! a) of
        RecvOk ack ch \<Rightarrow> [(status_of_ack ack, c\<lparr>cl_acks := (cl_acks c)[a := ch]\<rparr>)]
      | _ \<Rightarrow> [])
     @ (case ctx of Some e \<Rightarrow> [((PublishNone, Some e), c)] | None \<Rightarrow> [])
     @ (if cl_done c then [((PublishNone, Some ErrClientClosed), c)] else [])"

text \<open>
  The whole call, with what the other goroutines do to the client between the send and the
  moment one of the cases is taken.
\<close>

definition Client_PublishWithResult :: "go_error + byte list \<Rightarrow> event \<Rightarrow> (client \<Rightarrow> client) \<Rightarrow> ctx \<Rightarrow> client \<Rightarrow>
    ((PublishStatus \<times> go_error option) \<times> client) list" where
  "Client_PublishWithResult random event others ctx c =
     (case publish_send random event c of
        Inl (e, c') \<Rightarrow> [((PublishNone, Some e), c')]
      | Inr (a, i, c') \<Rightarrow>
          map (\<lambda>(r, c''). (r, publish_forget i c'')) (publish_wait ctx a (others c')))"

text \<open>\<open>PublishContext\<close>, and \<open>Publish\<close> with the context of its five second timeout.\<close>

definition Client_PublishContext :: "go_error + byte list \<Rightarrow> event \<Rightarrow> (client \<Rightarrow> client) \<Rightarrow> ctx \<Rightarrow> client \<Rightarrow>
    (go_error option \<times> client) list" where
  "Client_PublishContext random event others ctx c =
     map (\<lambda>((_, err), c'). (err, c')) (Client_PublishWithResult random event others ctx c)"

subsection \<open>The read loop\<close>

text \<open>
  The points at which \<open>readLoop\<close> can be: before \<open>ReadFrame\<close>, in the \<open>select\<close> that hands an
  event to the application, in the send that hands an acknowledgement to a publisher, in the
  \<open>select\<close> that announces a shutdown, at its deferred calls, or ended.
\<close>

datatype loop =
    Reading
  | Exposing event
  | Handing ackMessage addr
  | Notifying string
  | Returning
  | Finished

definition on_event :: "byte list \<Rightarrow> client \<Rightarrow> loop \<times> client" where
  "on_event payload c =
     (case decodeEvent payload of
        Inl _ \<Rightarrow> (Returning, c)
      | Inr event \<Rightarrow>
          if wasDelivered (ev_ID event) c then (Reading, snd (Client_Acknowledge (ev_ID event) c))
          else (Exposing event, c))"

definition on_ack :: "byte list \<Rightarrow> client \<Rightarrow> loop \<times> client" where
  "on_ack payload c =
     (case decodeAck payload of
        Inl _ \<Rightarrow> (Returning, c)
      | Inr ack \<Rightarrow>
          (case map_of (cl_pending c) (am_ID ack) of
             None \<Rightarrow> (Reading, c)
           | Some a \<Rightarrow> (Handing ack a, c)))"

definition on_error :: "byte list \<Rightarrow> client \<Rightarrow> loop \<times> client" where
  "on_error payload c = (case decodeError payload of Inl _ \<Rightarrow> (Returning, c) | Inr _ \<Rightarrow> (Returning, c))"

definition on_shutdown :: "byte list \<Rightarrow> client \<Rightarrow> loop \<times> client" where
  "on_shutdown payload c =
     (case decodeShutdown payload of
        Inl _ \<Rightarrow> (Returning, c)
      | Inr m \<Rightarrow> (Notifying (sm_Redirect m), c))"

definition client_frame :: "frame \<Rightarrow> client \<Rightarrow> loop \<times> client" where
  "client_frame f c =
     (if frame_type f = TypeEvent then on_event (frame_payload f) c
      else if frame_type f = TypeAck then on_ack (frame_payload f) c
      else if frame_type f = TypeError then on_error (frame_payload f) c
      else if frame_type f = TypeShutdown then on_shutdown (frame_payload f) c
      else (Reading, c))"

text \<open>The deferred calls, last one first; \<open>None\<close> is the panic of a second \<open>close\<close>.\<close>

definition read_exit :: "client \<Rightarrow> client option" where
  "read_exit c =
     (let c1 = Client_Close c in
      case chan_close (cl_shutdowns c1) of
        None \<Rightarrow> None
      | Some sh \<Rightarrow>
          (case chan_close (cl_events c1) of
             None \<Rightarrow> None
           | Some ev \<Rightarrow> Some (c1\<lparr>cl_shutdowns := sh, cl_events := ev\<rparr>)))"

text \<open>The results of the next step: empty while it blocks, \<open>None\<close> for a panic.\<close>

fun readLoop :: "loop \<Rightarrow> client \<Rightarrow> (loop \<times> client) option list" where
  "readLoop Reading c =
     (case conn_read_frame (cl_conn c) of
        (Inl _, cn) \<Rightarrow> [Some (Returning, c\<lparr>cl_conn := cn\<rparr>)]
      | (Inr f, cn) \<Rightarrow> [Some (client_frame f (c\<lparr>cl_conn := cn\<rparr>))])"
| "readLoop (Exposing event) c =
     (case chan_send event (cl_events c) of
        SendOk ch \<Rightarrow> [Some (Reading, c\<lparr>cl_events := ch\<rparr>)]
      | SendBlocks \<Rightarrow> []
      | SendPanics \<Rightarrow> [None])
     @ (if cl_done c then [Some (Returning, c)] else [])"
| "readLoop (Handing ack a) c =
     (case chan_send ack (cl_acks c ! a) of
        SendOk ch \<Rightarrow> [Some (Reading, c\<lparr>cl_acks := (cl_acks c)[a := ch]\<rparr>)]
      | SendBlocks \<Rightarrow> []
      | SendPanics \<Rightarrow> [None])"
| "readLoop (Notifying redirect) c =
     (case chan_send redirect (cl_shutdowns c) of
        SendOk ch \<Rightarrow> [Some (Returning, c\<lparr>cl_shutdowns := ch\<rparr>)]
      | SendBlocks \<Rightarrow> []
      | SendPanics \<Rightarrow> [None])
     @ (if cl_done c then [Some (Returning, c)] else [])"
| "readLoop Returning c = [map_option (\<lambda>c'. (Finished, c')) (read_exit c)]"
| "readLoop Finished c = []"

subsection \<open>Runs of a client\<close>

text \<open>
  The application may call every method at any time from any goroutine; \<open>cs_waiting\<close> holds
  the publishers in the \<open>select\<close> of \<open>PublishWithResult\<close>, by channel and identifier.
\<close>

record client_sys =
  cs_client :: client
  cs_loop :: loop
  cs_waiting :: "(addr \<times> string) list"

inductive client_step :: "client_sys \<Rightarrow> client_sys \<Rightarrow> bool" where
  c_loop: "Some (l, c) \<in> set (readLoop (cs_loop s) (cs_client s)) \<Longrightarrow>
    client_step s (s\<lparr>cs_client := c, cs_loop := l\<rparr>)"
| c_subscribe: "Client_Subscribe topic (cs_client s) = (err, c) \<Longrightarrow> client_step s (s\<lparr>cs_client := c\<rparr>)"
| c_unsubscribe: "Client_Unsubscribe topic (cs_client s) = (err, c) \<Longrightarrow> client_step s (s\<lparr>cs_client := c\<rparr>)"
| c_acknowledge: "Client_Acknowledge i (cs_client s) = (err, c) \<Longrightarrow> client_step s (s\<lparr>cs_client := c\<rparr>)"
| c_publish_fails: "publish_send random event (cs_client s) = Inl (e, c) \<Longrightarrow> client_step s (s\<lparr>cs_client := c\<rparr>)"
| c_publish: "publish_send random event (cs_client s) = Inr (a, i, c) \<Longrightarrow>
    client_step s (s\<lparr>cs_client := c, cs_waiting := (a, i) # cs_waiting s\<rparr>)"
| c_publish_returns: "(a, i) \<in> set (cs_waiting s) \<Longrightarrow> (r, c) \<in> set (publish_wait ctx a (cs_client s)) \<Longrightarrow>
    client_step s (s\<lparr>cs_client := publish_forget i c, cs_waiting := remove1 (a, i) (cs_waiting s)\<rparr>)"
| c_close: "client_step s (s\<lparr>cs_client := Client_Close (cs_client s)\<rparr>)"
| c_event: "chan_recv (cl_events (cs_client s)) = RecvOk ev ch \<Longrightarrow>
    client_step s (s\<lparr>cs_client := (cs_client s)\<lparr>cl_events := ch\<rparr>\<rparr>)"
| c_shutdown: "chan_recv (cl_shutdowns (cs_client s)) = RecvOk r ch \<Longrightarrow>
    client_step s (s\<lparr>cs_client := (cs_client s)\<lparr>cl_shutdowns := ch\<rparr>\<rparr>)"

definition client_init :: "client_sys \<Rightarrow> bool" where
  "client_init s \<longleftrightarrow>
     (\<exists>cn clientID. \<not> cn_closed cn \<and> Dial (Inr cn) clientID = Inr (cs_client s))
     \<and> cs_loop s = Reading \<and> cs_waiting s = []"

subsection \<open>The invariant\<close>

definition window_ok :: "client \<Rightarrow> bool" where
  "window_ok c \<longleftrightarrow> set (cl_acked c) = set (cl_ackedIDs c) \<and> distinct (cl_ackedIDs c)
     \<and> length (cl_ackedIDs c) \<le> maxRememberedDeliveries"

definition chan_ok :: "nat \<Rightarrow> bool \<Rightarrow> 'a chan \<Rightarrow> bool" where
  "chan_ok n closed ch \<longleftrightarrow> chan_cap ch = n \<and> length (chan_buf ch) \<le> n \<and> chan_closed ch = closed"

definition acks_ok :: "client \<Rightarrow> bool" where
  "acks_ok c \<longleftrightarrow> (\<forall>ch \<in> set (cl_acks c). chan_ok 1 False ch)
     \<and> (\<forall>a \<in> snd ` set (cl_pending c). a < length (cl_acks c))"

fun loop_ok :: "loop \<Rightarrow> client \<Rightarrow> bool" where
  "loop_ok (Handing _ a) c = (a < length (cl_acks c))"
| "loop_ok Finished c = cl_done c"
| "loop_ok _ c = True"

definition client_ok :: "client_sys \<Rightarrow> bool" where
  "client_ok s \<longleftrightarrow>
     (let c = cs_client s in
      window_ok c \<and> acks_ok c \<and> loop_ok (cs_loop s) c
      \<and> chan_ok 32 (cs_loop s = Finished) (cl_events c) \<and> chan_ok 1 (cs_loop s = Finished) (cl_shutdowns c)
      \<and> cl_once c = cl_done c \<and> cn_closed (cl_conn c) = cl_done c
      \<and> (\<forall>(a, _) \<in> set (cs_waiting s). a < length (cl_acks c)))"

section \<open>Every step keeps the invariant\<close>

lemma client_send_fields [simp]:
  "cl_events (snd (client_send f c)) = cl_events c" "cl_shutdowns (snd (client_send f c)) = cl_shutdowns c"
  "cl_done (snd (client_send f c)) = cl_done c" "cl_once (snd (client_send f c)) = cl_once c"
  "cl_pending (snd (client_send f c)) = cl_pending c" "cl_acks (snd (client_send f c)) = cl_acks c"
  "cl_acked (snd (client_send f c)) = cl_acked c" "cl_ackedIDs (snd (client_send f c)) = cl_ackedIDs c"
  "cn_closed (cl_conn (snd (client_send f c))) = cn_closed (cl_conn c)"
  "cn_in (cl_conn (snd (client_send f c))) = cn_in (cl_conn c)"
  by (simp_all add: client_send_def case_prod_beta)

lemma rememberDelivery_fields [simp]:
  "cl_events (rememberDelivery i c) = cl_events c" "cl_shutdowns (rememberDelivery i c) = cl_shutdowns c"
  "cl_done (rememberDelivery i c) = cl_done c" "cl_once (rememberDelivery i c) = cl_once c"
  "cl_pending (rememberDelivery i c) = cl_pending c" "cl_acks (rememberDelivery i c) = cl_acks c"
  "cl_conn (rememberDelivery i c) = cl_conn c"
  by (simp_all add: rememberDelivery_def Let_def)

lemma rememberDelivery_window:
  assumes "window_ok c"
  shows "window_ok (rememberDelivery i c)"
    and "cl_ackedIDs (rememberDelivery i c) =
      (if i \<in> set (cl_ackedIDs c) then cl_ackedIDs c
       else last_n maxRememberedDeliveries (cl_ackedIDs c @ [i]))"
proof -
  have w: "set (cl_acked c) = set (cl_ackedIDs c)" "distinct (cl_ackedIDs c)"
      "length (cl_ackedIDs c) \<le> maxRememberedDeliveries" "0 < maxRememberedDeliveries"
    using assms by (auto simp: window_ok_def maxRememberedDeliveries_def)
  show "window_ok (rememberDelivery i c)"
    using w by (cases "cl_ackedIDs c") (auto simp: window_ok_def rememberDelivery_def Let_def)
  show "cl_ackedIDs (rememberDelivery i c) =
      (if i \<in> set (cl_ackedIDs c) then cl_ackedIDs c
       else last_n maxRememberedDeliveries (cl_ackedIDs c @ [i]))"
  proof (cases "length (cl_ackedIDs c) = maxRememberedDeliveries")
    case True
    with w show ?thesis by (cases "cl_ackedIDs c") (auto simp: rememberDelivery_def Let_def last_n_def)
  next
    case False
    with w show ?thesis by (auto simp: rememberDelivery_def Let_def)
  qed
qed

lemma window_ok_cong: "cl_acked c' = cl_acked c \<Longrightarrow> cl_ackedIDs c' = cl_ackedIDs c \<Longrightarrow> window_ok c' = window_ok c"
  by (simp add: window_ok_def)

lemma acks_ok_cong: "cl_acks c' = cl_acks c \<Longrightarrow> cl_pending c' = cl_pending c \<Longrightarrow> acks_ok c' = acks_ok c"
  by (simp add: acks_ok_def)

text \<open>A change that touches only the connection's streams and the window.\<close>

definition same_but_window :: "client \<Rightarrow> client \<Rightarrow> bool" where
  "same_but_window c c' \<longleftrightarrow>
     cl_events c' = cl_events c \<and> cl_shutdowns c' = cl_shutdowns c \<and> cl_done c' = cl_done c
     \<and> cl_once c' = cl_once c \<and> cl_pending c' = cl_pending c \<and> cl_acks c' = cl_acks c
     \<and> cn_closed (cl_conn c') = cn_closed (cl_conn c) \<and> (window_ok c \<longrightarrow> window_ok c')"

lemma same_but_window_send [simp]: "same_but_window c (snd (client_send f c))"
  using window_ok_cong [of "snd (client_send f c)" c] by (simp add: same_but_window_def)

lemma same_but_window_refl [simp]: "same_but_window c c"
  by (simp add: same_but_window_def)

lemma same_but_window_ack [simp]: "same_but_window c (snd (Client_Acknowledge i c))"
proof -
  have "same_but_window c (rememberDelivery i (snd (client_send f c)))" for f
    using same_but_window_send [of c f] rememberDelivery_window(1) [of "snd (client_send f c)" i]
    by (simp add: same_but_window_def)
  then show ?thesis
    unfolding Client_Acknowledge_def
    by (auto split: sum.splits prod.splits option.splits) (metis same_but_window_send snd_conv)+
qed

lemma loop_ok_cong: "cl_acks c' = cl_acks c \<Longrightarrow> cl_done c' = cl_done c \<Longrightarrow> loop_ok l c' = loop_ok l c"
  by (cases l) auto

lemma client_ok_same:
  assumes "client_ok s" "same_but_window (cs_client s) c"
  shows "client_ok (s\<lparr>cs_client := c\<rparr>)"
  using assms acks_ok_cong [of c "cs_client s"] loop_ok_cong [of c "cs_client s" "cs_loop s"]
  by (simp add: client_ok_def same_but_window_def Let_def)

lemma same_but_window_trans: "same_but_window c c1 \<Longrightarrow> same_but_window c1 c2 \<Longrightarrow> same_but_window c c2"
  by (simp add: same_but_window_def)

lemma client_frame_ok:
  assumes "acks_ok c" "client_frame f c = (l, c')"
  shows "same_but_window c c' \<and> loop_ok l c' \<and> l \<noteq> Finished"
proof -
  have "a < length (cl_acks c)" if "map_of (cl_pending c) i = Some a" for i a
    using assms(1) map_of_SomeD [OF that] by (force simp: acks_ok_def)
  moreover have "same_but_window c (snd (Client_Acknowledge i c))" for i by simp
  ultimately show ?thesis
    using assms(2)
    by (auto simp: client_frame_def on_event_def on_ack_def on_error_def on_shutdown_def
        split: if_splits sum.splits option.splits)
qed

lemma chan_ok_send: "chan_ok n closed ch \<Longrightarrow> chan_send x ch = SendOk ch' \<Longrightarrow> chan_ok n closed ch'"
  by (auto simp: chan_ok_def chan_send_def split: if_splits)

lemma chan_ok_recv: "chan_ok n closed ch \<Longrightarrow> chan_recv ch = RecvOk x ch' \<Longrightarrow> chan_ok n closed ch'"
  by (auto simp: chan_ok_def chan_recv_def split: if_splits list.splits)

lemma acks_ok_update:
  assumes "acks_ok c" "chan_ok 1 False ch"
  shows "acks_ok (c\<lparr>cl_acks := (cl_acks c)[a := ch]\<rparr>)"
  using assms set_update_subset_insert [of "cl_acks c" a ch] by (auto simp: acks_ok_def)

lemma client_okD:
  assumes "client_ok s"
  shows "window_ok (cs_client s)" "acks_ok (cs_client s)" "loop_ok (cs_loop s) (cs_client s)"
    "chan_ok 32 (cs_loop s = Finished) (cl_events (cs_client s))"
    "chan_ok 1 (cs_loop s = Finished) (cl_shutdowns (cs_client s))"
    "cl_once (cs_client s) = cl_done (cs_client s)" "cn_closed (cl_conn (cs_client s)) = cl_done (cs_client s)"
    "\<forall>(a, _) \<in> set (cs_waiting s). a < length (cl_acks (cs_client s))"
  using assms by (simp_all add: client_ok_def Let_def)

lemma readLoop_Reading:
  assumes "client_ok s" "cs_loop s = Reading" "r \<in> set (readLoop (cs_loop s) (cs_client s))"
  shows "\<exists>l c. r = Some (l, c) \<and> client_ok (s\<lparr>cs_client := c, cs_loop := l\<rparr>)"
proof -
  let ?c = "cs_client s"
  obtain res cn where cn: "conn_read_frame (cl_conn ?c) = (res, cn)" by (metis prod.exhaust)
  then have same: "same_but_window ?c (?c\<lparr>cl_conn := cn\<rparr>)"
    using conn_read_simps(2) [of "cl_conn ?c"] by (simp add: same_but_window_def window_ok_def)
  show ?thesis
  proof (cases res)
    case (Inl e)
    have "client_ok (s\<lparr>cs_client := ?c\<lparr>cl_conn := cn\<rparr>, cs_loop := Returning\<rparr>)"
      using client_ok_same [OF assms(1) same] assms(2) by (simp add: client_ok_def Let_def)
    with assms(2,3) cn Inl show ?thesis by auto
  next
    case (Inr f)
    obtain l c where lc: "client_frame f (?c\<lparr>cl_conn := cn\<rparr>) = (l, c)" by (metis prod.exhaust)
    have ok: "same_but_window (?c\<lparr>cl_conn := cn\<rparr>) c" "loop_ok l c" "l \<noteq> Finished"
      using client_frame_ok [OF _ lc] client_okD(2) [OF assms(1)] by (auto simp: acks_ok_def)
    have "client_ok (s\<lparr>cs_client := c\<rparr>)"
      by (rule client_ok_same [OF assms(1) same_but_window_trans [OF same ok(1)]])
    then have "client_ok (s\<lparr>cs_client := c, cs_loop := l\<rparr>)"
      using ok(2,3) assms(2) by (simp add: client_ok_def Let_def)
    with assms(2,3) cn Inr lc show ?thesis by auto
  qed
qed

lemma readLoop_ok:
  assumes "client_ok s" "r \<in> set (readLoop (cs_loop s) (cs_client s))"
  shows "\<exists>l c. r = Some (l, c) \<and> client_ok (s\<lparr>cs_client := c, cs_loop := l\<rparr>)"
proof (cases "cs_loop s")
  case Reading
  then show ?thesis using readLoop_Reading assms by blast
next
  case (Exposing ev)
  note ok = client_okD [OF assms(1)]
  have "SendPanics \<noteq> chan_send ev (cl_events (cs_client s))"
    using ok(4) Exposing by (simp add: chan_ok_def chan_send_def)
  with assms Exposing ok chan_ok_send [OF ok(4)] show ?thesis
    by (auto simp: client_ok_def Let_def window_ok_def acks_ok_def split: send_result.splits if_splits)
next
  case (Handing ack a)
  note ok = client_okD [OF assms(1)]
  let ?ch = "cl_acks (cs_client s) ! a"
  have ch: "chan_ok 1 False ?ch" using ok(2,3) Handing by (simp add: acks_ok_def)
  then have "SendPanics \<noteq> chan_send ack ?ch" by (simp add: chan_ok_def chan_send_def)
  with assms Handing ok chan_ok_send [OF ch] acks_ok_update [OF ok(2)] show ?thesis
    by (auto simp: client_ok_def Let_def window_ok_def split: send_result.splits if_splits)
next
  case (Notifying redirect)
  note ok = client_okD [OF assms(1)]
  have "SendPanics \<noteq> chan_send redirect (cl_shutdowns (cs_client s))"
    using ok(5) Notifying by (simp add: chan_ok_def chan_send_def)
  with assms Notifying ok chan_ok_send [OF ok(5)] show ?thesis
    by (auto simp: client_ok_def Let_def window_ok_def acks_ok_def split: send_result.splits if_splits)
next
  case Returning
  note ok = client_okD [OF assms(1)]
  with assms Returning show ?thesis
    by (auto simp: read_exit_def Client_Close_def chan_close_def chan_ok_def client_ok_def Let_def
        window_ok_def acks_ok_def)
qed (use assms in simp)

lemma same_but_window_Subscribe [simp]:
  "same_but_window c (snd (Client_Subscribe topic c))" "same_but_window c (snd (Client_Unsubscribe topic c))"
  by (simp_all add: Client_Subscribe_def Client_Unsubscribe_def split: sum.splits)

text \<open>Publishing: a new channel, then only the streams and \<open>pending\<close> change.\<close>

lemma client_ok_register:
  assumes "client_ok s" "publish_register i (cs_client s) = (a, c)"
  shows "client_ok (s\<lparr>cs_client := c\<rparr>)" "a < length (cl_acks c)"
proof -
  let ?c = "cs_client s"
  have c: "c = ?c\<lparr>cl_acks := cl_acks ?c @ [make_chan 1],
      cl_pending := AList.update i (length (cl_acks ?c)) (cl_pending ?c)\<rparr>" and a: "a = length (cl_acks ?c)"
    using assms(2) by (auto simp: publish_register_def)
  have "acks_ok c"
    using client_okD(2) [OF assms(1)] set_AList_update_subset [of i "length (cl_acks ?c)" "cl_pending ?c"]
    by (fastforce simp: c acks_ok_def chan_ok_def make_chan_def)
  moreover have "loop_ok (cs_loop s) c" using client_okD(3) [OF assms(1)] by (cases "cs_loop s") (auto simp: c)
  ultimately show "client_ok (s\<lparr>cs_client := c\<rparr>)"
    using client_okD [OF assms(1)] by (auto simp: client_ok_def c Let_def window_ok_def)
  show "a < length (cl_acks c)" by (simp add: a c)
qed

lemma client_ok_forget:
  assumes "client_ok s"
  shows "client_ok (s\<lparr>cs_client := publish_forget i (cs_client s)\<rparr>)"
proof -
  have "acks_ok (publish_forget i (cs_client s))"
    using client_okD(2) [OF assms] set_AList_delete_subset [of i "cl_pending (cs_client s)"]
    by (auto simp: acks_ok_def publish_forget_def)
  with client_okD [OF assms] show ?thesis
    using loop_ok_cong [of "publish_forget i (cs_client s)" "cs_client s" "cs_loop s"]
    by (simp add: client_ok_def Let_def publish_forget_def window_ok_def)
qed

lemma client_ok_publish:
  assumes "client_ok s"
  shows "publish_send random event (cs_client s) = Inl (e, c) \<Longrightarrow> client_ok (s\<lparr>cs_client := c\<rparr>)"
    and "publish_send random event (cs_client s) = Inr (a, i, c) \<Longrightarrow>
      client_ok (s\<lparr>cs_client := c, cs_waiting := (a, i) # cs_waiting s\<rparr>)"
proof -
  have sent: "client_ok (s\<lparr>cs_client := snd (client_send f c1)\<rparr>)" if "client_ok (s\<lparr>cs_client := c1\<rparr>)" for f c1
    using client_ok_same [OF that, of "snd (client_send f c1)"] by simp
  have forget: "client_ok (s\<lparr>cs_client := publish_forget i c1\<rparr>)" if "client_ok (s\<lparr>cs_client := c1\<rparr>)" for i c1
    using client_ok_forget [OF that] by simp
  show "client_ok (s\<lparr>cs_client := c\<rparr>)" if "publish_send random event (cs_client s) = Inl (e, c)"
    using that assms client_ok_register(1) [OF assms] forget sent
    by (auto simp: publish_send_def split: sum.splits prod.splits option.splits) (metis snd_conv)+
  show "client_ok (s\<lparr>cs_client := c, cs_waiting := (a, i) # cs_waiting s\<rparr>)"
    if send: "publish_send random event (cs_client s) = Inr (a, i, c)"
  proof -
    from send obtain f c1 where "publish_register i (cs_client s) = (a, c1)" "c = snd (client_send f c1)"
      by (auto simp: publish_send_def split: sum.splits prod.splits option.splits) (metis snd_conv)+
    then have "client_ok (s\<lparr>cs_client := c\<rparr>)" "a < length (cl_acks c)"
      using client_ok_register [OF assms] sent by simp_all
    then show ?thesis by (simp add: client_ok_def Let_def)
  qed
qed

lemma client_ok_wait:
  assumes "client_ok s" "(a, i) \<in> set (cs_waiting s)" "(r, c) \<in> set (publish_wait ctx a (cs_client s))"
  shows "client_ok (s\<lparr>cs_client := c\<rparr>)"
proof -
  note ok = client_okD [OF assms(1)]
  have a: "a < length (cl_acks (cs_client s))" using ok(8) assms(2) by auto
  then have ch: "chan_ok 1 False (cl_acks (cs_client s) ! a)" using ok(2) by (simp add: acks_ok_def)
  consider "c = cs_client s"
    | x ch' where "chan_recv (cl_acks (cs_client s) ! a) = RecvOk x ch'"
        "c = (cs_client s)\<lparr>cl_acks := (cl_acks (cs_client s))[a := ch']\<rparr>"
    using assms(3)
    by (cases "chan_recv (cl_acks (cs_client s) ! a)")
      (auto simp: publish_wait_def split: option.splits if_splits)
  then show ?thesis
  proof cases
    case 1
    then show ?thesis using client_ok_same [OF assms(1), of c] by simp
  next
    case 2
    have "acks_ok c" unfolding 2(2) by (rule acks_ok_update [OF ok(2) chan_ok_recv [OF ch 2(1)]])
    moreover have "loop_ok (cs_loop s) c" using ok(3) by (cases "cs_loop s") (auto simp: 2(2))
    ultimately show ?thesis using ok by (simp add: client_ok_def Let_def 2(2) window_ok_def)
  qed
qed

lemma client_ok_step: "client_step s s' \<Longrightarrow> client_ok s \<Longrightarrow> client_ok s'"
proof (induction rule: client_step.induct)
  case (c_loop l c s)
  then show ?case using readLoop_ok by blast
next
  case (c_subscribe topic s err c)
  then show ?case using client_ok_same [of s c] same_but_window_Subscribe(1) [of "cs_client s" topic] by simp
next
  case (c_unsubscribe topic s err c)
  then show ?case using client_ok_same [of s c] same_but_window_Subscribe(2) [of "cs_client s" topic] by simp
next
  case (c_acknowledge i s err c)
  then show ?case using client_ok_same [of s c] same_but_window_ack [of "cs_client s" i] by simp
next
  case (c_publish_fails random event s e c)
  then show ?case by (blast intro: client_ok_publish)
next
  case (c_publish random event s a i c)
  then show ?case by (blast intro: client_ok_publish)
next
  case (c_publish_returns a i s r c ctx)
  then have "client_ok (s\<lparr>cs_client := c\<rparr>)" by (blast intro: client_ok_wait)
  from client_ok_forget [OF this, of i] show ?case
    using set_remove1_subset [of "(a, i)" "cs_waiting s"]
    by (auto simp: client_ok_def Let_def dest: subsetD)
next
  case (c_close s)
  then have "loop_ok (cs_loop s) (Client_Close (cs_client s))"
    by (cases "cs_loop s") (auto simp: client_ok_def Client_Close_def Let_def)
  with c_close show ?case
    by (auto simp: client_ok_def Client_Close_def Let_def window_ok_def acks_ok_def split: if_splits)
next
  case (c_event s ev ch)
  note ok = client_okD [OF c_event(2)]
  have "loop_ok (cs_loop s) ((cs_client s)\<lparr>cl_events := ch\<rparr>)"
    using ok(3) by (cases "cs_loop s") auto
  with ok chan_ok_recv [OF ok(4) c_event(1)] show ?case
    by (simp add: client_ok_def Let_def window_ok_def acks_ok_def)
next
  case (c_shutdown s r ch)
  note ok = client_okD [OF c_shutdown(2)]
  have "loop_ok (cs_loop s) ((cs_client s)\<lparr>cl_shutdowns := ch\<rparr>)"
    using ok(3) by (cases "cs_loop s") auto
  with ok chan_ok_recv [OF ok(5) c_shutdown(1)] show ?case
    by (simp add: client_ok_def Let_def window_ok_def acks_ok_def)
qed

lemma Dial_Inr:
  assumes "Dial (Inr cn) clientID = Inr c"
  obtains p where "client_send (mk_frame TypeConnect p) (new_client cn) = (None, c)"
  using assms by (auto simp: Dial_def split: sum.splits prod.splits option.splits)

lemma client_ok_init: "client_init s \<Longrightarrow> client_ok s"
proof -
  assume init: "client_init s"
  then obtain cn clientID where cn: "\<not> cn_closed cn" and dial: "Dial (Inr cn) clientID = Inr (cs_client s)"
    by (auto simp: client_init_def)
  obtain p where p: "client_send (mk_frame TypeConnect p) (new_client cn) = (None, cs_client s)"
    by (rule Dial_Inr [OF dial])
  have c: "cs_client s = snd (client_send (mk_frame TypeConnect p) (new_client cn))" by (simp add: p)
  have "client_ok (s\<lparr>cs_client := new_client cn\<rparr>)"
    using init cn by (simp add: client_ok_def client_init_def new_client_def window_ok_def acks_ok_def
        chan_ok_def make_chan_def Let_def)
  moreover have "same_but_window (cs_client (s\<lparr>cs_client := new_client cn\<rparr>)) (cs_client s)"
    unfolding c by simp
  ultimately have "client_ok (s\<lparr>cs_client := new_client cn\<rparr>\<lparr>cs_client := cs_client s\<rparr>)"
    by (rule client_ok_same)
  then show ?thesis by simp
qed

interpretation client_runs: invariant_system client_init client_step client_ok
  by unfold_locales (blast intro: client_ok_init client_ok_step)+

interpretation client_memory: fifo_memory rememberDelivery "\<lambda>c. set (cl_acked c)" window_ok "\<lambda>_. True"
  maxRememberedDeliveries cl_ackedIDs
proof
  fix c i
  assume ok: "window_ok c"
  show "window_ok (rememberDelivery i c)" using ok by (rule rememberDelivery_window)
  show "finite (set (cl_acked c)) \<and> card (set (cl_acked c)) \<le> maxRememberedDeliveries"
    using ok by (simp add: window_ok_def distinct_card)
  show "i \<in> set (cl_acked (rememberDelivery i c))"
    using ok by (cases "cl_ackedIDs c") (auto simp: rememberDelivery_def Let_def window_ok_def maxRememberedDeliveries_def)
  show "set (cl_acked (rememberDelivery i c)) \<subseteq> insert i (set (cl_acked c))"
    by (auto simp: rememberDelivery_def Let_def)
  show "\<exists>gone. set (cl_acked c) - {gone} \<subseteq> set (cl_acked (rememberDelivery i c))"
    by (intro exI [of _ "hd (cl_ackedIDs c @ [i])"]) (auto simp: rememberDelivery_def Let_def)
  show "set (cl_acked c) = set (cl_ackedIDs c)" using ok by (simp add: window_ok_def)
  show "cl_ackedIDs (rememberDelivery i c) =
      (if i \<in> set (cl_ackedIDs c) then cl_ackedIDs c
       else last_n maxRememberedDeliveries (cl_ackedIDs c @ [i]))"
    using ok by (rule rememberDelivery_window)
qed

section \<open>The acknowledgement channels\<close>

lemma same_but_window_acks: "same_but_window c c' \<Longrightarrow> cl_acks c' = cl_acks c"
  by (simp add: same_but_window_def)

lemma client_send_acks: "client_send f c = (err, c') \<Longrightarrow> cl_acks c' = cl_acks c"
  using client_send_fields(6) [of f c] by simp

lemma publish_send_acks:
  "publish_send random event c = Inl (e, c') \<Longrightarrow> \<exists>xs. cl_acks c' = cl_acks c @ xs"
  "publish_send random event c = Inr (a, i, c') \<Longrightarrow> (\<exists>x. cl_acks c' = cl_acks c @ [x]) \<and> a = length (cl_acks c)"
  by (auto simp: publish_send_def publish_forget_def publish_register_def
      split: sum.splits prod.splits option.splits dest!: client_send_acks)

end
