(* ===== verification/Connection_Manager.thy ===== *)
theory Connection_Manager
  imports Client
begin

text \<open>
  The connection manager of \<open>transport/tcp/connection_manager.go\<close>: an ordered list of
  endpoints, the client of the current connection, the topics to subscribe to again, and the
  goroutine \<open>run\<close> that forwards events and reconnects. The clients it has dialled stay in a
  store with the points of their read loops, since \<open>run\<close> and publishing goroutines may hold
  one that is no longer current. Critical sections, \<open>select\<close>s and calls on a client are the
  steps that \<open>manager_step\<close> interleaves.
\<close>

section \<open>Definitions\<close>

record manager =
  mg_endpoints :: "string list"
  mg_clientID :: string
  mg_current :: "addr option"
  mg_topics :: "string list"
  mg_events :: "event chan"
  mg_shutdowns :: "string chan"
  mg_done :: bool
  mg_once :: bool
  mg_clients :: "(client \<times> loop) list"

definition new_manager :: "string list \<Rightarrow> string \<Rightarrow> manager" where
  "new_manager endpoints clientID =
     \<lparr>mg_endpoints = endpoints, mg_clientID = clientID, mg_current = None, mg_topics = [],
      mg_events = make_chan 64, mg_shutdowns = make_chan 1, mg_done = False, mg_once = False, mg_clients = []\<rparr>"

abbreviation the_client :: "addr \<Rightarrow> manager \<Rightarrow> client" where
  "the_client a m \<equiv> fst (mg_clients m ! a)"

abbreviation the_loop :: "addr \<Rightarrow> manager \<Rightarrow> loop" where
  "the_loop a m \<equiv> snd (mg_clients m ! a)"

definition put_client :: "addr \<Rightarrow> client \<Rightarrow> manager \<Rightarrow> manager" where
  "put_client a c m = m\<lparr>mg_clients := (mg_clients m)[a := (c, the_loop a m)]\<rparr>"

subsection \<open>Calls of the application\<close>

text \<open>\<open>topics\<close> is the key list of the map.\<close>

definition Manager_Subscribe :: "string \<Rightarrow> manager \<Rightarrow> go_error option \<times> manager" where
  "Manager_Subscribe topic m =
     (let m1 = m\<lparr>mg_topics := List.insert topic (mg_topics m)\<rparr> in
      case mg_current m1 of
        None \<Rightarrow> (Some ErrNoBrokerAvailable, m1)
      | Some a \<Rightarrow> (case Client_Subscribe topic (the_client a m1) of (err, c) \<Rightarrow> (err, put_client a c m1)))"

definition Manager_Acknowledge :: "string \<Rightarrow> manager \<Rightarrow> go_error option \<times> manager" where
  "Manager_Acknowledge eventID m =
     (case mg_current m of
        None \<Rightarrow> (Some ErrNoBrokerAvailable, m)
      | Some a \<Rightarrow> (case Client_Acknowledge eventID (the_client a m) of (err, c) \<Rightarrow> (err, put_client a c m)))"

definition Manager_Close :: "manager \<Rightarrow> manager" where
  "Manager_Close m =
     (if mg_once m then m
      else
        (let m1 = m\<lparr>mg_once := True, mg_done := True, mg_current := None\<rparr> in
         case mg_current m of
           None \<Rightarrow> m1
         | Some a \<Rightarrow> put_client a (Client_Close (the_client a m)) m1))"

text \<open>
  \<open>Publish\<close>, after the identifiers are set: at the head of its loop with the number of the
  attempt, in the \<open>select\<close> of the client's \<open>Publish\<close>, in its own \<open>select\<close>, or returned.
\<close>

datatype publisher =
    PubTry event nat
  | PubWait event nat addr addr string
  | PubPause event nat
  | PubReturned "go_error option"

definition maxPublishAttempts :: nat where
  "maxPublishAttempts = 50"

definition Manager_Publish :: "go_error + byte list \<Rightarrow> event \<Rightarrow> publisher" where
  "Manager_Publish random event =
     (case identify random event of Inl e \<Rightarrow> PubReturned (Some e) | Inr ev \<Rightarrow> PubTry ev 0)"

fun publish_step :: "go_error + byte list \<Rightarrow> ctx \<Rightarrow> publisher \<Rightarrow> manager \<Rightarrow> (publisher \<times> manager) list" where
  "publish_step random ctx (PubTry ev n) m =
     (if maxPublishAttempts \<le> n then [(PubReturned (Some ErrNoBrokerAvailable), m)]
      else
        (case mg_current m of
           None \<Rightarrow> [(PubPause ev n, m)]
         | Some a \<Rightarrow>
             (case publish_send random ev (the_client a m) of
                Inl (_, c) \<Rightarrow> [(PubPause ev n, put_client a c m)]
              | Inr (ch, i, c) \<Rightarrow> [(PubWait ev n a ch i, put_client a c m)])))"
| "publish_step random ctx (PubWait ev n a ch i) m =
     map (\<lambda>((_, err), c). (if err = None then PubReturned None else PubPause ev n, put_client a (publish_forget i c) m))
       (publish_wait ctx ch (the_client a m))"
| "publish_step random ctx (PubPause ev n) m =
     (if mg_done m then [(PubReturned (Some ErrClientClosed), m)] else []) @ [(PubTry ev (n + 1), m)]"
| "publish_step random ctx (PubReturned err) m = []"

subsection \<open>Connecting\<close>

text \<open>
  The points of \<open>connect\<close>: the endpoints still to dial, the topics still to subscribe to on
  the client just dialled, or the error it returns.
\<close>

datatype connecting =
    DialNext "string list"
  | SubscribeNext addr "string list" "string list"
  | ConnectReturned "go_error option"

text \<open>\<open>net\<close> is what the dialer returns for an address, \<open>ti\<close> the order of the topic map.\<close>

fun connect_step :: "(string \<Rightarrow> go_error + conn) \<Rightarrow> string iter \<Rightarrow> connecting \<Rightarrow> manager \<Rightarrow> connecting \<times> manager" where
  "connect_step net ti (DialNext []) m = (ConnectReturned (Some ErrNoBrokerAvailable), m)"
| "connect_step net ti (DialNext (endpoint # endpoints)) m =
     (case Dial (net endpoint) (mg_clientID m) of
        Inl _ \<Rightarrow> (DialNext endpoints, m)
      | Inr c \<Rightarrow>
          (SubscribeNext (length (mg_clients m)) (ti (mg_topics m)) endpoints,
           m\<lparr>mg_current := Some (length (mg_clients m)), mg_clients := mg_clients m @ [(c, Reading)]\<rparr>))"
| "connect_step net ti (SubscribeNext a [] endpoints) m = (ConnectReturned None, m)"
| "connect_step net ti (SubscribeNext a (topic # topics) endpoints) m =
     (case Client_Subscribe topic (the_client a m) of
        (None, c) \<Rightarrow> (SubscribeNext a topics endpoints, put_client a c m)
      | (Some _, c) \<Rightarrow> (DialNext endpoints, (put_client a (Client_Close c) m)\<lparr>mg_current := None\<rparr>))"
| "connect_step net ti (ConnectReturned err) m = (ConnectReturned err, m)"

text \<open>The whole of \<open>connect\<close>, when nothing else runs.\<close>

fun connect_size :: "connecting \<Rightarrow> nat \<times> nat" where
  "connect_size (DialNext es) = (length es, 1)"
| "connect_size (SubscribeNext a ts es) = (length es, length ts + 2)"
| "connect_size (ConnectReturned err) = (0, 0)"

function connect_loop :: "(nat \<Rightarrow> string \<Rightarrow> go_error + conn) \<Rightarrow> string iter \<Rightarrow> connecting \<Rightarrow> manager \<Rightarrow>
    go_error option \<times> manager" where
  "connect_loop net ti pc m =
     (case pc of
        ConnectReturned err \<Rightarrow> (err, m)
      | _ \<Rightarrow> (case connect_step (net (fst (connect_size pc))) ti pc m of (pc', m') \<Rightarrow> connect_loop net ti pc' m'))"
  by pat_completeness auto
termination
  by (relation "inv_image (less_than <*lex*> less_than) (\<lambda>(net, ti, pc, m). connect_size pc)")
    (auto elim!: connect_step.elims split: sum.splits prod.splits option.splits)

declare connect_loop.simps [simp del]

definition connect :: "(nat \<Rightarrow> string \<Rightarrow> go_error + conn) \<Rightarrow> string iter \<Rightarrow> manager \<Rightarrow> go_error option \<times> manager" where
  "connect net ti m = connect_loop net ti (DialNext (mg_endpoints m)) m"

text \<open>
  \<open>connectUntilAvailable\<close>: the rounds in which it dials, each with the case that its \<open>select\<close>
  takes after a failure, the timer (\<open>None\<close>) or the context's error; \<open>None\<close> if it has not
  returned within them.
\<close>

fun connectUntilAvailable :: "((nat \<Rightarrow> string \<Rightarrow> go_error + conn) \<times> ctx) list \<Rightarrow> string iter \<Rightarrow> manager \<Rightarrow>
    (go_error option \<times> manager) option" where
  "connectUntilAvailable [] ti m = None"
| "connectUntilAvailable ((net, ctx) # rounds) ti m =
     (case connect net ti m of
        (None, m') \<Rightarrow> Some (None, m')
      | (Some _, m') \<Rightarrow>
          (case ctx of
             Some e \<Rightarrow> Some (Some e, m')
           | None \<Rightarrow> connectUntilAvailable rounds ti m'))"

definition NewConnectionManager :: "((nat \<Rightarrow> string \<Rightarrow> go_error + conn) \<times> ctx) list \<Rightarrow> string iter \<Rightarrow> string list \<Rightarrow>
    string \<Rightarrow> (go_error + manager) option" where
  "NewConnectionManager rounds ti endpoints clientID =
     (if endpoints = [] then Some (Inl ErrNoBrokerAvailable)
      else
        map_option (\<lambda>(err, m). case err of Some e \<Rightarrow> Inl e | None \<Rightarrow> Inr m)
          (connectUntilAvailable rounds ti (new_manager endpoints clientID)))"


subsection \<open>The reconnecting goroutine\<close>

text \<open>\<open>prefer\<close>: the endpoint first, then the candidates that differ, in their order.\<close>

definition Manager_prefer :: "string \<Rightarrow> manager \<Rightarrow> manager" where
  "Manager_prefer endpoint m =
     m\<lparr>mg_endpoints := foldl (\<lambda>ordered candidate. if candidate \<noteq> endpoint then ordered @ [candidate] else ordered)
         [endpoint] (mg_endpoints m)\<rparr>"

text \<open>Durations in nanoseconds; \<open>backoff\<close> never has another value than its initial one.\<close>

definition initial_backoff :: int where
  "initial_backoff = 100 * 1000000"

definition next_delay :: "int \<Rightarrow> int" where
  "next_delay delay = (if delay < 5 * 1000000000 then delay * 2 else delay)"

text \<open>
  Where \<open>run\<close> can be: at the head of its loop, in the \<open>select\<close> of \<open>watch\<close> on a client, in the
  \<open>select\<close> that forwards an event, in the receive from \<open>Shutdowns\<close> that follows the end of the
  client's events or its \<open>Done\<close>, after \<open>watch\<close> with its two results, at the critical section
  that gives the client up, at the head of \<open>reconnect\<close>'s loop with its delay, in \<open>connect\<close>, in
  \<open>reconnect\<close>'s pause, or ended.
\<close>

datatype run =
    RunTop
  | Watching addr
  | Forwarding addr event
  | AwaitingShutdown addr
  | Watched addr string bool
  | GivingUp addr
  | Reconnecting int
  | Connecting int connecting
  | Pausing int
  | RunEnded

definition recv_shutdown :: "addr \<Rightarrow> manager \<Rightarrow> (run \<times> manager) option list" where
  "recv_shutdown a m =
     (let c = the_client a m in
      case chan_recv (cl_shutdowns c) of
        RecvOk redirect ch \<Rightarrow> [Some (Watched a redirect True, put_client a (c\<lparr>cl_shutdowns := ch\<rparr>) m)]
      | RecvClosed \<Rightarrow> [Some (Watched a [] False, m)]
      | RecvBlocks \<Rightarrow> [])"

definition watch_select :: "addr \<Rightarrow> manager \<Rightarrow> (run \<times> manager) option list" where
  "watch_select a m =
     (let c = the_client a m in
      (case chan_recv (cl_events c) of
         RecvOk event ch \<Rightarrow> [Some (Forwarding a event, put_client a (c\<lparr>cl_events := ch\<rparr>) m)]
       | RecvClosed \<Rightarrow> [Some (AwaitingShutdown a, m)]
       | RecvBlocks \<Rightarrow> [])
      @ recv_shutdown a m
      @ (if cl_done c then [Some (AwaitingShutdown a, m)] else [])
      @ (if mg_done m then [Some (Watched a [] False, m)] else []))"

definition watch_forward :: "addr \<Rightarrow> event \<Rightarrow> manager \<Rightarrow> (run \<times> manager) option list" where
  "watch_forward a event m =
     (case chan_send event (mg_events m) of
        SendOk ch \<Rightarrow> [Some (Watching a, m\<lparr>mg_events := ch\<rparr>)]
      | SendBlocks \<Rightarrow> []
      | SendPanics \<Rightarrow> [None])
     @ (if mg_done m then [Some (Watched a [] False, m)] else [])"

text \<open>A graceful end with a redirect moves it to the front and announces it if there is room.\<close>

definition run_redirect :: "string \<Rightarrow> bool \<Rightarrow> manager \<Rightarrow> manager option" where
  "run_redirect redirect graceful m =
     (if graceful \<and> redirect \<noteq> [] then
        (let m1 = Manager_prefer redirect m in
         case chan_send redirect (mg_shutdowns m1) of
           SendOk ch \<Rightarrow> Some (m1\<lparr>mg_shutdowns := ch\<rparr>)
         | SendBlocks \<Rightarrow> Some m1
         | SendPanics \<Rightarrow> None)
      else Some m)"

definition run_give_up :: "addr \<Rightarrow> manager \<Rightarrow> manager" where
  "run_give_up a m =
     (let m1 = (if mg_current m = Some a then m\<lparr>mg_current := None\<rparr> else m)
      in put_client a (Client_Close (the_client a m1)) m1)"

text \<open>The deferred calls; \<open>None\<close> is the panic of a second \<open>close\<close>.\<close>

definition run_exit :: "manager \<Rightarrow> (run \<times> manager) option" where
  "run_exit m =
     (case chan_close (mg_shutdowns m) of
        None \<Rightarrow> None
      | Some sh \<Rightarrow>
          (case chan_close (mg_events m) of
             None \<Rightarrow> None
           | Some ev \<Rightarrow> Some (RunEnded, m\<lparr>mg_shutdowns := sh, mg_events := ev\<rparr>)))"

text \<open>The results of the next step: empty while it blocks, \<open>None\<close> for a panic.\<close>

fun run_step :: "(string \<Rightarrow> go_error + conn) \<Rightarrow> string iter \<Rightarrow> run \<Rightarrow> manager \<Rightarrow> (run \<times> manager) option list" where
  "run_step net ti RunTop m =
     (case mg_current m of None \<Rightarrow> [Some (Reconnecting initial_backoff, m)] | Some a \<Rightarrow> [Some (Watching a, m)])"
| "run_step net ti (Watching a) m = watch_select a m"
| "run_step net ti (Forwarding a event) m = watch_forward a event m"
| "run_step net ti (AwaitingShutdown a) m = recv_shutdown a m"
| "run_step net ti (Watched a redirect graceful) m =
     [map_option (\<lambda>m'. (GivingUp a, m')) (run_redirect redirect graceful m)]"
| "run_step net ti (GivingUp a) m = [Some (Reconnecting initial_backoff, run_give_up a m)]"
| "run_step net ti (Reconnecting delay) m =
     (if mg_done m then [run_exit m] else [Some (Connecting delay (DialNext (mg_endpoints m)), m)])"
| "run_step net ti (Connecting delay (ConnectReturned None)) m = [Some (RunTop, m)]"
| "run_step net ti (Connecting delay (ConnectReturned (Some e))) m = [Some (Pausing delay, m)]"
| "run_step net ti (Connecting delay pc) m =
     (case connect_step net ti pc m of (pc', m') \<Rightarrow> [Some (Connecting delay pc', m')])"
| "run_step net ti (Pausing delay) m =
     [Some (Reconnecting (next_delay delay), m)] @ (if mg_done m then [run_exit m] else [])"
| "run_step net ti RunEnded m = []"

subsection \<open>Runs of a manager\<close>

record manager_sys =
  ms_manager :: manager
  ms_run :: run
  ms_publishers :: "publisher list"

text \<open>The dialer returns connections that are open; the read loops of all clients run on.\<close>

inductive manager_step :: "manager_sys \<Rightarrow> manager_sys \<Rightarrow> bool" where
  m_run: "(\<And>e cn. net e = Inr cn \<Longrightarrow> \<not> cn_closed cn) \<Longrightarrow> iteration_order ti \<Longrightarrow>
    Some (r, m) \<in> set (run_step net ti (ms_run s) (ms_manager s)) \<Longrightarrow>
    manager_step s (s\<lparr>ms_manager := m, ms_run := r\<rparr>)"
| m_loop: "a < length (mg_clients (ms_manager s)) \<Longrightarrow>
    Some (l, c) \<in> set (readLoop (the_loop a (ms_manager s)) (the_client a (ms_manager s))) \<Longrightarrow>
    manager_step s (s\<lparr>ms_manager := (ms_manager s)\<lparr>mg_clients := (mg_clients (ms_manager s))[a := (c, l)]\<rparr>\<rparr>)"
| m_subscribe: "Manager_Subscribe topic (ms_manager s) = (err, m) \<Longrightarrow> manager_step s (s\<lparr>ms_manager := m\<rparr>)"
| m_acknowledge: "Manager_Acknowledge i (ms_manager s) = (err, m) \<Longrightarrow> manager_step s (s\<lparr>ms_manager := m\<rparr>)"
| m_close: "manager_step s (s\<lparr>ms_manager := Manager_Close (ms_manager s)\<rparr>)"
| m_publish: "manager_step s (s\<lparr>ms_publishers := ms_publishers s @ [Manager_Publish random event]\<rparr>)"
| m_publisher: "i < length (ms_publishers s) \<Longrightarrow>
    (p, m) \<in> set (publish_step random ctx (ms_publishers s ! i) (ms_manager s)) \<Longrightarrow>
    manager_step s (s\<lparr>ms_manager := m, ms_publishers := (ms_publishers s)[i := p]\<rparr>)"
| m_event: "chan_recv (mg_events (ms_manager s)) = RecvOk ev ch \<Longrightarrow>
    manager_step s (s\<lparr>ms_manager := (ms_manager s)\<lparr>mg_events := ch\<rparr>\<rparr>)"
| m_shutdown: "chan_recv (mg_shutdowns (ms_manager s)) = RecvOk r ch \<Longrightarrow>
    manager_step s (s\<lparr>ms_manager := (ms_manager s)\<lparr>mg_shutdowns := ch\<rparr>\<rparr>)"

definition manager_init :: "manager_sys \<Rightarrow> bool" where
  "manager_init s \<longleftrightarrow>
     (\<exists>rounds ti endpoints clientID. iteration_order ti
        \<and> (\<forall>(net, ctx) \<in> set rounds. \<forall>n e cn. net n e = Inr cn \<longrightarrow> \<not> cn_closed cn)
        \<and> NewConnectionManager rounds ti endpoints clientID = Some (Inr (ms_manager s)))
     \<and> ms_run s = RunTop \<and> ms_publishers s = []"

end
