(* ===== verification/Manager_Invariant.thy ===== *)
theory Manager_Invariant
  imports Connection_Manager
begin

text \<open>
  The invariant of the connection manager and its preservation: every client it dialled keeps
  the invariant of \<open>Client\<close>, whoever holds it; the manager's channels are closed exactly when
  \<open>run\<close> has ended; pauses and attempts stay within their bounds.
\<close>

section \<open>The invariant\<close>

abbreviation client_at :: "client \<times> loop \<Rightarrow> (addr \<times> string) list \<Rightarrow> client_sys" where
  "client_at p w \<equiv> \<lparr>cs_client = fst p, cs_loop = snd p, cs_waiting = w\<rparr>"

definition delay_ok :: "int \<Rightarrow> bool" where
  "delay_ok d \<longleftrightarrow> (\<exists>k \<le> 6. d = initial_backoff * 2 ^ k)"

fun run_ok :: "run \<Rightarrow> manager \<Rightarrow> bool" where
  "run_ok RunTop m = True"
| "run_ok (Watching a) m = (a < length (mg_clients m))"
| "run_ok (Forwarding a _) m = (a < length (mg_clients m))"
| "run_ok (AwaitingShutdown a) m = (a < length (mg_clients m))"
| "run_ok (Watched a _ _) m = (a < length (mg_clients m))"
| "run_ok (GivingUp a) m = (a < length (mg_clients m))"
| "run_ok (Reconnecting d) m = delay_ok d"
| "run_ok (Connecting d (SubscribeNext a _ _)) m = (delay_ok d \<and> a < length (mg_clients m))"
| "run_ok (Connecting d _) m = delay_ok d"
| "run_ok (Pausing d) m = delay_ok d"
| "run_ok RunEnded m = mg_done m"

fun publisher_ok :: "publisher \<Rightarrow> manager \<Rightarrow> bool" where
  "publisher_ok (PubTry _ n) m = (n \<le> maxPublishAttempts)"
| "publisher_ok (PubWait _ n a ch _) m =
     (n < maxPublishAttempts \<and> a < length (mg_clients m) \<and> ch < length (cl_acks (the_client a m)))"
| "publisher_ok (PubPause _ n) m = (n < maxPublishAttempts)"
| "publisher_ok (PubReturned _) m = True"

definition core_ok :: "bool \<Rightarrow> manager \<Rightarrow> bool" where
  "core_ok ended m \<longleftrightarrow>
     (\<forall>p \<in> set (mg_clients m). client_ok (client_at p []))
     \<and> (\<forall>a. mg_current m = Some a \<longrightarrow> a < length (mg_clients m))
     \<and> mg_endpoints m \<noteq> [] \<and> distinct (mg_topics m)
     \<and> chan_ok 64 ended (mg_events m) \<and> chan_ok 1 ended (mg_shutdowns m) \<and> mg_once m = mg_done m"

definition manager_ok :: "manager_sys \<Rightarrow> bool" where
  "manager_ok s \<longleftrightarrow> core_ok (ms_run s = RunEnded) (ms_manager s) \<and> run_ok (ms_run s) (ms_manager s)
     \<and> (\<forall>p \<in> set (ms_publishers s). publisher_ok p (ms_manager s))"

lemma core_okD:
  assumes "core_ok e m"
  shows "a < length (mg_clients m) \<Longrightarrow> client_ok (client_at (mg_clients m ! a) [])"
    "mg_current m = Some a \<Longrightarrow> a < length (mg_clients m)" "mg_endpoints m \<noteq> []" "distinct (mg_topics m)"
    "chan_ok 64 e (mg_events m)" "chan_ok 1 e (mg_shutdowns m)" "mg_once m = mg_done m"
  using assms by (auto simp: core_ok_def)

text \<open>Clients stay, their channels of acknowledgements stay, and \<open>done\<close> stays closed.\<close>

definition grows :: "manager \<Rightarrow> manager \<Rightarrow> bool" where
  "grows m m' \<longleftrightarrow> length (mg_clients m) \<le> length (mg_clients m') \<and> (mg_done m \<longrightarrow> mg_done m')
     \<and> (\<forall>a < length (mg_clients m). length (cl_acks (the_client a m)) \<le> length (cl_acks (the_client a m')))"

lemma grows_refl [simp]: "grows m m"
  by (simp add: grows_def)

lemma grows_trans [trans]: "grows m m1 \<Longrightarrow> grows m1 m2 \<Longrightarrow> grows m m2"
  unfolding grows_def by (meson order_less_le_trans order_trans)

lemma grows_fields: "mg_clients m' = mg_clients m \<Longrightarrow> (mg_done m \<Longrightarrow> mg_done m') \<Longrightarrow> grows m m'"
  by (simp add: grows_def)

lemma run_ok_grows: "run_ok r m \<Longrightarrow> grows m m' \<Longrightarrow> run_ok r m'"
  by (cases "(r, m)" rule: run_ok.cases) (auto simp: grows_def)

lemma publisher_ok_grows: "publisher_ok p m \<Longrightarrow> grows m m' \<Longrightarrow> publisher_ok p m'"
  by (cases p) (auto simp: grows_def intro: order_less_le_trans)

lemma client_ok_waiting:
  "client_ok (client_at p w) \<longleftrightarrow> client_ok (client_at p []) \<and> (\<forall>(a, _) \<in> set w. a < length (cl_acks (fst p)))"
  by (auto simp: client_ok_def Let_def)

section \<open>Operations on one client\<close>

text \<open>The channels of acknowledgements are never taken away from a client.\<close>

lemma readLoop_acks:
  assumes "Some (l', c') \<in> set (readLoop l c)" "acks_ok c"
  shows "length (cl_acks c) \<le> length (cl_acks c')"
proof (cases l)
  case Reading
  obtain res cn where cn: "conn_read_frame (cl_conn c) = (res, cn)" by (metis prod.exhaust)
  have "cl_acks c' = cl_acks c" if "client_frame f (c\<lparr>cl_conn := cn\<rparr>) = (l', c')" for f
    using client_frame_ok [OF _ that] assms(2) acks_ok_cong [of "c\<lparr>cl_conn := cn\<rparr>" c]
    by (simp add: same_but_window_def)
  from this [OF sym] show ?thesis using assms(1) Reading cn by (auto split: sum.splits)
qed (use assms(1) in \<open>auto simp: read_exit_def Client_Close_def Let_def
  split: send_result.splits option.splits if_splits\<close>)

text \<open>A call on a client, or a turn of its loop, keeps the manager's invariant.\<close>

lemma core_ok_client:
  assumes "core_ok e m" "client_ok (client_at (c, l) [])"
  shows "core_ok e (m\<lparr>mg_clients := (mg_clients m)[a := (c, l)]\<rparr>)"
  using assms set_update_subset_insert [of "mg_clients m" a "(c, l)"] by (auto simp: core_ok_def)

lemma grows_client:
  assumes "length (cl_acks (the_client a m)) \<le> length (cl_acks c)"
  shows "grows m (m\<lparr>mg_clients := (mg_clients m)[a := (c, l)]\<rparr>)"
  using assms by (auto simp: grows_def nth_update_at)

lemma put_client_simps [simp]:
  "mg_current (put_client a c m) = mg_current m" "mg_endpoints (put_client a c m) = mg_endpoints m"
  "mg_topics (put_client a c m) = mg_topics m" "mg_events (put_client a c m) = mg_events m"
  "mg_shutdowns (put_client a c m) = mg_shutdowns m" "mg_done (put_client a c m) = mg_done m"
  "mg_once (put_client a c m) = mg_once m" "length (mg_clients (put_client a c m)) = length (mg_clients m)"
  "mg_clientID (put_client a c m) = mg_clientID m"
  by (simp_all add: put_client_def)

lemma put_client_ok:
  assumes "core_ok e m" "a < length (mg_clients m)" "client_ok (client_at (mg_clients m ! a) w)"
    and "client_ok ((client_at (mg_clients m ! a) w)\<lparr>cs_client := c\<rparr>)"
    and "length (cl_acks (the_client a m)) \<le> length (cl_acks c)"
  shows "core_ok e (put_client a c m) \<and> grows m (put_client a c m)"
proof -
  have "client_ok (client_at (c, the_loop a m) w)" using assms(4) by simp
  then have "client_ok (client_at (c, the_loop a m) [])"
    using client_ok_waiting [of "(c, the_loop a m)" w] by simp
  then show ?thesis using core_ok_client [OF assms(1)] grows_client [OF assms(5)] by (simp add: put_client_def)
qed

lemma put_client_same:
  assumes "core_ok e m" "a < length (mg_clients m)" "same_but_window (the_client a m) c"
  shows "core_ok e (put_client a c m) \<and> grows m (put_client a c m)"
proof -
  note ok = core_okD(1) [OF assms(1,2)]
  have "client_ok ((client_at (mg_clients m ! a) [])\<lparr>cs_client := c\<rparr>)"
    using client_ok_same [OF ok, of c] assms(3) by simp
  then show ?thesis using assms(1,2) ok same_but_window_acks [OF assms(3)] by (intro put_client_ok) simp_all
qed

lemma put_client_close:
  assumes "core_ok e m" "a < length (mg_clients m)"
  shows "core_ok e (put_client a (Client_Close (the_client a m)) m)
    \<and> grows m (put_client a (Client_Close (the_client a m)) m)"
proof -
  note ok = core_okD(1) [OF assms]
  have "client_ok ((client_at (mg_clients m ! a) [])\<lparr>cs_client := Client_Close (the_client a m)\<rparr>)"
    using client_ok_step [OF c_close ok] by simp
  then show ?thesis using assms ok by (intro put_client_ok) (simp_all add: Client_Close_def)
qed


section \<open>The application's calls\<close>

lemma core_ok_topics: "core_ok e m \<Longrightarrow> core_ok e (m\<lparr>mg_topics := List.insert t (mg_topics m)\<rparr>)"
  by (simp add: core_ok_def)

lemma core_ok_current: "core_ok e m \<Longrightarrow> core_ok e (m\<lparr>mg_current := None\<rparr>)"
  by (simp add: core_ok_def)

lemma Manager_Subscribe_ok:
  assumes "core_ok e m" "Manager_Subscribe t m = (err, m')"
  shows "core_ok e m' \<and> grows m m'"
proof -
  let ?m1 = "m\<lparr>mg_topics := List.insert t (mg_topics m)\<rparr>"
  have m1: "core_ok e ?m1" "grows m ?m1" using core_ok_topics [OF assms(1)] by (simp_all add: grows_fields)
  show ?thesis
  proof (cases "mg_current m")
    case None
    with assms(2) m1 show ?thesis by (auto simp: Manager_Subscribe_def)
  next
    case (Some a)
    then have m': "m' = put_client a (snd (Client_Subscribe t (the_client a ?m1))) ?m1"
      using assms(2) by (auto simp: Manager_Subscribe_def Let_def split: prod.splits)
    have "core_ok e m' \<and> grows ?m1 m'"
      unfolding m' using m1(1) core_okD(2) [OF assms(1) Some] by (intro put_client_same) simp_all
    with m1(2) show ?thesis using grows_trans by blast
  qed
qed

lemma Manager_Acknowledge_ok:
  assumes "core_ok e m" "Manager_Acknowledge i m = (err, m')"
  shows "core_ok e m' \<and> grows m m'"
proof (cases "mg_current m")
  case None
  with assms show ?thesis by (auto simp: Manager_Acknowledge_def)
next
  case (Some a)
  then have m': "m' = put_client a (snd (Client_Acknowledge i (the_client a m))) m"
    using assms(2) by (auto simp: Manager_Acknowledge_def split: prod.splits)
  show ?thesis unfolding m' using core_okD(2) [OF assms(1) Some] by (intro put_client_same [OF assms(1)]) simp_all
qed

lemma Manager_Close_ok:
  assumes "core_ok e m"
  shows "core_ok e (Manager_Close m) \<and> grows m (Manager_Close m)"
proof -
  let ?m1 = "m\<lparr>mg_once := True, mg_done := True, mg_current := None\<rparr>"
  have m1: "core_ok e ?m1" "grows m ?m1" using assms by (simp_all add: core_ok_def grows_fields)
  have "core_ok e (put_client a (Client_Close (the_client a m)) ?m1) \<and> grows ?m1 (put_client a (Client_Close (the_client a m)) ?m1)"
    if "mg_current m = Some a" for a
    using put_client_close [OF m1(1), of a] core_okD(2) [OF assms that] by simp
  with m1 grows_trans show ?thesis
    using assms by (auto simp: Manager_Close_def Let_def split: option.splits)
qed

lemma Manager_Publish_ok: "publisher_ok (Manager_Publish random ev) m"
  by (simp add: Manager_Publish_def split: sum.splits)

lemma publish_step_ok:
  assumes "core_ok e m" "publisher_ok p m" "(p', m') \<in> set (publish_step random ctx p m)"
  shows "core_ok e m' \<and> grows m m' \<and> publisher_ok p' m'"
proof (cases p)
  case (PubTry ev n)
  show ?thesis
  proof (cases "maxPublishAttempts \<le> n \<or> mg_current m = None")
    case True
    with assms PubTry show ?thesis by (auto split: if_splits)
  next
    case False
    then obtain a where a: "mg_current m = Some a" and n: "n < maxPublishAttempts" by auto
    have al: "a < length (mg_clients m)" using core_okD(2) [OF assms(1) a] .
    note ok = core_okD(1) [OF assms(1) al]
    show ?thesis
    proof (cases "publish_send random ev (the_client a m)")
      case (Inl x)
      then obtain er c where c: "publish_send random ev (the_client a m) = Inl (er, c)" by (cases x) auto
      have "core_ok e (put_client a c m) \<and> grows m (put_client a c m)"
        using client_ok_publish(1) [OF ok, of random ev er c] publish_send_acks(1) [OF c] c
        by (intro put_client_ok [OF assms(1) al ok]) auto
      with assms(3) PubTry False a n c show ?thesis by auto
    next
      case (Inr x)
      then obtain ch i c where c: "publish_send random ev (the_client a m) = Inr (ch, i, c)" by (cases x) auto
      have "client_ok (client_at (c, the_loop a m) [(ch, i)])"
        using client_ok_publish(2) [OF ok, of random ev ch i c] c by simp
      then have "client_ok ((client_at (mg_clients m ! a) [])\<lparr>cs_client := c\<rparr>)"
        using client_ok_waiting [of "(c, the_loop a m)" "[(ch, i)]"] by simp
      then have "core_ok e (put_client a c m) \<and> grows m (put_client a c m)"
        using publish_send_acks(2) [OF c] by (intro put_client_ok [OF assms(1) al ok]) auto
      moreover have "publisher_ok (PubWait ev n a ch i) (put_client a c m)"
        using publish_send_acks(2) [OF c] al n by (auto simp: put_client_def)
      ultimately show ?thesis using assms(3) PubTry False a n c by auto
    qed
  qed
next
  case (PubWait ev n a ch i)
  then have al: "a < length (mg_clients m)" and ch: "ch < length (cl_acks (the_client a m))" and n: "n < maxPublishAttempts"
    using assms(2) by simp_all
  note ok = core_okD(1) [OF assms(1) al]
  have okw: "client_ok (client_at (mg_clients m ! a) [(ch, i)])"
    using client_ok_waiting [of "mg_clients m ! a" "[(ch, i)]"] ok ch by simp
  obtain r c where r: "(r, c) \<in> set (publish_wait ctx ch (the_client a m))"
    and m': "m' = put_client a (publish_forget i c) m" and p': "p' \<in> {PubReturned None, PubPause ev n}"
    using assms(3) PubWait by (auto split: if_splits)
  have 1: "client_ok ((client_at (mg_clients m ! a) [(ch, i)])\<lparr>cs_client := c\<rparr>)"
    using client_ok_wait [OF okw, of ch i r c ctx] r by simp
  have 2: "client_ok ((client_at (mg_clients m ! a) [(ch, i)])\<lparr>cs_client := publish_forget i c\<rparr>)"
    using client_ok_forget [OF 1, of i] by simp
  have "length (cl_acks c) = length (cl_acks (the_client a m))"
    using r by (auto simp: publish_wait_def split: recv_result.splits option.splits if_splits)
  then have "core_ok e m' \<and> grows m m'"
    unfolding m' using 2 by (intro put_client_ok [OF assms(1) al okw]) (simp_all add: publish_forget_def)
  with p' n show ?thesis by auto
qed (use assms in \<open>auto split: if_splits\<close>)

section \<open>Connecting\<close>

abbreviation dials_open :: "(string \<Rightarrow> go_error + conn) \<Rightarrow> bool" where
  "dials_open net \<equiv> \<forall>e cn. net e = Inr cn \<longrightarrow> \<not> cn_closed cn"

lemma Dial_ok:
  assumes "Dial r clientID = Inr c" "\<And>cn. r = Inr cn \<Longrightarrow> \<not> cn_closed cn"
  shows "client_ok (client_at (c, Reading) [])"
proof -
  obtain cn where cn: "r = Inr cn" using assms(1) by (cases r) (auto simp: Dial_def)
  have "client_init (client_at (c, Reading) [])"
    using assms cn by (auto simp: client_init_def intro!: exI [of _ cn] exI [of _ clientID])
  then show ?thesis by (rule client_ok_init)
qed

fun connecting_ok :: "connecting \<Rightarrow> manager \<Rightarrow> bool" where
  "connecting_ok (SubscribeNext a _ _) m = (a < length (mg_clients m))"
| "connecting_ok _ m = True"

lemma connect_step_ok:
  assumes "core_ok e m" "connecting_ok pc m" "dials_open net" "connect_step net ti pc m = (pc', m')"
  shows "core_ok e m' \<and> grows m m' \<and> connecting_ok pc' m'"
proof (cases "(net, ti, pc, m)" rule: connect_step.cases)
  case (2 net' ti' endpoint endpoints m'')
  then have pc: "pc = DialNext (endpoint # endpoints)" by simp
  show ?thesis
  proof (cases "Dial (net endpoint) (mg_clientID m)")
    case (Inr c)
    have "client_ok (client_at (c, Reading) [])" using Dial_ok [OF Inr] assms(3) by blast
    then have "core_ok e m'" "grows m m'" "connecting_ok pc' m'"
      using assms(1,4) pc Inr by (auto simp: core_ok_def grows_def nth_append)
    then show ?thesis by blast
  qed (use assms(1,4) pc in auto)
next
  case (4 net' ti' a topic topics endpoints m'')
  then have pc: "pc = SubscribeNext a (topic # topics) endpoints" by simp
  obtain err c where c: "Client_Subscribe topic (the_client a m) = (err, c)" by (metis prod.exhaust)
  have a: "a < length (mg_clients m)" using assms(2) pc by simp
  have "same_but_window (the_client a m) c" using same_but_window_Subscribe(1) [of "the_client a m" topic] c by simp
  then have m1: "core_ok e (put_client a c m)" "grows m (put_client a c m)"
    using put_client_same [OF assms(1) a] by blast+
  have "the_client a (put_client a c m) = c" using a by (simp add: put_client_def)
  then have "put_client a (Client_Close (the_client a (put_client a c m))) (put_client a c m) = put_client a (Client_Close c) m"
    using a by (simp add: put_client_def)
  then have m2: "core_ok e (put_client a (Client_Close c) m)" "grows (put_client a c m) (put_client a (Client_Close c) m)"
    using put_client_close [OF m1(1), of a] a by simp_all
  have m3: "core_ok e ((put_client a (Client_Close c) m)\<lparr>mg_current := None\<rparr>)"
      "grows (put_client a (Client_Close c) m) ((put_client a (Client_Close c) m)\<lparr>mg_current := None\<rparr>)"
    using core_ok_current [OF m2(1)] by (simp_all add: grows_def)
  show ?thesis
    using assms(4) pc c a m1 m3(1) grows_trans [OF m1(2) grows_trans [OF m2(2) m3(2)]] by (auto split: option.splits)
qed (use assms(1,4) in auto)

text \<open>\<open>connect\<close> as the repetition of its steps.\<close>

lemma connect_loop_returned [simp]: "connect_loop net ti (ConnectReturned err) m = (err, m)"
  by (simp add: connect_loop.simps)

lemma connect_loop_step:
  assumes "\<And>err. pc \<noteq> ConnectReturned err" "connect_step (net (fst (connect_size pc))) ti pc m = (pc', m')"
  shows "connect_loop net ti pc m = connect_loop net ti pc' m'"
proof (cases pc)
  case (ConnectReturned err)
  with assms(1) show ?thesis by blast
qed (use assms(2) in \<open>subst connect_loop.simps, simp\<close>)+

lemma connect_step_size:
  assumes "\<And>err. pc \<noteq> ConnectReturned err" "connect_step net ti pc m = (pc', m')"
  shows "(connect_size pc', connect_size pc) \<in> less_than <*lex*> less_than"
  using assms by (auto elim!: connect_step.elims split: sum.splits prod.splits option.splits)

lemma connect_induct [case_names returned step]:
  fixes net :: "nat \<Rightarrow> string \<Rightarrow> go_error + conn"
  assumes "\<And>err m. P (ConnectReturned err) m"
    and "\<And>pc m pc' m'. (\<And>err. pc \<noteq> ConnectReturned err) \<Longrightarrow>
      connect_step (net (fst (connect_size pc))) ti pc m = (pc', m') \<Longrightarrow> P pc' m' \<Longrightarrow> P pc m"
  shows "P pc m"
proof -
  have "wf (less_than <*lex*> less_than)" by blast
  then show ?thesis
  proof (induction "connect_size pc" arbitrary: pc m rule: wf_induct_rule)
    case (less pc m)
    show ?case
    proof (cases "\<exists>err. pc = ConnectReturned err")
      case False
      obtain pc' m' where s: "connect_step (net (fst (connect_size pc))) ti pc m = (pc', m')" by (metis prod.exhaust)
      with False less.hyps [OF connect_step_size [OF _ s]] show ?thesis by (intro assms(2) [OF _ s]) auto
    qed (use assms(1) in blast)
  qed
qed

lemma connect_loop_ok:
  assumes "core_ok e m" "connecting_ok pc m" "\<And>n. dials_open (net n)" "connect_loop net ti pc m = (err, m')"
  shows "core_ok e m'"
  using assms
proof (induction pc m rule: connect_induct [where net = net and ti = ti])
  case (step pc m pc' m1)
  have "core_ok e m1 \<and> connecting_ok pc' m1" using connect_step_ok [OF step.prems(1,2,3) step.hyps(2)] by blast
  moreover have "connect_loop net ti pc m = connect_loop net ti pc' m1"
    using connect_loop_step [of pc net ti m pc' m1] step.hyps by blast
  ultimately show ?case using step.IH step.prems(3,4) by simp
qed simp

lemma connect_ok:
  "core_ok e m \<Longrightarrow> (\<And>n. dials_open (net n)) \<Longrightarrow> connect net ti m = (err, m') \<Longrightarrow> core_ok e m'"
  unfolding connect_def by (rule connect_loop_ok) simp_all

lemma connectUntilAvailable_ok:
  assumes "core_ok e m" "\<forall>(net, ctx) \<in> set rounds. \<forall>n. dials_open (net n)"
    and "connectUntilAvailable rounds ti m = Some (err, m')"
  shows "core_ok e m'"
  using assms
proof (induction rounds arbitrary: m)
  case (Cons r rounds)
  obtain net ctx er m1 where r: "r = (net, ctx)" "connect net ti m = (er, m1)" by (metis prod.exhaust)
  have "core_ok e m1" using connect_ok [OF Cons.prems(1) _ r(2)] Cons.prems(2) r(1) by auto
  with Cons r show ?case by (auto split: option.splits)
qed simp

section \<open>The reconnecting goroutine\<close>

lemma delay_initial [simp]: "delay_ok initial_backoff"
  by (auto simp: delay_ok_def intro: exI [of _ 0])

lemma delay_next:
  assumes "delay_ok d"
  shows "delay_ok (next_delay d)"
proof -
  obtain k where k: "k \<le> 6" "d = initial_backoff * 2 ^ k" using assms by (auto simp: delay_ok_def)
  show ?thesis
  proof (cases "k = 6")
    case True
    then show ?thesis using assms k by (simp add: next_delay_def initial_backoff_def)
  next
    case False
    then have "Suc k \<le> 6" "d * 2 = initial_backoff * 2 ^ Suc k" using k by simp_all
    then have "delay_ok (d * 2)" unfolding delay_ok_def by blast
    with assms show ?thesis by (simp add: next_delay_def)
  qed
qed

lemma prefer_fields [simp]:
  "mg_clients (Manager_prefer r m) = mg_clients m" "mg_current (Manager_prefer r m) = mg_current m"
  "mg_topics (Manager_prefer r m) = mg_topics m" "mg_events (Manager_prefer r m) = mg_events m"
  "mg_shutdowns (Manager_prefer r m) = mg_shutdowns m" "mg_done (Manager_prefer r m) = mg_done m"
  "mg_once (Manager_prefer r m) = mg_once m" "mg_clientID (Manager_prefer r m) = mg_clientID m"
  by (simp_all add: Manager_prefer_def)

lemma prefer_eq: "mg_endpoints (Manager_prefer r m) = r # removeAll r (mg_endpoints m)"
proof -
  have "foldl (\<lambda>ordered candidate. if candidate \<noteq> r then ordered @ [candidate] else ordered) acc es = acc @ removeAll r es"
    for acc es by (induction es arbitrary: acc) auto
  then show ?thesis by (simp add: Manager_prefer_def)
qed

lemma chan_ok_no_panic: "chan_ok n False ch \<Longrightarrow> chan_send x ch \<noteq> SendPanics" "chan_ok n False ch \<Longrightarrow> \<exists>ch'. chan_close ch = Some ch' \<and> chan_ok n True ch'"
  by (auto simp: chan_ok_def chan_send_def chan_close_def)

text \<open>The receives of \<open>watch\<close> are steps of the client.\<close>

lemma put_client_recv:
  assumes "core_ok e m" "a < length (mg_clients m)"
  shows "chan_recv (cl_events (the_client a m)) = RecvOk ev ch \<Longrightarrow>
      core_ok e (put_client a ((the_client a m)\<lparr>cl_events := ch\<rparr>) m) \<and> grows m (put_client a ((the_client a m)\<lparr>cl_events := ch\<rparr>) m)"
    and "chan_recv (cl_shutdowns (the_client a m)) = RecvOk r sh \<Longrightarrow>
      core_ok e (put_client a ((the_client a m)\<lparr>cl_shutdowns := sh\<rparr>) m) \<and> grows m (put_client a ((the_client a m)\<lparr>cl_shutdowns := sh\<rparr>) m)"
proof -
  note ok = core_okD(1) [OF assms]
  let ?s = "client_at (mg_clients m ! a) []"
  show "core_ok e (put_client a ((the_client a m)\<lparr>cl_events := ch\<rparr>) m) \<and> grows m (put_client a ((the_client a m)\<lparr>cl_events := ch\<rparr>) m)"
    if "chan_recv (cl_events (the_client a m)) = RecvOk ev ch"
    using client_ok_step [OF c_event [of ?s ev ch] ok] that ok by (intro put_client_ok [OF assms]) simp_all
  show "core_ok e (put_client a ((the_client a m)\<lparr>cl_shutdowns := sh\<rparr>) m) \<and> grows m (put_client a ((the_client a m)\<lparr>cl_shutdowns := sh\<rparr>) m)"
    if "chan_recv (cl_shutdowns (the_client a m)) = RecvOk r sh"
    using client_ok_step [OF c_shutdown [of ?s r sh] ok] that ok by (intro put_client_ok [OF assms]) simp_all
qed

text \<open>A result of a step of \<open>run\<close> that keeps the invariant.\<close>

definition good_step :: "manager \<Rightarrow> (run \<times> manager) option \<Rightarrow> bool" where
  "good_step m x \<longleftrightarrow>
     (\<exists>r' m'. x = Some (r', m') \<and> core_ok (r' = RunEnded) m' \<and> grows m m' \<and> run_ok r' m')"

lemma good_stepI: "core_ok (r' = RunEnded) m' \<Longrightarrow> grows m m' \<Longrightarrow> run_ok r' m' \<Longrightarrow> good_step m (Some (r', m'))"
  by (simp add: good_step_def)

lemma recv_shutdown_good:
  assumes "core_ok False m" "a < length (mg_clients m)" "x \<in> set (recv_shutdown a m)"
  shows "good_step m x"
  using assms(3) put_client_recv(2) [OF assms(1,2)] assms(1,2)
  by (auto simp: recv_shutdown_def Let_def intro!: good_stepI split: recv_result.splits)

lemma watch_select_good:
  assumes "core_ok False m" "a < length (mg_clients m)" "x \<in> set (watch_select a m)"
  shows "good_step m x"
  using assms(3) put_client_recv(1) [OF assms(1,2)] recv_shutdown_good [OF assms(1,2)] assms(1,2)
  by (auto simp: watch_select_def Let_def intro!: good_stepI split: recv_result.splits if_splits)

lemma watch_forward_good:
  assumes "core_ok False m" "a < length (mg_clients m)" "x \<in> set (watch_forward a ev m)"
  shows "good_step m x"
proof -
  have "core_ok False (m\<lparr>mg_events := ch\<rparr>)" if "chan_send ev (mg_events m) = SendOk ch" for ch
    using assms(1) chan_ok_send [OF _ that] by (auto simp: core_ok_def)
  moreover have "chan_send ev (mg_events m) \<noteq> SendPanics"
    using core_okD(5) [OF assms(1)] by (rule chan_ok_no_panic(1))
  ultimately show ?thesis
    using assms by (auto simp: watch_forward_def grows_fields intro!: good_stepI split: send_result.splits if_splits)
qed

lemma run_redirect_good:
  assumes "core_ok False m"
  shows "\<exists>m'. run_redirect r graceful m = Some m' \<and> core_ok False m' \<and> grows m m'
    \<and> mg_clients m' = mg_clients m"
proof -
  have 1: "core_ok False (Manager_prefer r m)" using assms by (simp add: core_ok_def prefer_eq)
  have "core_ok False ((Manager_prefer r m)\<lparr>mg_shutdowns := ch\<rparr>)" if "chan_send r (mg_shutdowns m) = SendOk ch" for ch
    using 1 chan_ok_send [OF core_okD(6) [OF assms] that] by (simp add: core_ok_def)
  moreover have "chan_send r (mg_shutdowns m) \<noteq> SendPanics"
    using core_okD(6) [OF assms] by (rule chan_ok_no_panic(1))
  ultimately show ?thesis
    using 1 assms by (auto simp: run_redirect_def Let_def grows_fields split: send_result.splits)
qed

lemma run_give_up_good:
  assumes "core_ok False m" "a < length (mg_clients m)"
  shows "core_ok False (run_give_up a m) \<and> grows m (run_give_up a m)"
proof -
  let ?m1 = "if mg_current m = Some a then m\<lparr>mg_current := None\<rparr> else m"
  have m1: "core_ok False ?m1" "grows m ?m1" "mg_clients ?m1 = mg_clients m"
    using core_ok_current [OF assms(1)] assms(1) by (simp_all add: grows_fields)
  have "core_ok False (run_give_up a m) \<and> grows ?m1 (run_give_up a m)"
    unfolding run_give_up_def Let_def using assms(2) m1(3) by (intro put_client_close [OF m1(1)]) simp
  with grows_trans [OF m1(2)] show ?thesis by blast
qed

lemma run_exit_good:
  assumes "core_ok False m" "mg_done m"
  shows "good_step m (run_exit m)"
proof -
  obtain sh ev where "chan_close (mg_shutdowns m) = Some sh" "chan_ok 1 True sh" "chan_close (mg_events m) = Some ev" "chan_ok 64 True ev"
    using chan_ok_no_panic(2) core_okD(5,6) [OF assms(1)] by meson
  with assms show ?thesis by (auto simp: run_exit_def core_ok_def grows_fields intro!: good_stepI)
qed

lemma run_step_good:
  assumes "core_ok (r = RunEnded) m" "run_ok r m" "dials_open net" "x \<in> set (run_step net ti r m)"
  shows "good_step m x"
proof (cases r)
  case RunTop
  with assms core_okD(2) [OF assms(1)] show ?thesis by (auto intro!: good_stepI split: option.splits)
next
  case (Watching a)
  with assms show ?thesis by (intro watch_select_good) simp_all
next
  case (Forwarding a ev)
  with assms show ?thesis by (intro watch_forward_good) simp_all
next
  case (AwaitingShutdown a)
  with assms show ?thesis by (intro recv_shutdown_good) simp_all
next
  case (Watched a redirect graceful)
  with assms run_redirect_good [of m redirect graceful] show ?thesis by (auto intro!: good_stepI)
next
  case (GivingUp a)
  with assms run_give_up_good [of m a] show ?thesis by (auto intro!: good_stepI)
next
  case (Reconnecting d)
  with assms run_exit_good [of m] show ?thesis by (auto intro!: good_stepI split: if_splits)
next
  case (Connecting d pc)
  show ?thesis
  proof (cases "\<exists>err. pc = ConnectReturned err")
    case True
    then obtain err where "pc = ConnectReturned err" by blast
    with assms Connecting show ?thesis by (cases err) (auto intro!: good_stepI)
  next
    case False
    obtain pc' m' where s: "connect_step net ti pc m = (pc', m')" by (metis prod.exhaust)
    have x: "x = Some (Connecting d pc', m')"
      using assms(4) Connecting False s by (cases pc) auto
    have "delay_ok d" "connecting_ok pc m" using assms(2) Connecting by (cases pc; simp)+
    with connect_step_ok [OF _ _ assms(3) s] assms(1) Connecting have "core_ok False m' \<and> grows m m' \<and> run_ok (Connecting d pc') m'"
      by (cases pc') auto
    then show ?thesis unfolding x by (intro good_stepI) simp_all
  qed
next
  case (Pausing d)
  with assms run_exit_good [of m] delay_next [of d] show ?thesis by (auto intro!: good_stepI split: if_splits)
qed (use assms(4) in simp)

section \<open>Runs\<close>

lemma manager_ok_core:
  assumes "manager_ok s" "core_ok (ms_run s = RunEnded) m" "grows (ms_manager s) m"
  shows "manager_ok (s\<lparr>ms_manager := m\<rparr>)"
  using assms run_ok_grows publisher_ok_grows by (auto simp: manager_ok_def)

lemma manager_ok_step: "manager_step s s' \<Longrightarrow> manager_ok s \<Longrightarrow> manager_ok s'"
proof (induction rule: manager_step.induct)
  case (m_run net ti r m s)
  then have "good_step (ms_manager s) (Some (r, m))"
    by (intro run_step_good [of "ms_run s"]) (auto simp: manager_ok_def)
  with m_run(4) publisher_ok_grows show ?case by (auto simp: manager_ok_def good_step_def)
next
  case (m_loop a s l c)
  let ?m = "ms_manager s"
  have core: "core_ok (ms_run s = RunEnded) ?m" using m_loop(3) by (simp add: manager_ok_def)
  note ok = core_okD(1) [OF core m_loop(1)]
  have "client_ok (client_at (c, l) [])" using readLoop_ok [OF ok, of "Some (l, c)"] m_loop(2) by simp
  moreover have "length (cl_acks (the_client a ?m)) \<le> length (cl_acks c)"
    using readLoop_acks [OF m_loop(2)] client_okD(2) [OF ok] by simp
  ultimately show ?case by (intro manager_ok_core m_loop(3) core_ok_client [OF core] grows_client)
next
  case (m_subscribe topic s err m)
  then show ?case using Manager_Subscribe_ok by (intro manager_ok_core) (auto simp: manager_ok_def)
next
  case (m_acknowledge i s err m)
  then show ?case using Manager_Acknowledge_ok by (intro manager_ok_core) (auto simp: manager_ok_def)
next
  case (m_close s)
  then show ?case using Manager_Close_ok by (intro manager_ok_core) (auto simp: manager_ok_def)
next
  case (m_publish s random event)
  then show ?case using Manager_Publish_ok by (auto simp: manager_ok_def)
next
  case (m_publisher i s p m random ctx)
  let ?q = "ms_publishers s ! i"
  have "publisher_ok ?q (ms_manager s)" using m_publisher(1,3) nth_mem by (auto simp: manager_ok_def)
  with publish_step_ok [OF _ _ m_publisher(2)] m_publisher(3)
  have m: "core_ok (ms_run s = RunEnded) m" "grows (ms_manager s) m" "publisher_ok p m" by (auto simp: manager_ok_def)
  have "manager_ok (s\<lparr>ms_manager := m\<rparr>)" by (rule manager_ok_core [OF m_publisher(3) m(1,2)])
  with m(3) set_update_subset_insert [of "ms_publishers s" i p] show ?case by (auto simp: manager_ok_def)
next
  case (m_event s ev ch)
  then have "core_ok (ms_run s = RunEnded) ((ms_manager s)\<lparr>mg_events := ch\<rparr>)"
    using chan_ok_recv by (auto simp: manager_ok_def core_ok_def)
  then show ?case by (intro manager_ok_core [OF m_event(2)]) (simp_all add: grows_fields)
next
  case (m_shutdown s r ch)
  then have "core_ok (ms_run s = RunEnded) ((ms_manager s)\<lparr>mg_shutdowns := ch\<rparr>)"
    using chan_ok_recv by (auto simp: manager_ok_def core_ok_def)
  then show ?case by (intro manager_ok_core [OF m_shutdown(2)]) (simp_all add: grows_fields)
qed

lemma manager_ok_init: "manager_init s \<Longrightarrow> manager_ok s"
proof -
  assume init: "manager_init s"
  then obtain rounds ti endpoints clientID where new: "NewConnectionManager rounds ti endpoints clientID = Some (Inr (ms_manager s))"
    and net: "\<forall>(net, ctx) \<in> set rounds. \<forall>n. dials_open (net n)" and s: "ms_run s = RunTop" "ms_publishers s = []"
    unfolding manager_init_def by fast
  have e: "endpoints \<noteq> []" using new by (auto simp: NewConnectionManager_def)
  then obtain err where u: "connectUntilAvailable rounds ti (new_manager endpoints clientID) = Some (err, ms_manager s)"
    using new by (auto simp: NewConnectionManager_def split: option.splits)
  have "core_ok False (new_manager endpoints clientID)"
    using e by (simp add: core_ok_def new_manager_def chan_ok_def make_chan_def)
  from connectUntilAvailable_ok [OF this net u] s show ?thesis by (simp add: manager_ok_def)
qed

interpretation manager_runs: invariant_system manager_init manager_step manager_ok
  by unfold_locales (blast intro: manager_ok_init manager_ok_step)+

end
