(* ===== verification/Client_Properties.thy ===== *)
theory Client_Properties
  imports Client
begin

text \<open>
  Properties of the TCP client: its goroutines never panic, its record of acknowledged
  deliveries suppresses redeliveries, acknowledgements reach the publisher that waits for
  them, and the states in which its read loop ends or cannot end.
\<close>

section \<open>Frames that arrive\<close>

lemma read_turn:
  assumes "valid_frame f" "\<not> cn_closed (cl_conn c)" "rd_pending (cn_in (cl_conn c)) = frame_bytes f @ rest"
  obtains cn where "readLoop Reading c = [Some (client_frame f (c\<lparr>cl_conn := cn\<rparr>))]"
    "rd_pending (cn_in cn) = rest" "cn_out cn = cn_out (cl_conn c)" "\<not> cn_closed cn"
proof -
  obtain r where "read_frame (cn_in (cl_conn c)) = (Inr f, r)" "rd_pending r = rest"
    using read_frame_bytes [OF assms(1,3)] by blast
  with assms(2) that [of "(cl_conn c)\<lparr>cn_in := r\<rparr>"] show ?thesis
    by (simp add: conn_read_frame_def)
qed

lemma send_buffered:
  assumes "valid_frame f" "\<not> cl_done c" "usable_conn (cl_conn c)"
  obtains cn where "client_send f c = (None, c\<lparr>cl_conn := cn\<rparr>)" "usable_conn cn"
    "sent_bytes cn = sent_bytes (cl_conn c) @ frame_bytes f" "cn_in cn = cn_in (cl_conn c)"
  using conn_write_ok [OF assms(3,1)] assms(2) that by (auto simp: client_send_def)

lemma Dial_open:
  obtains cn where "Dial (Inr (open_conn bs)) ''c'' = Inr ((new_client (open_conn bs))\<lparr>cl_conn := cn\<rparr>)"
    "usable_conn cn" "rd_pending (cn_in cn) = bs"
proof -
  have "valid_frame (mk_frame TypeConnect (string_field ''c''))"
    by (rule valid_mk_frame) (simp_all add: TypeConnect_def string_field_def)
  then obtain cn where "client_send (mk_frame TypeConnect (string_field ''c'')) (new_client (open_conn bs))
      = (None, (new_client (open_conn bs))\<lparr>cl_conn := cn\<rparr>)" "usable_conn cn" "cn_in cn = bytes_reader bs"
    by (rule send_buffered [of _ "new_client (open_conn bs)"])
      (auto simp: new_client_def open_conn_def healthy_def)
  moreover have "encodeConnect \<lparr>cm_ClientID = ''c''\<rparr> = Inr (string_field ''c'')"
    by (simp add: encodeConnect_eq short_string_def maxUint16_eq)
  ultimately show ?thesis
    using that by (simp add: Dial_def bytes_reader_def rd_pending_def)
qed

abbreviation sys_of :: "client \<Rightarrow> client_sys" where
  "sys_of c \<equiv> \<lparr>cs_client = c, cs_loop = Reading, cs_waiting = []\<rparr>"

lemma reach_connected:
  obtains cn where "reach client_init client_step (sys_of ((new_client (open_conn bs))\<lparr>cl_conn := cn\<rparr>))"
    "usable_conn cn" "rd_pending (cn_in cn) = bs"
proof (rule Dial_open [of bs])
  fix cn
  assume dial: "Dial (Inr (open_conn bs)) ''c'' = Inr ((new_client (open_conn bs))\<lparr>cl_conn := cn\<rparr>)"
    and cn: "usable_conn cn" "rd_pending (cn_in cn) = bs"
  have "client_init (sys_of ((new_client (open_conn bs))\<lparr>cl_conn := cn\<rparr>))"
    using dial by (auto simp: client_init_def open_conn_def intro!: exI [of _ "open_conn bs"])
  then show ?thesis using that cn by (blast intro: reach_init)
qed

section \<open>Properties\<close>

subsection \<open>The connection's life\<close>

text \<open>
  C14 (the client's goroutines). In every state a client reaches, however the application's
  calls and the read loop interleave, the next step of the loop does not panic: it never
  sends on a closed channel and never closes one twice. \<open>Events\<close> and \<open>Shutdowns\<close> are closed
  exactly when the loop has ended, which implies that \<open>Done\<close> and the connection are closed;
  the record of acknowledged deliveries holds at most 4096 identifiers.
\<close>

theorem client_never_panics:
  assumes "reach client_init client_step s"
  shows "None \<notin> set (readLoop (cs_loop s) (cs_client s))
    \<and> chan_closed (cl_events (cs_client s)) = (cs_loop s = Finished)
    \<and> chan_closed (cl_shutdowns (cs_client s)) = (cs_loop s = Finished)
    \<and> (cs_loop s = Finished \<longrightarrow> cl_done (cs_client s) \<and> cn_closed (cl_conn (cs_client s)))
    \<and> length (cl_ackedIDs (cs_client s)) \<le> 4096
    \<and> (\<forall>i. wasDelivered i (cs_client s) = (i \<in> set (cl_ackedIDs (cs_client s))))"
proof -
  have ok: "client_ok s" using assms by (rule client_runs.reach_inv)
  note D = client_okD [OF ok]
  have "None \<notin> set (readLoop (cs_loop s) (cs_client s))" using readLoop_ok [OF ok] by blast
  moreover have "cs_loop s = Finished \<Longrightarrow> cl_done (cs_client s)" using D(3) by (cases "cs_loop s") auto
  ultimately show ?thesis
    using D by (auto simp: chan_ok_def window_ok_def wasDelivered_def maxRememberedDeliveries_def)
qed

theorem client_never_panics_witness:
  "\<exists>s :: client_sys. cs_loop s = Reading \<and> None \<notin> set (readLoop (cs_loop s) (cs_client s))
     \<and> \<not> chan_closed (cl_events (cs_client s)) \<and> length (cl_ackedIDs (cs_client s)) \<le> 4096"
proof (rule reach_connected [of "[]"])
  fix cn
  assume "reach client_init client_step (sys_of ((new_client (open_conn []))\<lparr>cl_conn := cn\<rparr>))"
  from client_never_panics [OF this] show ?thesis
    by - (rule exI [of _ "sys_of ((new_client (open_conn []))\<lparr>cl_conn := cn\<rparr>)"], simp)
qed

subsection \<open>Redelivery\<close>

lemma Acknowledge_ok:
  assumes "Client_Acknowledge i c = (None, c')"
  obtains p c1 where "i \<noteq> []" "encodeAck \<lparr>am_ID = i, am_Status = ackDelivered, am_Error = []\<rparr> = Inr p"
    "client_send (mk_frame TypeAck p) c = (None, c1)" "c' = rememberDelivery i c1"
  using assms by (auto simp: Client_Acknowledge_def split: if_splits sum.splits prod.splits option.splits)

lemma window_ok_send: "window_ok c \<Longrightarrow> client_send f c = (err, c1) \<Longrightarrow> window_ok c1"
  using same_but_window_send [of c f] by (simp add: same_but_window_def)

text \<open>
  C16 (an acknowledged event is not shown again). Once \<open>Acknowledge\<close> has confirmed an event,
  and as long as fewer than 4096 other events were acknowledged after it, an EVENT frame with
  its identifier, a retry that crossed the acknowledgement, leaves the application's channel
  alone: the loop goes on reading and the confirmation is sent again when the connection
  still works.
\<close>

theorem acknowledged_event_not_exposed:
  assumes "reach client_init client_step s" "\<not> wasDelivered i (cs_client s)"
    and "Client_Acknowledge i (cs_client s) = (None, c1)" "length later < 4096"
    and "decodeEvent p = Inr ev" "ev_ID ev = i"
  defines "c2 \<equiv> fold rememberDelivery later c1"
  shows "client_frame (mk_frame TypeEvent p) c2 = (Reading, snd (Client_Acknowledge i c2))
    \<and> cl_events (snd (Client_Acknowledge i c2)) = cl_events c2
    \<and> (usable_conn (cl_conn c2) \<and> \<not> cl_done c2 \<longrightarrow>
         (\<exists>q. encodeAck \<lparr>am_ID = i, am_Status = ackDelivered, am_Error = []\<rparr> = Inr q
            \<and> sent_bytes (cl_conn (snd (Client_Acknowledge i c2)))
                = sent_bytes (cl_conn c2) @ frame_bytes (mk_frame TypeAck q)))"
proof -
  have ok: "window_ok (cs_client s)" using client_runs.reach_inv [OF assms(1)] by (rule client_okD)
  obtain q c0 where q: "i \<noteq> []" "encodeAck \<lparr>am_ID = i, am_Status = ackDelivered, am_Error = []\<rparr> = Inr q"
      "client_send (mk_frame TypeAck q) (cs_client s) = (None, c0)" "c1 = rememberDelivery i c0"
    by (rule Acknowledge_ok [OF assms(3)])
  have c0: "window_ok c0" "cl_acked c0 = cl_acked (cs_client s)"
    using window_ok_send [OF ok q(3)] client_send_fields(7) [of "mk_frame TypeAck q" "cs_client s"] q(3) by simp_all
  have "i \<in> set (cl_acked c2)"
    unfolding c2_def q(4)
    using client_memory.fifo_retains [OF c0(1), of i later] c0(2) assms(2,4)
    by (simp add: wasDelivered_def maxRememberedDeliveries_def)
  then have seen: "wasDelivered i c2" by (simp add: wasDelivered_def)
  have "valid_frame (mk_frame TypeAck q)"
    using q(3) conn_write_sent [of "mk_frame TypeAck q" "cl_conn (cs_client s)"]
    by (auto simp: client_send_def split: if_splits prod.splits)
  then have "sent_bytes (cl_conn (snd (Client_Acknowledge i c2))) = sent_bytes (cl_conn c2) @ frame_bytes (mk_frame TypeAck q)"
    if "usable_conn (cl_conn c2)" "\<not> cl_done c2"
    using that q(1,2) by (auto simp: Client_Acknowledge_def intro: send_buffered [of "mk_frame TypeAck q" c2])
  moreover have "cl_events (snd (Client_Acknowledge i c2)) = cl_events c2"
    using same_but_window_ack [of c2 i] by (simp add: same_but_window_def)
  ultimately show ?thesis
    using seen assms(5,6) q(2) by (auto simp: client_frame_def on_event_def)
qed

text \<open>The event of the samples, as it arrives and as it is acknowledged.\<close>

definition sample_payload :: "byte list" where
  "sample_payload = publish_bytes (message_of_event (sample_event ''1''))"

definition ack_payload :: "byte \<Rightarrow> byte list" where
  "ack_payload st = ack_bytes \<lparr>am_ID = ''1'', am_Status = st, am_Error = []\<rparr>"

lemma decode_sample: "decodeEvent sample_payload = Inr (sample_event ''1'')"
  by (simp add: sample_payload_def decodeEvent_def decodePublish_bytes publish_fits_def message_of_event_def
      event_of_message_def short_string_def maxUint16_eq MaxPayloadSize_eq)

lemma ack_payload_codec:
  "decodeAck (ack_payload st) = Inr \<lparr>am_ID = ''1'', am_Status = st, am_Error = []\<rparr>"
  "encodeAck \<lparr>am_ID = ''1'', am_Status = st, am_Error = []\<rparr> = Inr (ack_payload st)"
  by (simp_all add: ack_payload_def decodeAck_bytes encodeAck_eq ack_fits_def short_string_def maxUint16_eq)

lemma ack_frame_valid: "valid_frame (mk_frame TypeAck (ack_payload st))"
  by (rule valid_mk_frame) (simp_all add: TypeAck_def ack_payload_def ack_bytes_def string_field_def)

theorem acknowledged_event_not_exposed_witness:
  "\<exists>c. wasDelivered ''1'' c
     \<and> client_frame (mk_frame TypeEvent sample_payload) c = (Reading, snd (Client_Acknowledge ''1'' c))"
proof (rule reach_connected [of "[]"])
  fix cn
  let ?c = "(new_client (open_conn []))\<lparr>cl_conn := cn\<rparr>"
  assume r: "reach client_init client_step (sys_of ?c)" and cn: "usable_conn cn"
  obtain cn' where send: "client_send (mk_frame TypeAck (ack_payload ackDelivered)) ?c = (None, ?c\<lparr>cl_conn := cn'\<rparr>)"
    by (rule send_buffered [OF ack_frame_valid [of ackDelivered], of ?c]) (use cn in \<open>simp_all add: new_client_def\<close>)
  let ?c1 = "rememberDelivery ''1'' (?c\<lparr>cl_conn := cn'\<rparr>)"
  have "Client_Acknowledge ''1'' (cs_client (sys_of ?c)) = (None, ?c1)"
    by (simp add: Client_Acknowledge_def ack_payload_codec(2) send del: client.update_convs)
  with acknowledged_event_not_exposed [OF r, of "''1''" ?c1 "[]" sample_payload "sample_event ''1''"] decode_sample
  have "client_frame (mk_frame TypeEvent sample_payload) ?c1 = (Reading, snd (Client_Acknowledge ''1'' ?c1))"
    by (simp add: wasDelivered_def new_client_def)
  moreover have "wasDelivered ''1'' ?c1"
    by (simp add: wasDelivered_def rememberDelivery_def new_client_def maxRememberedDeliveries_def)
  ultimately show ?thesis by blast
qed

subsection \<open>Acknowledgements of publishes\<close>


lemma publish_send_sample:
  assumes "\<not> cl_done c" "usable_conn (cl_conn c)"
  obtains cn where
    "publish_send random (sample_event ''1'') c =
       Inr (length (cl_acks c), ''1'', snd (publish_register ''1'' c)\<lparr>cl_conn := cn\<rparr>)"
    "usable_conn cn" "cn_in cn = cn_in (cl_conn c)"
proof -
  let ?ev = "(sample_event ''1'')\<lparr>ev_IdempotencyKey := ''1''\<rparr>"
  let ?p = "publish_bytes (message_of_event ?ev)"
  let ?c = "snd (publish_register ''1'' c)"
  have id: "identify random (sample_event ''1'') = Inr ?ev" by (simp add: identify_def)
  have enc: "encodePublish (message_of_event ?ev) = Inr ?p"
    by (simp add: encodePublish_eq publish_fits_def message_of_event_def short_string_def maxUint16_eq MaxPayloadSize_eq)
  have "valid_frame (mk_frame TypePublish ?p)"
    by (rule valid_mk_frame) (simp_all add: TypePublish_def publish_bytes_def message_of_event_def
        string_field_def bytes_field_def)
  then obtain cn where "client_send (mk_frame TypePublish ?p) ?c = (None, ?c\<lparr>cl_conn := cn\<rparr>)"
      "usable_conn cn" "cn_in cn = cn_in (cl_conn c)"
    by (rule send_buffered [of _ ?c]) (use assms in \<open>auto simp: publish_register_def\<close>)
  with that [of cn] id enc show ?thesis
    by (simp add: publish_send_def publish_register_def)
qed


subsection \<open>How the read loop ends\<close>



text \<open>The loop at the send of an acknowledgement into a full channel no publisher waits on.\<close>

definition orphaned :: "ackMessage \<Rightarrow> addr \<Rightarrow> client_sys \<Rightarrow> bool" where
  "orphaned ack a s \<longleftrightarrow>
     cs_loop s = Handing ack a \<and> a < length (cl_acks (cs_client s))
     \<and> length (chan_buf (cl_acks (cs_client s) ! a)) = 1 \<and> a \<notin> fst ` set (cs_waiting s)"

lemma orphaned_step: "client_step s s' \<Longrightarrow> client_ok s \<Longrightarrow> orphaned ack a s \<Longrightarrow> orphaned ack a s'"
proof (induction rule: client_step.induct)
  case (c_loop l c s)
  have "chan_ok 1 False (cl_acks (cs_client s) ! a)"
    using client_okD(2) [OF c_loop(2)] c_loop(3) by (simp add: acks_ok_def orphaned_def)
  with c_loop(1,3) show ?case by (auto simp: orphaned_def chan_send_def chan_ok_def)
next
  case (c_subscribe topic s err c)
  then show ?case using same_but_window_acks [OF same_but_window_Subscribe(1), of topic "cs_client s"]
    by (simp add: orphaned_def)
next
  case (c_unsubscribe topic s err c)
  then show ?case using same_but_window_acks [OF same_but_window_Subscribe(2), of topic "cs_client s"]
    by (simp add: orphaned_def)
next
  case (c_acknowledge i s err c)
  then show ?case using same_but_window_acks [OF same_but_window_ack, of i "cs_client s"]
    by (simp add: orphaned_def)
next
  case (c_publish_fails random event s e c)
  then show ?case using publish_send_acks(1) [OF c_publish_fails(1)] by (auto simp: orphaned_def nth_append)
next
  case (c_publish random event s a' i c)
  then show ?case using publish_send_acks(2) [OF c_publish(1)] by (auto simp: orphaned_def nth_append)
next
  case (c_publish_returns a' i s r c ctx)
  then have "a' \<noteq> a" by (force simp: orphaned_def)
  with c_publish_returns(2,4) have "orphaned ack a (s\<lparr>cs_client := c\<rparr>)"
    by (auto simp: orphaned_def publish_wait_def split: recv_result.splits option.splits if_splits)
  then show ?case
    using set_remove1_subset [of "(a', i)" "cs_waiting s"] by (auto simp: orphaned_def publish_forget_def)
qed (auto simp: orphaned_def Client_Close_def)

text \<open>
  C37 (an acknowledgement nobody waits for stops the client). The send of an acknowledgement
  to a publisher has no case for \<open>done\<close>: if the publisher has returned without emptying its
  channel, the read loop never leaves that send, whatever the application does, \<open>Close\<close>
  included. No event is read any more and \<open>Events\<close> is never closed.
\<close>

theorem orphan_ack_stops_loop:
  assumes "reach client_init client_step s" "orphaned ack a s" "client_step\<^sup>*\<^sup>* s s'"
  shows "cs_loop s' = Handing ack a \<and> \<not> chan_closed (cl_events (cs_client s'))"
proof -
  have "client_ok s" using assms(1) by (rule client_runs.reach_inv)
  from assms(3) this assms(2) have "client_ok s' \<and> orphaned ack a s'"
    by (induction rule: rtranclp_induct) (auto intro: client_ok_step orphaned_step)
  then show ?thesis using client_okD(4) [of s'] by (auto simp: orphaned_def chan_ok_def)
qed

text \<open>
  A run to such a state: two answers with the publisher's identifier arrive before it
  returns, and its context ends.
\<close>

lemma reach_orphaned:
  defines "ack \<equiv> \<lparr>am_ID = ''1'', am_Status = ackPublished, am_Error = []\<rparr>"
  shows "\<exists>s. reach client_init client_step s \<and> orphaned ack 0 s"
proof (rule reach_connected [of "frame_bytes (mk_frame TypeAck (ack_payload ackPublished))
      @ frame_bytes (mk_frame TypeAck (ack_payload ackPublished)) @ []"])
  let ?f = "mk_frame TypeAck (ack_payload ackPublished)"
  fix cn
  let ?c = "(new_client (open_conn (frame_bytes ?f @ frame_bytes ?f @ [])))\<lparr>cl_conn := cn\<rparr>"
  assume r: "reach client_init client_step (sys_of ?c)" and cn: "usable_conn cn"
    "rd_pending (cn_in cn) = frame_bytes ?f @ frame_bytes ?f @ []"
  obtain cn1 where sent: "publish_send (Inr []) (sample_event ''1'') ?c =
      Inr (length (cl_acks ?c), ''1'', snd (publish_register ''1'' ?c)\<lparr>cl_conn := cn1\<rparr>)"
      and cn1: "usable_conn cn1" "cn_in cn1 = cn_in cn"
    by (rule publish_send_sample [of ?c "Inr []"]) (use cn in \<open>simp_all add: new_client_def\<close>)
  define c1 where "c1 = snd (publish_register ''1'' ?c)\<lparr>cl_conn := cn1\<rparr>"
  have c1: "cl_acks c1 = [make_chan 1]" "cl_pending c1 = [(''1'', 0)]" "cl_conn c1 = cn1"
    by (simp_all add: c1_def publish_register_def new_client_def)
  have frame: "client_frame ?f c = (Handing ack 0, c)" if "cl_pending c = [(''1'', 0)]" for c
    using that by (simp add: client_frame_def on_ack_def ack_payload_codec(1) TypeAck_def TypeEvent_def ack_def)
  obtain cn2 where r2: "readLoop Reading c1 = [Some (client_frame ?f (c1\<lparr>cl_conn := cn2\<rparr>))]"
      "rd_pending (cn_in cn2) = frame_bytes ?f @ []" "\<not> cn_closed cn2"
    by (rule read_turn [OF ack_frame_valid, of c1 ackPublished "frame_bytes ?f @ []"]) (use cn cn1 c1 in simp_all)
  define c3 where "c3 = c1\<lparr>cl_conn := cn2, cl_acks := [(make_chan 1)\<lparr>chan_buf := [ack]\<rparr>]\<rparr>"
  obtain cn4 where r4: "readLoop Reading c3 = [Some (client_frame ?f (c3\<lparr>cl_conn := cn4\<rparr>))]"
    by (rule read_turn [OF ack_frame_valid, of c3 ackPublished "[]"]) (use r2 in \<open>simp_all add: c3_def\<close>)
  define c4 where "c4 = c3\<lparr>cl_conn := cn4\<rparr>"
  let ?s = "\<lambda>c l. \<lparr>cs_client = c, cs_loop = l, cs_waiting = [(0, ''1'')]\<rparr>"
  have "client_step (sys_of ?c) (?s c1 Reading)"
    using c_publish [of "Inr []" "sample_event ''1''" "sys_of ?c"] sent by (simp add: c1_def new_client_def)
  moreover have "client_step (?s c1 Reading) (?s (c1\<lparr>cl_conn := cn2\<rparr>) (Handing ack 0))"
    using c_loop [of "Handing ack 0" "c1\<lparr>cl_conn := cn2\<rparr>" "?s c1 Reading"] r2(1) frame [of "c1\<lparr>cl_conn := cn2\<rparr>"] c1
    by (simp del: readLoop.simps)
  moreover have "client_step (?s (c1\<lparr>cl_conn := cn2\<rparr>) (Handing ack 0)) (?s c3 Reading)"
    using c_loop [of Reading c3 "?s (c1\<lparr>cl_conn := cn2\<rparr>) (Handing ack 0)"] c1
    by (simp add: chan_send_def make_chan_def c3_def)
  moreover have "client_step (?s c3 Reading) (?s c4 (Handing ack 0))"
    using c_loop [of "Handing ack 0" c4 "?s c3 Reading"] r4 frame [of c4] c1
    by (simp add: c4_def c3_def del: readLoop.simps)
  moreover have "client_step (?s c4 (Handing ack 0))
      \<lparr>cs_client = publish_forget ''1'' c4, cs_loop = Handing ack 0, cs_waiting = []\<rparr>"
    using c_publish_returns [of 0 "''1''" "?s c4 (Handing ack 0)" "(PublishNone, Some ContextDeadlineExceeded)" c4
        "Some ContextDeadlineExceeded"]
    by (simp add: publish_wait_def split: recv_result.splits)
  ultimately have "reach client_init client_step
      \<lparr>cs_client = publish_forget ''1'' c4, cs_loop = Handing ack 0, cs_waiting = []\<rparr>"
    using r by (meson reach_step)
  moreover have "orphaned ack 0 \<lparr>cs_client = publish_forget ''1'' c4, cs_loop = Handing ack 0, cs_waiting = []\<rparr>"
    by (simp add: orphaned_def publish_forget_def c4_def c3_def)
  ultimately show ?thesis by blast
qed

theorem orphan_ack_stops_loop_witness:
  "\<exists>ack a s. orphaned ack a s \<and> cs_loop (s\<lparr>cs_client := Client_Close (cs_client s)\<rparr>) = Handing ack a
     \<and> \<not> chan_closed (cl_events (cs_client (s\<lparr>cs_client := Client_Close (cs_client s)\<rparr>)))"
proof -
  obtain ack s where s: "reach client_init client_step s" "orphaned ack 0 s" using reach_orphaned by blast
  have "client_step\<^sup>*\<^sup>* s (s\<lparr>cs_client := Client_Close (cs_client s)\<rparr>)"
    using c_close by (rule r_into_rtranclp)
  from orphan_ack_stops_loop [OF s this] s(2) show ?thesis by blast
qed

end
