(* ===== verification/Manager_Properties.thy ===== *)
theory Manager_Properties
  imports Manager_Invariant Client_Properties
begin

text \<open>
  Properties of the connection manager: no goroutine panics and all pauses are bounded,
  \<open>connect\<close> chooses the first endpoint that answers and subscribes again, a redirect is
  dialled next, a publish is retried with one and the same message a bounded number of times,
  and closing ends \<open>run\<close>.
\<close>

section \<open>A sample manager\<close>

text \<open>Two endpoints of which only the second answers, on a connection with the given input.\<close>

definition sample_net :: "byte list \<Rightarrow> string \<Rightarrow> go_error + conn" where
  "sample_net bs e = (if e = ''b'' then Inr (open_conn bs) else Inl (NetError ''connection refused''))"

lemma sample_net_open: "dials_open (sample_net bs)"
  by (auto simp: sample_net_def)

section \<open>Safety\<close>


section \<open>Connecting\<close>

text \<open>The frames with which a client introduces itself and subscribes.\<close>

definition connect_frame :: "string \<Rightarrow> frame" where
  "connect_frame clientID = mk_frame TypeConnect (string_field clientID)"

definition subscribe_frame :: "string \<Rightarrow> frame" where
  "subscribe_frame topic = mk_frame TypeSubscribe (string_field topic)"

lemma string_field_length: "short_string t \<Longrightarrow> length (string_field t) \<le> 16777216"
  by (simp add: string_field_def short_string_def maxUint16_eq)

lemma Dial_usable:
  assumes "usable_conn cn" "short_string clientID"
  obtains cn' where "Dial (Inr cn) clientID = Inr ((new_client cn)\<lparr>cl_conn := cn'\<rparr>)" "usable_conn cn'"
    "sent_bytes cn' = sent_bytes cn @ frame_bytes (connect_frame clientID)" "cn_in cn' = cn_in cn"
proof -
  have "valid_frame (connect_frame clientID)"
    unfolding connect_frame_def by (rule valid_mk_frame) (simp_all add: TypeConnect_def string_field_length assms(2))
  then obtain cn' where "client_send (connect_frame clientID) (new_client cn) = (None, (new_client cn)\<lparr>cl_conn := cn'\<rparr>)"
      "usable_conn cn'" "sent_bytes cn' = sent_bytes cn @ frame_bytes (connect_frame clientID)" "cn_in cn' = cn_in cn"
    by (rule send_buffered [of _ "new_client cn"]) (use assms(1) in \<open>auto simp: new_client_def\<close>)
  with that assms(2) show ?thesis
    by (simp add: Dial_def encodeConnect_eq connect_frame_def)
qed

lemma Subscribe_usable:
  assumes "usable_conn (cl_conn c)" "\<not> cl_done c" "short_string t"
  obtains cn' where "Client_Subscribe t c = (None, c\<lparr>cl_conn := cn'\<rparr>)" "usable_conn cn'"
    "sent_bytes cn' = sent_bytes (cl_conn c) @ frame_bytes (subscribe_frame t)" "cn_in cn' = cn_in (cl_conn c)"
proof -
  have "valid_frame (subscribe_frame t)"
    unfolding subscribe_frame_def by (rule valid_mk_frame) (simp_all add: TypeSubscribe_def string_field_length assms(3))
  then obtain cn' where "client_send (subscribe_frame t) c = (None, c\<lparr>cl_conn := cn'\<rparr>)"
      "usable_conn cn'" "sent_bytes cn' = sent_bytes (cl_conn c) @ frame_bytes (subscribe_frame t)" "cn_in cn' = cn_in (cl_conn c)"
    by (rule send_buffered [of _ c]) (use assms in auto)
  with that assms(3) show ?thesis by (simp add: Client_Subscribe_def encodeTopic_eq subscribe_frame_def)
qed

text \<open>Subscribing to the topics on a connection that works.\<close>

lemma connect_subscribes:
  assumes "a < length (mg_clients m)" "usable_conn (cl_conn (the_client a m))" "\<not> cl_done (the_client a m)"
    and "\<forall>t \<in> set ts. short_string t"
  shows "\<exists>cn'. connect_loop net ti (SubscribeNext a ts es) m = (None, put_client a ((the_client a m)\<lparr>cl_conn := cn'\<rparr>) m)
    \<and> usable_conn cn' \<and> sent_bytes cn' = sent_bytes (cl_conn (the_client a m)) @ concat (map (\<lambda>t. frame_bytes (subscribe_frame t)) ts)
    \<and> cn_in cn' = cn_in (cl_conn (the_client a m))"
  using assms
proof (induction ts arbitrary: m)
  case Nil
  have "connect_loop net ti (SubscribeNext a [] es) m = (None, m)"
    by (simp add: connect_loop_step [of _ net ti m "ConnectReturned None" m])
  moreover have "put_client a ((the_client a m)\<lparr>cl_conn := cl_conn (the_client a m)\<rparr>) m = m" by (simp add: put_client_def)
  ultimately show ?case using Nil.prems(2) by (intro exI [of _ "cl_conn (the_client a m)"]) simp
next
  case (Cons t ts)
  let ?c = "the_client a m"
  have t: "short_string t" using Cons.prems(4) by simp
  obtain cn' where s: "Client_Subscribe t ?c = (None, ?c\<lparr>cl_conn := cn'\<rparr>)" "usable_conn cn'"
    "sent_bytes cn' = sent_bytes (cl_conn ?c) @ frame_bytes (subscribe_frame t)" "cn_in cn' = cn_in (cl_conn ?c)"
    by (rule Subscribe_usable [OF Cons.prems(2,3) t])
  let ?m1 = "put_client a (?c\<lparr>cl_conn := cn'\<rparr>) m"
  have c1: "the_client a ?m1 = ?c\<lparr>cl_conn := cn'\<rparr>" using Cons.prems(1) by (simp add: put_client_def)
  have "connect_loop net ti (SubscribeNext a (t # ts) es) m = connect_loop net ti (SubscribeNext a ts es) ?m1"
    by (rule connect_loop_step) (simp_all add: s(1))
  moreover obtain cn2 where "connect_loop net ti (SubscribeNext a ts es) ?m1
      = (None, put_client a ((the_client a ?m1)\<lparr>cl_conn := cn2\<rparr>) ?m1)" "usable_conn cn2"
    "sent_bytes cn2 = sent_bytes cn' @ concat (map (\<lambda>t. frame_bytes (subscribe_frame t)) ts)" "cn_in cn2 = cn_in cn'"
    using Cons.IH [of ?m1] Cons.prems s(2) c1 by auto
  moreover have "put_client a ((the_client a ?m1)\<lparr>cl_conn := cn2\<rparr>) ?m1 = put_client a (?c\<lparr>cl_conn := cn2\<rparr>) m"
    unfolding c1 using Cons.prems(1) by (simp add: put_client_def)
  ultimately show ?case using s(3,4) by (intro exI [of _ cn2]) simp
qed

text \<open>The first endpoint that answers; the number counts the endpoints still to dial.\<close>

fun first_answer :: "(nat \<Rightarrow> string \<Rightarrow> go_error + conn) \<Rightarrow> string list \<Rightarrow> conn option" where
  "first_answer net [] = None"
| "first_answer net (e # es) =
     (case net (Suc (length es)) e of Inl _ \<Rightarrow> first_answer net es | Inr cn \<Rightarrow> Some cn)"

lemma connect_dials:
  assumes "\<forall>n e cn. net n e = Inr cn \<longrightarrow> usable_conn cn" "short_string (mg_clientID m)"
    and "\<forall>t \<in> set (ti (mg_topics m)). short_string t"
  shows "first_answer net es = None \<Longrightarrow> connect_loop net ti (DialNext es) m = (Some ErrNoBrokerAvailable, m)"
    and "first_answer net es = Some cn \<Longrightarrow> \<exists>cn'. connect_loop net ti (DialNext es) m =
      (None, m\<lparr>mg_current := Some (length (mg_clients m)), mg_clients := mg_clients m @ [((new_client cn)\<lparr>cl_conn := cn'\<rparr>, Reading)]\<rparr>)
      \<and> usable_conn cn' \<and> cn_in cn' = cn_in cn
      \<and> sent_bytes cn' = sent_bytes cn @ frame_bytes (connect_frame (mg_clientID m))
          @ concat (map (\<lambda>t. frame_bytes (subscribe_frame t)) (ti (mg_topics m)))"
proof (induction es)
  case Nil
  { case 1
    show ?case by (simp add: connect_loop_step [of _ net ti m "ConnectReturned (Some ErrNoBrokerAvailable)" m]) }
  { case 2
    then show ?case by simp }
next
  case (Cons e es)
  have next_endpoint: "connect_loop net ti (DialNext (e # es)) m = connect_loop net ti (DialNext es) m"
    if "net (Suc (length es)) e = Inl x" for x
    by (rule connect_loop_step) (simp_all add: that Dial_def)
  { case 1
    then show ?case using Cons.IH(1) next_endpoint by (auto split: sum.splits) }
  { case 2
    show ?case
    proof (cases "net (Suc (length es)) e")
      case (Inl x)
      with 2 Cons.IH(2) next_endpoint [OF Inl] show ?thesis by simp
    next
      case (Inr cn0)
      then have cn: "net (Suc (length es)) e = Inr cn" using 2 by simp
      obtain cn' where d: "Dial (Inr cn) (mg_clientID m) = Inr ((new_client cn)\<lparr>cl_conn := cn'\<rparr>)" "usable_conn cn'"
        "sent_bytes cn' = sent_bytes cn @ frame_bytes (connect_frame (mg_clientID m))" "cn_in cn' = cn_in cn"
        by (rule Dial_usable [OF assms(1) [rule_format, OF cn] assms(2)])
      let ?c = "(new_client cn)\<lparr>cl_conn := cn'\<rparr>" and ?a = "length (mg_clients m)"
      let ?m1 = "m\<lparr>mg_current := Some ?a, mg_clients := mg_clients m @ [(?c, Reading)]\<rparr>"
      have "connect_loop net ti (DialNext (e # es)) m = connect_loop net ti (SubscribeNext ?a (ti (mg_topics m)) es) ?m1"
        by (rule connect_loop_step) (simp_all add: cn d(1))
      moreover obtain cn2 where "connect_loop net ti (SubscribeNext ?a (ti (mg_topics m)) es) ?m1
          = (None, put_client ?a ((the_client ?a ?m1)\<lparr>cl_conn := cn2\<rparr>) ?m1)" "usable_conn cn2"
        "sent_bytes cn2 = sent_bytes cn' @ concat (map (\<lambda>t. frame_bytes (subscribe_frame t)) (ti (mg_topics m)))"
        "cn_in cn2 = cn_in cn'"
        using connect_subscribes [of ?a ?m1 "ti (mg_topics m)" net ti es] d(2) assms(3) by (auto simp: new_client_def)
      ultimately show ?thesis using d(3,4) by (intro exI [of _ cn2]) (simp add: put_client_def)
    qed }
qed


section \<open>Redirects\<close>

text \<open>
  C40 (a redirect is dialled first). When \<open>watch\<close> has received a graceful shutdown with a
  redirect, \<open>run\<close> moves that address to the front, keeps all other endpoints in their order,
  announces it to the application if there is room, gives the client up and closes it, and,
  unless the manager was closed, begins to dial with the redirect, without a pause.
\<close>

theorem redirect_is_dialled_first:
  assumes "reach manager_init manager_step s" "ms_run s = Watched a r True" "r \<noteq> []" "\<not> mg_done (ms_manager s)"
  shows "\<exists>m1 m2. run_step net ti (Watched a r True) (ms_manager s) = [Some (GivingUp a, m1)]
    \<and> run_step net ti (GivingUp a) m1 = [Some (Reconnecting initial_backoff, m2)]
    \<and> run_step net ti (Reconnecting initial_backoff) m2
        = [Some (Connecting initial_backoff (DialNext (r # removeAll r (mg_endpoints (ms_manager s)))), m2)]
    \<and> mg_current m2 \<noteq> Some a \<and> cl_done (the_client a m2)
    \<and> (chan_buf (mg_shutdowns (ms_manager s)) = [] \<longrightarrow> chan_buf (mg_shutdowns m2) = [r])"
proof -
  let ?m = "ms_manager s"
  have ok: "manager_ok s" using assms(1) by (rule manager_runs.reach_inv)
  then have core: "core_ok False ?m" and a: "a < length (mg_clients ?m)"
    using assms(2) by (auto simp: manager_ok_def)
  have sh: "chan_ok 1 False (mg_shutdowns ?m)" by (rule core_okD(6) [OF core])
  obtain m1 where m1: "run_redirect r True ?m = Some m1" "mg_clients m1 = mg_clients ?m"
    using run_redirect_good [OF core, of r True] by blast
  have f: "mg_endpoints m1 = r # removeAll r (mg_endpoints ?m)" "\<not> mg_done m1"
    "chan_buf (mg_shutdowns ?m) = [] \<Longrightarrow> chan_buf (mg_shutdowns m1) = [r]"
    using m1(1) assms(3,4) sh
    by (auto simp: run_redirect_def Let_def prefer_eq chan_send_def chan_ok_def split: send_result.splits if_splits)
  let ?m2 = "run_give_up a m1"
  have g: "mg_endpoints ?m2 = mg_endpoints m1" "mg_done ?m2 = mg_done m1" "mg_shutdowns ?m2 = mg_shutdowns m1"
    "mg_current ?m2 \<noteq> Some a" by (simp_all add: run_give_up_def Let_def)
  have "cl_once (the_client a ?m) = cl_done (the_client a ?m)"
    using client_okD(6) [OF core_okD(1) [OF core a]] by simp
  then have "cl_done (the_client a ?m2)"
    using a m1(2) by (auto simp: run_give_up_def put_client_def Client_Close_def Let_def)
  with m1(1) f g show ?thesis by (intro exI [of _ m1] exI [of _ ?m2]) auto
qed

section \<open>Publishing\<close>




lemma identify_identified:
  "identify random ev = Inr ev' \<Longrightarrow> (\<And>data. random = Inr data \<Longrightarrow> data \<noteq> []) \<Longrightarrow> ev_ID ev' \<noteq> []"
  by (cases random) (auto simp: identify_def newMessageID_def hex_encode_def Let_def split: if_splits)



section \<open>Closing\<close>















section \<open>The properties on the sample manager\<close>

abbreviation sample_sys :: "client \<Rightarrow> loop \<Rightarrow> run \<Rightarrow> publisher list \<Rightarrow> manager_sys" where
  "sample_sys c l r ps \<equiv>
     \<lparr>ms_manager = (new_manager [''a'', ''b''] ''c'')\<lparr>mg_current := Some 0, mg_clients := [(c, l)]\<rparr>,
      ms_run = r, ms_publishers = ps\<rparr>"

lemma sample_answer: "first_answer (\<lambda>_. sample_net bs) [''a'', ''b''] = Some (open_conn bs)"
  by (simp add: sample_net_def)

lemma sample_net_usable: "sample_net bs e = Inr cn \<Longrightarrow> usable_conn cn"
  using open_conn_simps(1) [of bs] by (auto simp: sample_net_def split: if_splits)

lemma reach_sample:
  obtains cn where "reach manager_init manager_step (sample_sys ((new_client (open_conn bs))\<lparr>cl_conn := cn\<rparr>) Reading RunTop [])"
    "usable_conn cn" "rd_pending (cn_in cn) = bs"
proof -
  let ?m = "new_manager [''a'', ''b''] ''c''"
  have m: "mg_endpoints ?m = [''a'', ''b'']" "mg_topics ?m = []" "mg_clientID ?m = ''c''" "mg_clients ?m = []"
    by (simp_all add: new_manager_def)
  have "short_string (mg_clientID ?m)" by (simp add: m short_string_def maxUint16_eq)
  then obtain cn where cn: "connect_loop (\<lambda>_. sample_net bs) id (DialNext [''a'', ''b'']) ?m =
      (None, ?m\<lparr>mg_current := Some 0, mg_clients := [((new_client (open_conn bs))\<lparr>cl_conn := cn\<rparr>, Reading)]\<rparr>)"
    "usable_conn cn" "cn_in cn = cn_in (open_conn bs)"
    using connect_dials(2) [of "\<lambda>_. sample_net bs" ?m id, OF _ _ _ sample_answer] sample_net_usable [of bs] by (auto simp: m)
  then have "connectUntilAvailable [(\<lambda>_. sample_net bs, None)] id ?m =
      Some (None, ?m\<lparr>mg_current := Some 0, mg_clients := [((new_client (open_conn bs))\<lparr>cl_conn := cn\<rparr>, Reading)]\<rparr>)"
    by (simp add: connect_def m)
  then have "NewConnectionManager [(\<lambda>_. sample_net bs, None)] id [''a'', ''b''] ''c'' =
      Some (Inr (?m\<lparr>mg_current := Some 0, mg_clients := [((new_client (open_conn bs))\<lparr>cl_conn := cn\<rparr>, Reading)]\<rparr>))"
    by (simp add: NewConnectionManager_def)
  moreover have "iteration_order id" "\<forall>(net, ctx) \<in> set [(\<lambda>_ :: nat. sample_net bs, None :: ctx)]. \<forall>n e cn. net n e = Inr cn \<longrightarrow> \<not> cn_closed cn"
    using sample_net_open by simp_all
  ultimately have "manager_init (sample_sys ((new_client (open_conn bs))\<lparr>cl_conn := cn\<rparr>) Reading RunTop [])"
    unfolding manager_init_def by fastforce
  then have "reach manager_init manager_step (sample_sys ((new_client (open_conn bs))\<lparr>cl_conn := cn\<rparr>) Reading RunTop [])"
    by (rule reach_init)
  with cn(2,3) that show ?thesis by simp
qed



text \<open>The broker behind the current client announces a shutdown with a redirect.\<close>

definition sample_shutdown :: frame where
  "sample_shutdown = mk_frame TypeShutdown (string_field ''r'')"

lemma reach_watched:
  obtains c l where "reach manager_init manager_step (sample_sys c l (Watched 0 ''r'' True) [])"
proof -
  let ?R = "\<lambda>c l r. reach manager_init manager_step (sample_sys c l r [])"
  obtain cn where r: "?R ((new_client (open_conn (frame_bytes sample_shutdown)))\<lparr>cl_conn := cn\<rparr>) Reading RunTop"
    "usable_conn cn" "rd_pending (cn_in cn) = frame_bytes sample_shutdown"
    by (rule reach_sample)
  let ?c = "(new_client (open_conn (frame_bytes sample_shutdown)))\<lparr>cl_conn := cn\<rparr>"
  have "valid_frame sample_shutdown"
    by (simp add: sample_shutdown_def valid_mk_frame TypeShutdown_def string_field_def)
  then obtain cn1 where turn: "readLoop Reading ?c = [Some (client_frame sample_shutdown (?c\<lparr>cl_conn := cn1\<rparr>))]"
    by (rule read_turn [of _ ?c "[]"]) (use r in simp_all)
  let ?c1 = "?c\<lparr>cl_conn := cn1\<rparr>"
  have "decodeShutdown (string_field ''r'') = Inr \<lparr>sm_Redirect = ''r''\<rparr>"
    by (simp add: shutdown_codec.decode_iff_encode encodeShutdown_def encodeTopic_eq short_string_def maxUint16_eq)
  then have "client_frame sample_shutdown ?c1 = (Notifying ''r'', ?c1)"
    by (simp add: client_frame_def sample_shutdown_def on_shutdown_def TypeEvent_def TypeAck_def TypeError_def TypeShutdown_def)
  with turn have 1: "?R ?c1 (Notifying ''r'') RunTop"
    using reach_step [OF r(1) m_loop [of 0 _ "Notifying ''r''" ?c1]] by simp
  let ?c2 = "?c1\<lparr>cl_shutdowns := (make_chan 1)\<lparr>chan_buf := [''r'']\<rparr>\<rparr>"
  have "Some (Returning, ?c2) \<in> set (readLoop (Notifying ''r'') ?c1)"
    by (simp add: new_client_def chan_send_def make_chan_def)
  then have 2: "?R ?c2 Returning RunTop"
    using reach_step [OF 1 m_loop [of 0 _ Returning ?c2]] by simp
  let ?m = "\<lambda>c l. (new_manager [''a'', ''b''] ''c'')\<lparr>mg_current := Some 0, mg_clients := [(c, l)]\<rparr>"
  have step: "?R c' l r'" if reached: "?R c l rr" and next_run: "Some (r', ?m c' l) \<in> set (run_step (sample_net []) id rr (?m c l))"
    for c l rr c' r'
  proof -
    have "manager_step (sample_sys c l rr []) (sample_sys c' l r' [])"
      using m_run [of "sample_net []" id r' "?m c' l" "sample_sys c l rr []"] sample_net_open next_run by simp
    with reached show ?thesis by (rule reach_step)
  qed
  have 3: "?R ?c2 Returning (Watching 0)" by (rule step [OF 2]) simp
  have "?R (?c2\<lparr>cl_shutdowns := make_chan 1\<rparr>) Returning (Watched 0 ''r'' True)"
    by (rule step [OF 3])
      (simp add: watch_select_def recv_shutdown_def new_client_def chan_recv_def make_chan_def put_client_def Let_def)
  then show ?thesis by (rule that)
qed

theorem redirect_is_dialled_first_witness:
  "\<exists>s m1 m2. reach manager_init manager_step s \<and> ms_run s = Watched 0 ''r'' True
     \<and> run_step (sample_net []) id (Watched 0 ''r'' True) (ms_manager s) = [Some (GivingUp 0, m1)]
     \<and> run_step (sample_net []) id (GivingUp 0) m1 = [Some (Reconnecting initial_backoff, m2)]
     \<and> run_step (sample_net []) id (Reconnecting initial_backoff) m2
         = [Some (Connecting initial_backoff (DialNext [''r'', ''a'', ''b'']), m2)]"
proof -
  obtain c l where r: "reach manager_init manager_step (sample_sys c l (Watched 0 ''r'' True) [])" by (rule reach_watched)
  from redirect_is_dialled_first [OF r, of 0 "''r''" "sample_net []" id] r show ?thesis
    by (intro exI [of _ "sample_sys c l (Watched 0 ''r'' True) []"]) (auto simp: new_manager_def)
qed



end
