(* ===== verification/Logging.thy ===== *)
theory Logging
  imports Go_Runtime
begin

text \<open>
  The level-aware logger of \<open>logging/logger.go\<close>. A logger is its level and the lines it has
  written, without the time stamps of the \<open>log\<close> package; a message is the text that the
  format and its arguments give.
\<close>

section \<open>Definitions\<close>

type_synonym Level = int

definition LevelError :: Level where
  "LevelError = 0"

definition LevelWarn :: Level where
  "LevelWarn = 1"

definition LevelInfo :: Level where
  "LevelInfo = 2"

definition LevelDebug :: Level where
  "LevelDebug = 3"

text \<open>
  \<open>strings.ToLower\<close>: on ASCII the letters change; what it makes of other text is the
  parameter \<open>unicode\<close>.
\<close>

definition ascii_lower :: "char \<Rightarrow> char" where
  "ascii_lower c = (if 65 \<le> (of_char c :: nat) \<and> (of_char c :: nat) \<le> 90 then char_of ((of_char c :: nat) + 32) else c)"

definition ToLower :: "(string \<Rightarrow> string) \<Rightarrow> string \<Rightarrow> string" where
  "ToLower unicode s = (if \<forall>c \<in> set s. (of_char c :: nat) < 128 then map ascii_lower s else unicode s)"

definition ParseLevel :: "(string \<Rightarrow> string) \<Rightarrow> string \<Rightarrow> Level \<times> bool" where
  "ParseLevel unicode s =
     (let v = ToLower unicode s in
      if v = ''error'' then (LevelError, True)
      else if v = ''warn'' \<or> v = ''warning'' then (LevelWarn, True)
      else if v = ''info'' then (LevelInfo, True)
      else if v = ''debug'' then (LevelDebug, True)
      else (LevelInfo, False))"

record Logger =
  lg_level :: Level
  lg_lines :: "string list"

definition logging_New :: "Level \<Rightarrow> Logger" where
  "logging_New level = \<lparr>lg_level = level, lg_lines = []\<rparr>"

text \<open>A \<open>*Logger\<close> may be nil.\<close>

definition logf :: "Level \<Rightarrow> string \<Rightarrow> string \<Rightarrow> Logger option \<Rightarrow> Logger option" where
  "logf level name message l =
     (case l of
        None \<Rightarrow> None
      | Some lg \<Rightarrow>
          if level > lg_level lg then Some lg
          else Some (lg\<lparr>lg_lines := lg_lines lg @ [''['' @ name @ ''] '' @ message]\<rparr>))"

definition Errorf :: "string \<Rightarrow> Logger option \<Rightarrow> Logger option" where
  "Errorf = logf LevelError ''ERROR''"

definition Warnf :: "string \<Rightarrow> Logger option \<Rightarrow> Logger option" where
  "Warnf = logf LevelWarn ''WARN''"

definition Infof :: "string \<Rightarrow> Logger option \<Rightarrow> Logger option" where
  "Infof = logf LevelInfo ''INFO''"

definition Debugf :: "string \<Rightarrow> Logger option \<Rightarrow> Logger option" where
  "Debugf = logf LevelDebug ''DEBUG''"

lemmas level_defs = LevelError_def LevelWarn_def LevelInfo_def LevelDebug_def

lemmas logger_defs = logf_def Errorf_def Warnf_def Infof_def Debugf_def

section \<open>Lemmas\<close>

text \<open>A nil logger swallows everything; a logger only ever appends.\<close>

lemma logf_nil [simp]: "logf level name message None = None"
  by (simp add: logf_def)

lemma logf_appends:
  "logf level name message (Some lg) = Some (lg\<lparr>lg_lines := lg_lines lg @ (if level \<le> lg_level lg then [''['' @ name @ ''] '' @ message] else [])\<rparr>)"
  by (simp add: logf_def)

text \<open>
  The levels are nested: of a sequence of calls, a logger writes a sublist of what a more
  verbose one writes, in the same order.
\<close>

definition logged :: "Level \<Rightarrow> (Level \<times> string \<times> string) list \<Rightarrow> string list" where
  "logged level calls = lg_lines (the (fold (\<lambda>(l, name, message). logf l name message) calls (Some (logging_New level))))"

lemma fold_logf:
  "fold (\<lambda>(l, name, message). logf l name message) calls (Some lg) =
     Some (lg\<lparr>lg_lines := lg_lines lg @ map (\<lambda>(l, name, message). ''['' @ name @ ''] '' @ message) (filter (\<lambda>(l, _). l \<le> lg_level lg) calls)\<rparr>)"
proof (induction calls arbitrary: lg)
  case (Cons c calls)
  then show ?case by (cases c) (simp add: logf_appends)
qed simp

lemma logged_eq:
  "logged level calls = map (\<lambda>(l, name, message). ''['' @ name @ ''] '' @ message) (filter (\<lambda>(l, _). l \<le> level) calls)"
  by (simp add: logged_def fold_logf logging_New_def)

lemma logged_verbose:
  assumes "level \<le> level'"
  shows "subseq (logged level calls) (logged level' calls)"
proof -
  have "filter (\<lambda>(l, _). l \<le> level) calls = filter (\<lambda>(l, _). l \<le> level) (filter (\<lambda>(l, _). l \<le> level') calls)"
    unfolding filter_filter using assms by (intro filter_cong) auto
  then show ?thesis unfolding logged_eq by (metis subseq_filter_left subseq_map)
qed

text \<open>A level that was parsed is one of the four, and only the default comes with a failure.\<close>

lemma ParseLevel_range:
  "fst (ParseLevel unicode s) \<in> {LevelError, LevelWarn, LevelInfo, LevelDebug}"
  "\<not> snd (ParseLevel unicode s) \<Longrightarrow> fst (ParseLevel unicode s) = LevelInfo"
  by (simp_all add: ParseLevel_def Let_def split: if_splits)

lemma ascii_lower_idem: "ascii_lower (ascii_lower c) = ascii_lower c"
proof -
  have "(of_char (char_of ((of_char c :: nat) + 32)) :: nat) = of_char c + 32" if "(of_char c :: nat) \<le> 90"
    using that by (simp add: of_char_of)
  then show ?thesis by (auto simp: ascii_lower_def)
qed

lemma ParseLevel_case:
  assumes "\<forall>c \<in> set s. (of_char c :: nat) < 128"
  shows "ParseLevel unicode (map ascii_lower s) = ParseLevel unicode s"
proof -
  have "(of_char (ascii_lower c) :: nat) < 128" if "c \<in> set s" for c
    using assms that by (auto simp: ascii_lower_def of_char_of)
  then have "ToLower unicode (map ascii_lower s) = ToLower unicode s"
    using assms by (simp add: ToLower_def ascii_lower_idem)
  then show ?thesis by (simp add: ParseLevel_def)
qed

end
