(* ===== verification/Event_Bus.thy ===== *)
theory Event_Bus
  imports Server_Evolution Logging
begin

text \<open>
  The broker process of \<open>cmd/event-bus/main.go\<close>: configuration from the flags, the HTTP
  control handlers \<open>/state\<close> and \<open>/shutdown\<close>, the signal, and the shutdown that they trigger
  once. \<open>event_bus_step\<close> interleaves them with the server. Of an HTTP exchange the method and
  the \<open>redirect\<close> query value are the input, the status and the value to encode the output.
\<close>

section \<open>Definitions\<close>

record bus_flags =
  fl_queueSize :: int
  fl_cacheSize :: int
  fl_deduplicationSize :: int
  fl_drop :: bool
  fl_redirect :: string
  fl_logLevel :: string

definition bus_config :: "bus_flags \<Rightarrow> Config" where
  "bus_config fl =
     \<lparr>QueueSize = fl_queueSize fl, CacheSize = fl_cacheSize fl, DeduplicationSize = fl_deduplicationSize fl,
      Backpressure = (if fl_drop fl then Drop else Block)\<rparr>"

definition policyName :: "BackpressurePolicy \<Rightarrow> string" where
  "policyName policy = (if policy = Drop then ''drop'' else ''block'')"

text \<open>
  How far the function inside \<open>shutdownOnce.Do\<close> is: not called, in \<open>GracefulShutdown\<close> with
  its redirect, or returned, with \<open>shutdownDone\<close> closed.
\<close>

datatype trigger = NotTriggered | Triggered string | ShutdownDone

record event_bus =
  eb_server :: server
  eb_redirect :: string
  eb_trigger :: trigger
  eb_adminClosed :: bool
  eb_logger :: "Logger option"

text \<open>\<open>None\<close> is the panic on an invalid level.\<close>

definition bus_main :: "(string \<Rightarrow> string) \<Rightarrow> bus_flags \<Rightarrow> event_bus option" where
  "bus_main unicode fl =
     (case ParseLevel unicode (fl_logLevel fl) of
        (level, validLevel) \<Rightarrow>
          if \<not> validLevel then None
          else Some \<lparr>eb_server = NewServer (broker_New (bus_config fl)), eb_redirect = fl_redirect fl,
                     eb_trigger = NotTriggered, eb_adminClosed = False, eb_logger = Some (logging_New level)\<rparr>)"

subsection \<open>Control handlers\<close>

text \<open>\<open>/state\<close> reads the server and the broker one after the other; here at one instant.\<close>

datatype body = TextBody string | StateBody ServerState State | StatusBody string

record response =
  rs_status :: nat
  rs_body :: body

definition state_handler :: "string \<Rightarrow> event_bus \<Rightarrow> response" where
  "state_handler meth e =
     (if meth \<noteq> ''GET'' then \<lparr>rs_status = 405, rs_body = TextBody ''method not allowed''\<rparr>
      else \<lparr>rs_status = 200, rs_body = StateBody (server_State (eb_server e)) (broker_State (sv_broker (eb_server e)))\<rparr>)"

text \<open>With the response, the address for the \<open>triggerShutdown\<close> goroutine if one is started.\<close>

definition shutdown_handler :: "string \<Rightarrow> string \<Rightarrow> event_bus \<Rightarrow> response \<times> string option" where
  "shutdown_handler meth query e =
     (if meth \<noteq> ''POST'' then (\<lparr>rs_status = 405, rs_body = TextBody ''use POST''\<rparr>, None)
      else (\<lparr>rs_status = 202, rs_body = StatusBody ''graceful shutdown started''\<rparr>,
            Some (if query = [] then eb_redirect e else query)))"

subsection \<open>Shutdown\<close>

definition triggerShutdown :: "addr iter \<Rightarrow> string \<Rightarrow> event_bus \<Rightarrow> event_bus" where
  "triggerShutdown ci redirectAddress e =
     (if eb_trigger e = NotTriggered
      then e\<lparr>eb_server := GracefulShutdown ci (eb_server e), eb_trigger := Triggered redirectAddress\<rparr>
      else e)"

text \<open>
  The rest of that function once \<open>GracefulShutdown\<close> has returned; empty while it waits,
  \<open>None\<close> if \<open>bus.Close\<close> would not return.
\<close>

definition finishShutdown :: "ctx \<Rightarrow> addr iter \<Rightarrow> event_bus \<Rightarrow> event_bus option list" where
  "finishShutdown ctx ai e =
     (case eb_trigger e of
        Triggered redirectAddress \<Rightarrow>
          (case GracefulShutdown_result ctx (eb_server e) of
             None \<Rightarrow> []
           | Some err \<Rightarrow>
               [map_option (\<lambda>b. e
                   \<lparr>eb_logger := (case err of None \<Rightarrow> eb_logger e
                                  | Some er \<Rightarrow> Errorf (''graceful shutdown: '' @ error_text er) (eb_logger e)),
                    eb_server := (eb_server e)\<lparr>sv_broker := b\<rparr>, eb_adminClosed := True, eb_trigger := ShutdownDone\<rparr>)
                  (broker_Close ai (sv_broker (eb_server e)))])
      | _ \<Rightarrow> [])"

text \<open>
  The end of \<open>main\<close>, from the result of \<open>ListenAndServe\<close>: it returns, with what it logs, on
  an error, on \<open>shutdownDone\<close>, or when its timer has fired.
\<close>

definition main_end :: "go_error option \<Rightarrow> bool \<Rightarrow> event_bus \<Rightarrow> event_bus list" where
  "main_end result fired e =
     (case result of
        Some err \<Rightarrow> [e\<lparr>eb_logger := Errorf (''TCP server: '' @ error_text err) (eb_logger e)\<rparr>]
      | None \<Rightarrow>
          (if eb_trigger e = ShutdownDone then [e] else [])
          @ (if fired then [e\<lparr>eb_logger := Errorf ''shutdown completion timeout'' (eb_logger e)\<rparr>] else []))"

subsection \<open>Runs of the process\<close>

text \<open>
  The process never calls \<open>Server.Close\<close>, and the closers of its graceful shutdown announce
  the redirect it was triggered with.
\<close>

inductive event_bus_step :: "event_bus \<Rightarrow> event_bus \<Rightarrow> bool" where
  e_listen: "event_bus_step e (e\<lparr>eb_server := Serve_listen (eb_server e)\<rparr>)"
| e_accept: "\<not> cn_closed cn \<Longrightarrow> event_bus_step e (e\<lparr>eb_server := Serve_accept cn (eb_server e)\<rparr>)"
| e_serve: "k < length (sv_heap (eb_server e)) \<Longrightarrow> iteration_order si \<Longrightarrow> iteration_order ki \<Longrightarrow> iteration_order ai \<Longrightarrow>
    Some s \<in> set (serve si ki ai k (eb_server e)) \<Longrightarrow> event_bus_step e (e\<lparr>eb_server := s\<rparr>)"
| e_deliver: "k < length (sv_heap (eb_server e)) \<Longrightarrow> d < length (co_deliveries (the_conn k (eb_server e))) \<Longrightarrow>
    s \<in> set (deliver k d (eb_server e)) \<Longrightarrow> event_bus_step e (e\<lparr>eb_server := s\<rparr>)"
| e_request: "shutdown_handler meth query e = (r, Some redirect) \<Longrightarrow> iteration_order ci \<Longrightarrow>
    event_bus_step e (triggerShutdown ci redirect e)"
| e_signal: "iteration_order ci \<Longrightarrow> event_bus_step e (triggerShutdown ci (eb_redirect e) e)"
| e_graceful_close: "eb_trigger e = Triggered redirect \<Longrightarrow> g < length (sv_closers (eb_server e)) \<Longrightarrow> iteration_order ai \<Longrightarrow>
    Some s \<in> set (gracefulClose ctx redirect ai g (eb_server e)) \<Longrightarrow> event_bus_step e (e\<lparr>eb_server := s\<rparr>)"
| e_finish: "iteration_order ai \<Longrightarrow> Some e' \<in> set (finishShutdown ctx ai e) \<Longrightarrow> event_bus_step e e'"

definition event_bus_init :: "event_bus \<Rightarrow> bool" where
  "event_bus_init e \<longleftrightarrow> (\<exists>unicode fl. bus_main unicode fl = Some e)"

section \<open>The invariant\<close>

text \<open>
  The flags of server and broker follow the trigger: nothing is closed or draining before it,
  everything is draining after it, and at the end the broker is closed and every connection
  that was there has been closed.
\<close>

definition event_bus_ok :: "event_bus \<Rightarrow> bool" where
  "event_bus_ok e \<longleftrightarrow>
     (let s = eb_server e in
      drain_ok s \<and> sv_closed s = (eb_trigger e \<noteq> NotTriggered) \<and> sv_draining s = (eb_trigger e \<noteq> NotTriggered)
      \<and> (eb_trigger e \<noteq> NotTriggered \<longrightarrow> b_draining (sv_broker s))
      \<and> (eb_trigger e = ShutdownDone \<longrightarrow> b_closed (sv_broker s) \<and> (\<forall>c \<in> set (sv_closers s). snd c = GracefulDone))
      \<and> eb_adminClosed e = (eb_trigger e = ShutdownDone))"

lemma event_bus_ok_server:
  assumes "event_bus_ok e" "server_step (eb_server e) s" "shutdown_part s = shutdown_part (eb_server e)"
  shows "event_bus_ok (e\<lparr>eb_server := s\<rparr>)"
proof -
  have ok: "drain_ok (eb_server e)" using assms(1) by (simp add: event_bus_ok_def Let_def)
  have "evolves (eb_server e) s" using assms(2) ok by (intro server_step_evolves) (simp_all add: drain_ok_def)
  with assms(1,3) drain_ok_step [OF assms(2) ok] show ?thesis
    by (auto simp: event_bus_ok_def Let_def evolves_def broker_evolves_def)
qed

lemma event_bus_ok_trigger:
  assumes "event_bus_ok e" "iteration_order ci"
  shows "event_bus_ok (triggerShutdown ci redirect e)"
proof (cases "eb_trigger e = NotTriggered")
  case True
  have ok: "drain_ok (eb_server e)" using assms(1) by (simp add: event_bus_ok_def Let_def)
  have "drain_ok (GracefulShutdown ci (eb_server e))" using s_graceful [OF assms(2)] ok by (rule drain_ok_step)
  with True assms(1) show ?thesis
    by (simp add: event_bus_ok_def Let_def triggerShutdown_def GracefulShutdown_def BeginShutdown_def)
qed (use assms(1) in \<open>simp add: triggerShutdown_def\<close>)

lemma gracefulClose_flags:
  assumes "Some s' \<in> set (gracefulClose ctx redirect ai g s)"
  shows "sv_closed s' = sv_closed s \<and> sv_draining s' = sv_draining s"
  using assms close_conn_part
  by (fastforce simp: gracefulClose_def Let_def put_closer_def graceful_finish_def closeTransport_def Some_map_option_iff
      split: closer.splits list.splits if_splits option.splits sum.splits)

lemma event_bus_ok_closer:
  assumes "event_bus_ok e" "eb_trigger e = Triggered redirect" "g < length (sv_closers (eb_server e))"
    and "iteration_order ai" "Some s \<in> set (gracefulClose ctx redirect ai g (eb_server e))"
  shows "event_bus_ok (e\<lparr>eb_server := s\<rparr>)"
proof -
  have ok: "drain_ok (eb_server e)" using assms(1) by (simp add: event_bus_ok_def Let_def)
  have step: "server_step (eb_server e) s" using assms(3-5) by (rule s_graceful_close)
  have "evolves (eb_server e) s" using step ok by (intro server_step_evolves) (simp_all add: drain_ok_def)
  with assms(1,2) drain_ok_step [OF step ok] gracefulClose_flags [OF assms(5)] show ?thesis
    by (auto simp: event_bus_ok_def Let_def evolves_def broker_evolves_def)
qed

lemma broker_Close_evolves:
  assumes "reachable b" "iteration_order ai" "broker_Close ai b = Some b'"
  shows "broker_evolves b b'" "reachable b'" "b_closed b'" "length (b_heap b') = length (b_heap b)"
proof -
  have b': "b' = (if b_closed b then b else shut_all (ai (registered b)) (b\<lparr>b_closed := True, b_topics := []\<rparr>))"
    using broker_Close_eq [OF reachable_wf [OF assms(1)] assms(2)] assms(3) by simp
  show "reachable b'" using assms(1) step_Close [OF assms(2,3)] by (rule reach_step)
  show "broker_evolves b b'" "b_closed b'" "length (b_heap b') = length (b_heap b)"
    unfolding b' by (auto simp: broker_evolves_def drained_def)
qed

lemma event_bus_ok_finish:
  assumes "event_bus_ok e" "iteration_order ai" "Some e' \<in> set (finishShutdown ctx ai e)"
  shows "event_bus_ok e'"
proof -
  let ?s = "eb_server e"
  let ?l = "case ctx of None \<Rightarrow> eb_logger e | Some er \<Rightarrow> Errorf (''graceful shutdown: '' @ error_text er) (eb_logger e)"
  obtain redirect where tr: "eb_trigger e = Triggered redirect"
    using assms(3) by (cases "eb_trigger e") (auto simp: finishShutdown_def)
  obtain b where fin: "\<forall>(_, c) \<in> set (sv_closers ?s). c = GracefulDone"
    and b: "broker_Close ai (sv_broker ?s) = Some b"
    and e': "e' = e\<lparr>eb_logger := ?l, eb_server := ?s\<lparr>sv_broker := b\<rparr>, eb_adminClosed := True, eb_trigger := ShutdownDone\<rparr>"
    using assms(3) tr by (auto simp: finishShutdown_def GracefulShutdown_result_def Some_map_option_iff split: if_splits)
  have ok: "drain_ok ?s" using assms(1) by (simp add: event_bus_ok_def Let_def)
  then have sok: "server_ok ?s" by (simp add: drain_ok_def)
  note br = broker_Close_evolves [OF server_okD(1) [OF sok] assms(2) b]
  have "drain_ok (?s\<lparr>sv_broker := b\<rparr>)"
    using ok evolves_broker [OF br(1)] server_ok_broker [OF sok br(2)] br(4) by (intro drain_ok_evolves [OF ok]) simp_all
  with assms(1) tr fin br(1,3) show ?thesis
    by (auto simp: e' event_bus_ok_def Let_def broker_evolves_def)
qed

lemma event_bus_ok_step: "event_bus_step e e' \<Longrightarrow> event_bus_ok e \<Longrightarrow> event_bus_ok e'"
proof (induction rule: event_bus_step.induct)
  case (e_listen e)
  then show ?case using s_listen by (intro event_bus_ok_server) (simp_all add: Serve_listen_def)
next
  case (e_accept cn e)
  then show ?case using s_accept by (intro event_bus_ok_server) (simp_all add: Serve_accept_def)
next
  case (e_serve k e si ki ai s)
  then show ?case using s_serve [OF e_serve(1-5)] serve_part [OF e_serve(5)] by (intro event_bus_ok_server)
next
  case (e_deliver k e d s)
  then show ?case using s_deliver [OF e_deliver(1-3)] deliver_part [OF e_deliver(3)] by (intro event_bus_ok_server)
next
  case (e_graceful_close e redirect g ai s ctx)
  then show ?case by (intro event_bus_ok_closer)
qed (blast intro: event_bus_ok_trigger event_bus_ok_finish)+

lemma event_bus_ok_init:
  assumes "event_bus_init e"
  shows "event_bus_ok e"
proof -
  obtain fl level where e: "e = \<lparr>eb_server = NewServer (broker_New (bus_config fl)), eb_redirect = fl_redirect fl,
      eb_trigger = NotTriggered, eb_adminClosed = False, eb_logger = Some (logging_New level)\<rparr>"
    using assms unfolding event_bus_init_def bus_main_def by (fastforce split: prod.splits if_splits)
  have "drain_ok (eb_server e)" by (rule drain_ok_init) (auto simp: e server_init_def)
  then show ?thesis by (simp add: e event_bus_ok_def Let_def NewServer_def)
qed

interpretation event_bus_runs: invariant_system event_bus_init event_bus_step event_bus_ok
  by unfold_locales (blast intro: event_bus_ok_init event_bus_ok_step)+

section \<open>Properties\<close>

text \<open>What a step does to the trigger.\<close>

lemma event_bus_step_trigger:
  assumes "event_bus_step e e'" "eb_trigger e \<noteq> NotTriggered"
  shows "eb_trigger e' \<in> {eb_trigger e, ShutdownDone}"
  using assms
  by (cases rule: event_bus_step.cases)
    (auto simp: triggerShutdown_def finishShutdown_def Some_map_option_iff split: trigger.splits option.splits)

lemma finishShutdown_returns:
  assumes "event_bus_ok e" "iteration_order ai" "eb_trigger e = Triggered redirect"
    and "\<forall>(_, c) \<in> set (sv_closers (eb_server e)). c = GracefulDone"
  obtains e' where "finishShutdown ctx ai e = [Some e']" "eb_trigger e' = ShutdownDone"
proof -
  have "wf_broker (sv_broker (eb_server e))"
    using assms(1) server_okD(1) reachable_wf by (auto simp: event_bus_ok_def Let_def drain_ok_def)
  then obtain b where "broker_Close ai (sv_broker (eb_server e)) = Some b" using broker_Close_eq [OF _ assms(2)] by simp
  then show thesis using assms(3,4) that by (simp add: finishShutdown_def GracefulShutdown_result_def)
qed

text \<open>
  C19 (process shutdown). However often and with whatever redirects shutdown is requested, over
  HTTP or by a signal, the first request decides: later ones change nothing, and the redirect
  announced is its redirect. From the request on the server accepts no connection and the
  broker no event; once the closers of all connections are done the shutdown completes, with
  the broker closed, the control server stopped and every publish, subscription and further
  shutdown without effect.
\<close>

theorem process_shutdown_once:
  assumes "reach event_bus_init event_bus_step e" "eb_trigger e \<noteq> NotTriggered" "iteration_order ai"
  shows "triggerShutdown ci redirect e = e
    \<and> (\<forall>e'. event_bus_step e e' \<longrightarrow> eb_trigger e' = eb_trigger e \<or> eb_trigger e' = ShutdownDone)
    \<and> Serve_accept cn (eb_server e) = eb_server e
    \<and> (\<exists>err. PublishWithResult si ki ctx ev (sv_broker (eb_server e)) = [Some ((Published, Some err), sv_broker (eb_server e))]
          \<and> err \<in> {ErrDraining, ErrClosed})
    \<and> Subscribe topic (sv_broker (eb_server e)) = Some (Inl ErrClosed, sv_broker (eb_server e))
    \<and> (if eb_trigger e = ShutdownDone
       then b_closed (sv_broker (eb_server e)) \<and> eb_adminClosed e \<and> (\<forall>c \<in> set (sv_closers (eb_server e)). snd c = GracefulDone)
       else (\<forall>c \<in> set (sv_closers (eb_server e)). snd c = GracefulDone) \<longrightarrow>
              (\<exists>e'. finishShutdown ctx ai e = [Some e'] \<and> eb_trigger e' = ShutdownDone))"
proof -
  let ?s = "eb_server e"
  have ok: "event_bus_ok e" using assms(1) by (rule event_bus_runs.reach_inv)
  then have f: "sv_closed ?s" "b_draining (sv_broker ?s)"
    and d: "eb_trigger e = ShutdownDone \<Longrightarrow> b_closed (sv_broker ?s) \<and> eb_adminClosed e \<and> (\<forall>c \<in> set (sv_closers ?s). snd c = GracefulDone)"
    using assms(2) by (auto simp: event_bus_ok_def Let_def)
  have "\<exists>e'. finishShutdown ctx ai e = [Some e'] \<and> eb_trigger e' = ShutdownDone"
    if n: "eb_trigger e \<noteq> ShutdownDone" and c: "\<forall>c \<in> set (sv_closers ?s). snd c = GracefulDone"
  proof -
    obtain r where r: "eb_trigger e = Triggered r" using assms(2) n by (cases "eb_trigger e") auto
    show ?thesis by (rule finishShutdown_returns [OF ok assms(3) r, of ctx]) (use c in auto)
  qed
  moreover have "\<forall>e'. event_bus_step e e' \<longrightarrow> eb_trigger e' = eb_trigger e \<or> eb_trigger e' = ShutdownDone"
    using event_bus_step_trigger [OF _ assms(2)] by blast
  ultimately show ?thesis
    using f d assms(2)
    by (simp add: triggerShutdown_def Serve_accept_def PublishWithResult_def publish_begin_def Subscribe_def)
qed

text \<open>A process that was asked to stop by a signal and then over HTTP.\<close>

definition idle_flags :: bus_flags where
  "idle_flags = \<lparr>fl_queueSize = 128, fl_cacheSize = 1024, fl_deduplicationSize = 4096, fl_drop = False,
     fl_redirect = ''next'', fl_logLevel = ''info''\<rparr>"

lemma idle_bus:
  obtains e where "bus_main id idle_flags = Some e" "sv_conns (eb_server e) = []" "eb_trigger e = NotTriggered"
    "eb_redirect e = ''next''" "sv_closers (eb_server e) = []"
  using that by (simp add: bus_main_def idle_flags_def ParseLevel_def ToLower_def ascii_lower_def NewServer_def)

theorem process_shutdown_once_witness:
  "\<exists>e e'. reach event_bus_init event_bus_step e \<and> eb_trigger e = Triggered ''next''
     \<and> triggerShutdown id ''other'' e = e \<and> finishShutdown None id e = [Some e'] \<and> eb_trigger e' = ShutdownDone"
proof -
  obtain e0 where e0: "bus_main id idle_flags = Some e0" "sv_conns (eb_server e0) = []" "eb_trigger e0 = NotTriggered"
    "eb_redirect e0 = ''next''" "sv_closers (eb_server e0) = []" by (rule idle_bus)
  let ?e = "triggerShutdown id ''next'' e0"
  have "event_bus_init e0" using e0(1) unfolding event_bus_init_def by blast
  then have "reach event_bus_init event_bus_step e0" by (rule reach_init)
  moreover have "event_bus_step e0 ?e" using e_signal [of id e0] e0(4) by simp
  ultimately have r: "reach event_bus_init event_bus_step ?e" by (rule reach_step)
  have t: "eb_trigger ?e = Triggered ''next''" and c: "sv_closers (eb_server ?e) = []"
    using e0 by (simp_all add: triggerShutdown_def GracefulShutdown_def Let_def)
  from process_shutdown_once [OF r, of id id "''other''" "open_conn []" id id None keyed_event "''t''"] t c
  obtain e' where "triggerShutdown id ''other'' ?e = ?e" "finishShutdown None id ?e = [Some e']" "eb_trigger e' = ShutdownDone"
    by auto
  with r t show ?thesis by blast
qed

text \<open>
  Nothing orders the signal after \<open>ListenAndServe\<close> has stored its listener: a shutdown that runs
  before leaves the listener open for good, and \<open>main\<close>, which waits for \<open>ListenAndServe\<close> to
  return, with it.
\<close>

theorem late_listener_stays_open:
  "\<exists>e. reach event_bus_init event_bus_step e \<and> eb_trigger e = ShutdownDone \<and> sv_listener (eb_server e) = Some True"
proof -
  let ?R = "reach event_bus_init event_bus_step"
  obtain e0 where e0: "bus_main id idle_flags = Some e0" "sv_conns (eb_server e0) = []" "eb_trigger e0 = NotTriggered"
    "eb_redirect e0 = ''next''" "sv_closers (eb_server e0) = []" by (rule idle_bus)
  let ?e1 = "triggerShutdown id ''next'' e0"
  have "event_bus_init e0" using e0(1) unfolding event_bus_init_def by blast
  then have "?R e0" by (rule reach_init)
  moreover have "event_bus_step e0 ?e1" using e_signal [of id e0] e0(4) by simp
  ultimately have r1: "?R ?e1" by (rule reach_step)
  have t: "eb_trigger ?e1 = Triggered ''next''" "sv_closers (eb_server ?e1) = []"
    using e0 by (simp_all add: triggerShutdown_def GracefulShutdown_def Let_def)
  obtain e2 where e2: "finishShutdown None id ?e1 = [Some e2]" "eb_trigger e2 = ShutdownDone"
    by (rule finishShutdown_returns [OF event_bus_runs.reach_inv [OF r1], of id "''next''" None]) (use t in simp_all)
  have "event_bus_step ?e1 e2" using e_finish [of id e2 None ?e1] e2(1) by simp
  with r1 have "?R e2" by (rule reach_step)
  then have "?R (e2\<lparr>eb_server := Serve_listen (eb_server e2)\<rparr>)" using e_listen by (rule reach_step)
  with e2(2) show ?thesis by (intro exI [of _ "e2\<lparr>eb_server := Serve_listen (eb_server e2)\<rparr>"]) (simp add: Serve_listen_def)
qed

end
