(* ===== verification/Commands.thy ===== *)
theory Commands
  imports Manager_Invariant
begin

text \<open>
  The command-line programs that use the bus: \<open>cmd/producer\<close> and \<open>cmd/consumer\<close> on a
  connection manager, \<open>cmd/ack-demo\<close> and \<open>cmd/delivery-ack-demo\<close> on a single client. Their log
  lines are left out; what they publish, receive and acknowledge, and how they end, is kept.
\<close>

section \<open>Definitions\<close>

text \<open>\<open>strings.Split\<close> with a separator of one character.\<close>

fun Split :: "char \<Rightarrow> string \<Rightarrow> string list" where
  "Split sep [] = [[]]"
| "Split sep (c # s) =
     (if c = sep then [] # Split sep s
      else (case Split sep s of [] \<Rightarrow> [[c]] | part # parts \<Rightarrow> (c # part) # parts))"

definition endpoints_of :: "string \<Rightarrow> string \<Rightarrow> string list" where
  "endpoints_of address standby = [address] @ (if standby \<noteq> [] then Split (CHR '','') standby else [])"

subsection \<open>The producer\<close>

definition producer_newMessageID :: "go_error + byte list \<Rightarrow> go_error + string" where
  "producer_newMessageID random = (case random of Inl e \<Rightarrow> Inl e | Inr data \<Rightarrow> Inr (hex_encode data))"

record producer_flags =
  pf_topic :: string
  pf_key :: string
  pf_payload :: string
  pf_count :: int

definition producer_event :: "producer_flags \<Rightarrow> string \<Rightarrow> nat \<Rightarrow> event" where
  "producer_event fl messageID sequence =
     \<lparr>ev_ID = messageID, ev_IdempotencyKey = [], ev_Topic = pf_topic fl, ev_Key = pf_key fl,
      ev_Payload = bytes_of_string (pf_payload fl @ '' #'' @ digits10 sequence)\<rparr>"

text \<open>
  The loop from a sequence number on. Each turn reads random bytes and gets the result of
  \<open>Publish\<close>; the result is how the program ends, \<open>None\<close> if the turns given do not end it,
  and the events it handed to \<open>Publish\<close>.
\<close>

datatype ended = Exited | Fatal go_error

fun producer_loop :: "producer_flags \<Rightarrow> nat \<Rightarrow> ((go_error + byte list) \<times> go_error option) list \<Rightarrow>
    ended option \<times> event list" where
  "producer_loop fl sequence turns =
     (if pf_count fl = 0 \<or> int sequence \<le> pf_count fl then
        (case turns of
           [] \<Rightarrow> (None, [])
         | (random, published) # turns' \<Rightarrow>
             (case producer_newMessageID random of
                Inl e \<Rightarrow> (Some (Fatal e), [])
              | Inr messageID \<Rightarrow>
                  (let event = producer_event fl messageID sequence in
                   case published of
                     Some e \<Rightarrow> (Some (Fatal e), [event])
                   | None \<Rightarrow> (case producer_loop fl (sequence + 1) turns' of (r, events) \<Rightarrow> (r, event # events)))))
      else (Some Exited, []))"

declare producer_loop.simps [simp del]

text \<open>The manager it publishes through, and the loop from its first turn.\<close>

definition producer_start :: "((nat \<Rightarrow> string \<Rightarrow> go_error + conn) \<times> ctx) list \<Rightarrow> string iter \<Rightarrow> string \<Rightarrow> string \<Rightarrow>
    (go_error + manager) option" where
  "producer_start rounds ti address standby = NewConnectionManager rounds ti (endpoints_of address standby) ''producer-cli''"

definition producer_main :: "producer_flags \<Rightarrow> ((go_error + byte list) \<times> go_error option) list \<Rightarrow> ended option \<times> event list" where
  "producer_main fl turns = producer_loop fl 1 turns"

subsection \<open>The consumer\<close>

text \<open>Up to its loop: the manager with the topic subscribed, or the error it dies of.\<close>

definition consumer_start :: "((nat \<Rightarrow> string \<Rightarrow> go_error + conn) \<times> ctx) list \<Rightarrow> string iter \<Rightarrow> string \<Rightarrow> string \<Rightarrow>
    string \<Rightarrow> string \<Rightarrow> (go_error + manager) option" where
  "consumer_start rounds ti address standby clientID topic =
     map_option (\<lambda>r. case r of
         Inl e \<Rightarrow> Inl e
       | Inr m \<Rightarrow> (case Manager_Subscribe topic m of (Some e, m') \<Rightarrow> Inl e | (None, m') \<Rightarrow> Inr m'))
       (NewConnectionManager rounds ti (endpoints_of address standby) clientID)"

text \<open>
  One turn of the loop, a result per ready case: the event it received, whether it goes on,
  and the manager, closed by the deferred call when it returns.
\<close>

definition consumer_turn :: "bool \<Rightarrow> manager \<Rightarrow> (event option \<times> bool \<times> manager) list" where
  "consumer_turn stop m =
     (case chan_recv (mg_events m) of
        RecvOk event ch \<Rightarrow> [(Some event, True, snd (Manager_Acknowledge (ev_ID event) (m\<lparr>mg_events := ch\<rparr>)))]
      | RecvClosed \<Rightarrow> [(None, False, Manager_Close m)]
      | RecvBlocks \<Rightarrow> [])
     @ (case chan_recv (mg_shutdowns m) of
          RecvOk redirect ch \<Rightarrow> [(None, True, m\<lparr>mg_shutdowns := ch\<rparr>)]
        | RecvClosed \<Rightarrow> [(None, False, Manager_Close m)]
        | RecvBlocks \<Rightarrow> [])
     @ (if stop then [(None, False, Manager_Close m)] else [])"

subsection \<open>The demonstrations\<close>

definition statusName :: "PublishStatus \<Rightarrow> string" where
  "statusName status =
     (case status of
        PublishAccepted \<Rightarrow> ''published''
      | PublishDuplicate \<Rightarrow> ''duplicate''
      | _ \<Rightarrow> ''unknown'')"

definition ack_demo_event :: "string \<Rightarrow> string \<Rightarrow> event" where
  "ack_demo_event messageID topic =
     \<lparr>ev_ID = messageID, ev_IdempotencyKey = messageID, ev_Topic = topic, ev_Key = [],
      ev_Payload = bytes_of_string ''ack demonstration''\<rparr>"

text \<open>
  What \<open>ack-demo\<close> prints from the results of its two publishes, and how it ends; then the whole
  program. A publish runs with its random bytes, what the other goroutines do to the client
  while it waits, and the state of the context.
\<close>

definition ack_demo :: "PublishStatus \<times> go_error option \<Rightarrow> PublishStatus \<times> go_error option \<Rightarrow> string list \<times> ended" where
  "ack_demo first second =
     (case snd first of
        Some e \<Rightarrow> ([], Fatal e)
      | None \<Rightarrow>
          (case snd second of
             Some e \<Rightarrow> ([statusName (fst first)], Fatal e)
           | None \<Rightarrow> ([statusName (fst first), statusName (fst second)], Exited)))"

type_synonym publish_env = "(go_error + byte list) \<times> (client \<Rightarrow> client) \<times> ctx"

abbreviation publish_in :: "publish_env \<Rightarrow> event \<Rightarrow> client \<Rightarrow> ((PublishStatus \<times> go_error option) \<times> client) list" where
  "publish_in env event c \<equiv> (case env of (random, others, ctx) \<Rightarrow> Client_PublishWithResult random event others ctx c)"

definition ack_demo_main :: "go_error + conn \<Rightarrow> string \<Rightarrow> string \<Rightarrow> publish_env \<Rightarrow> publish_env \<Rightarrow>
    (string list \<times> ended) list" where
  "ack_demo_main net messageID topic env1 env2 =
     (let event = ack_demo_event messageID topic in
      case Dial net ''ack-demo'' of
        Inl e \<Rightarrow> [([], Fatal e)]
      | Inr client \<Rightarrow>
          concat (map (\<lambda>(first, client1).
              if snd first \<noteq> None then [ack_demo first first]
              else map (\<lambda>(second, _). ack_demo first second)
                     (publish_in env2 event client1))
            (publish_in env1 event client)))"

text \<open>
  \<open>delivery-ack-demo\<close> up to its subscription.
\<close>

definition delivery_demo_start :: "go_error + conn \<Rightarrow> string \<Rightarrow> go_error + client" where
  "delivery_demo_start net topic =
     (case Dial net ''delivery-ack-demo'' of
        Inl e \<Rightarrow> Inl e
      | Inr c \<Rightarrow> (case Client_Subscribe topic c of (Some e, _) \<Rightarrow> Inl e | (None, c') \<Rightarrow> Inr c'))"

text \<open>
  \<open>delivery-ack-demo\<close> after its subscription: waiting for the first event, then for a second one
  or the timer, then at the acknowledgement, then ended.
\<close>

datatype delivery_demo = DemoFirst | DemoSecond event | DemoAck event | DemoEnded ended

fun delivery_demo_step :: "delivery_demo \<Rightarrow> client \<Rightarrow> (delivery_demo \<times> client) list" where
  "delivery_demo_step DemoFirst c =
     (case chan_recv (cl_events c) of
        RecvOk event ch \<Rightarrow> [(DemoSecond event, c\<lparr>cl_events := ch\<rparr>)]
      | RecvClosed \<Rightarrow> [(DemoEnded (Fatal (ErrorsNew ''event stream closed before delivery'')), c)]
      | RecvBlocks \<Rightarrow> [])"
| "delivery_demo_step (DemoSecond event) c =
     (case chan_recv (cl_events c) of
        RecvOk retry ch \<Rightarrow> [(DemoAck event, c\<lparr>cl_events := ch\<rparr>)]
      | RecvClosed \<Rightarrow> [(DemoAck event, c)]
      | RecvBlocks \<Rightarrow> [])
     @ [(DemoAck event, c)]"
| "delivery_demo_step (DemoAck event) c =
     (case Client_Acknowledge (ev_ID event) c of
        (Some e, c') \<Rightarrow> [(DemoEnded (Fatal e), c')]
      | (None, c') \<Rightarrow> [(DemoEnded Exited, Client_Close c')])"
| "delivery_demo_step (DemoEnded r) c = []"

section \<open>Lemmas\<close>

subsection \<open>Endpoints\<close>

text \<open>\<open>strings.Join\<close> undoes \<open>Split\<close>, and no part contains the separator.\<close>

fun Join :: "char \<Rightarrow> string list \<Rightarrow> string" where
  "Join sep [] = []"
| "Join sep [part] = part"
| "Join sep (part # parts) = part @ sep # Join sep parts"

lemma Split_not_Nil [simp]: "Split sep s \<noteq> []"
  by (cases s) (auto split: list.splits)

lemma Join_Split: "Join sep (Split sep s) = s"
proof (induction s)
  case (Cons c s)
  obtain part parts where "Split sep s = part # parts" by (cases "Split sep s") auto
  with Cons show ?case by (cases parts) auto
qed simp

lemma Split_parts: "part \<in> set (Split sep s) \<Longrightarrow> sep \<notin> set part"
  by (induction s arbitrary: part) (fastforce split: if_splits list.splits)+

lemma Split_length: "length (Split sep s) = count_list s sep + 1"
proof (induction s)
  case (Cons c s)
  then show ?case by (cases "Split sep s") auto
qed simp

lemma endpoints_of_first: "endpoints_of address standby \<noteq> []" "hd (endpoints_of address standby) = address"
  by (simp_all add: endpoints_of_def)

subsection \<open>The producer\<close>

text \<open>Different random bytes give different identifiers.\<close>

lemma hex_digit_inj: "m < 16 \<Longrightarrow> n < 16 \<Longrightarrow> hex_digit m = hex_digit n \<Longrightarrow> m = n"
proof -
  have "distinct ''0123456789abcdef''" by simp
  then show "m < 16 \<Longrightarrow> n < 16 \<Longrightarrow> hex_digit m = hex_digit n \<Longrightarrow> m = n"
    unfolding hex_digit_def by (subst (asm) nth_eq_iff_index_eq) simp_all
qed

lemma hex_encode_inj: "hex_encode data = hex_encode data' \<Longrightarrow> data = data'"
proof (induction data arbitrary: data')
  case Nil
  then show ?case by (cases data') (simp_all add: hex_encode_def)
next
  case (Cons b data)
  then obtain b' rest where d: "data' = b' # rest" by (cases data') (auto simp: hex_encode_def)
  have lt: "unat x div 16 < 16" for x :: byte using unsigned_less [of x, where ?'a = nat] by simp
  have "unat b div 16 = unat b' div 16" "unat b mod 16 = unat b' mod 16"
    using Cons.prems lt hex_digit_inj by (auto simp: d hex_encode_def)
  then have "b = b'" by (metis div_mult_mod_eq word_unat_eq_iff)
  moreover have "data = rest" using Cons by (auto simp: d hex_encode_def)
  ultimately show ?case by (simp add: d)
qed

lemma hex_encode_length [simp]: "length (hex_encode data) = 2 * length data"
  by (induction data) (simp_all add: hex_encode_def)

text \<open>
  With every publish acknowledged, the producer hands over the numbered events one by one, and
  ends exactly when it has handed over \<open>count\<close> of them; with count 0 it never ends.
\<close>

lemma producer_loop_all:
  assumes "\<forall>(random, err) \<in> set turns. err = None \<and> (\<exists>data. random = Inr data)"
  shows "snd (producer_loop fl n turns) =
      map (\<lambda>i. producer_event fl (hex_encode (projr (fst (turns ! i)))) (n + i))
        [0..<(if pf_count fl = 0 then length turns else min (length turns) (nat (pf_count fl + 1 - int n)))]
    \<and> fst (producer_loop fl n turns) =
        (if pf_count fl \<noteq> 0 \<and> nat (pf_count fl + 1 - int n) \<le> length turns then Some Exited else None)"
  using assms
proof (induction turns arbitrary: n)
  case (Cons t turns)
  then obtain data where t: "t = (Inr data, None)" by auto
  have IH: "snd (producer_loop fl (Suc n) turns) =
      map (\<lambda>i. producer_event fl (hex_encode (projr (fst (turns ! i)))) (Suc n + i))
        [0..<(if pf_count fl = 0 then length turns else min (length turns) (nat (pf_count fl - int n)))]"
    "fst (producer_loop fl (Suc n) turns) =
        (if pf_count fl \<noteq> 0 \<and> nat (pf_count fl - int n) \<le> length turns then Some Exited else None)"
    using Cons.IH [of "Suc n"] Cons.prems by simp_all
  show ?case
  proof (cases "pf_count fl = 0 \<or> int n \<le> pf_count fl")
    case True
    let ?k = "if pf_count fl = 0 then length turns else min (length turns) (nat (pf_count fl - int n))"
    have k: "(if pf_count fl = 0 then length (t # turns) else min (length (t # turns)) (nat (pf_count fl + 1 - int n))) = Suc ?k"
      using True by (auto simp: min_def nat_diff_distrib')
    have "producer_loop fl n (t # turns) =
        (fst (producer_loop fl (Suc n) turns), producer_event fl (hex_encode data) n # snd (producer_loop fl (Suc n) turns))"
      using True by (subst producer_loop.simps) (simp add: t producer_newMessageID_def Let_def case_prod_beta)
    then show ?thesis
      unfolding k using True IH by (auto simp: t upt_conv_Cons map_Suc_upt [symmetric] simp del: upt_Suc)
  next
    case False
    then show ?thesis by (subst (1 2) producer_loop.simps) simp
  qed
qed (subst (1 2) producer_loop.simps; auto)

subsection \<open>The consumer\<close>

text \<open>
  A consumer is one of the applications that \<open>manager_step\<close> lets act: its start leads to a
  reachable manager that knows the topic, and each turn of its loop is made of manager steps.
\<close>

lemma consumer_start_reaches:
  assumes "consumer_start rounds ti address standby clientID topic = Some (Inr m)" "iteration_order ti"
    and "\<forall>(net, ctx) \<in> set rounds. \<forall>n e cn. net n e = Inr cn \<longrightarrow> \<not> cn_closed cn"
  shows "reach manager_init manager_step \<lparr>ms_manager = m, ms_run = RunTop, ms_publishers = []\<rparr>" "topic \<in> set (mg_topics m)"
proof -
  obtain m0 where m0: "NewConnectionManager rounds ti (endpoints_of address standby) clientID = Some (Inr m0)"
    and m: "Manager_Subscribe topic m0 = (None, m)"
    using assms(1) unfolding consumer_start_def by (fastforce split: sum.splits prod.splits option.splits)
  let ?s = "\<lparr>ms_manager = m0, ms_run = RunTop, ms_publishers = []\<rparr>"
  have "reach manager_init manager_step ?s"
    using m0 assms(2,3) by (intro reach_init) (auto simp: manager_init_def)
  moreover have "manager_step ?s \<lparr>ms_manager = m, ms_run = RunTop, ms_publishers = []\<rparr>"
    using m_subscribe [of topic ?s None m] m by simp
  ultimately show "reach manager_init manager_step \<lparr>ms_manager = m, ms_run = RunTop, ms_publishers = []\<rparr>"
    by (rule reach_step)
  show "topic \<in> set (mg_topics m)"
    using m by (auto simp: Manager_Subscribe_def Let_def put_client_def split: option.splits prod.splits)
qed

lemma consumer_turn_reaches:
  assumes "reach manager_init manager_step s" "(received, goes_on, m) \<in> set (consumer_turn stop (ms_manager s))"
  shows "reach manager_init manager_step (s\<lparr>ms_manager := m\<rparr>)"
proof -
  have close: "reach manager_init manager_step (s\<lparr>ms_manager := Manager_Close (ms_manager s)\<rparr>)"
    using assms(1) m_close by (rule reach_step)
  have event: "reach manager_init manager_step
      (s\<lparr>ms_manager := snd (Manager_Acknowledge i ((ms_manager s)\<lparr>mg_events := ch\<rparr>))\<rparr>)"
    if e: "chan_recv (mg_events (ms_manager s)) = RecvOk ev ch" for ev ch i
  proof -
    let ?s1 = "s\<lparr>ms_manager := (ms_manager s)\<lparr>mg_events := ch\<rparr>\<rparr>"
    have "reach manager_init manager_step ?s1" using assms(1) m_event [OF e] by (rule reach_step)
    moreover have "manager_step ?s1 (s\<lparr>ms_manager := snd (Manager_Acknowledge i ((ms_manager s)\<lparr>mg_events := ch\<rparr>))\<rparr>)"
      using m_acknowledge [of i ?s1] by (metis manager_sys.select_convs(1) manager_sys.surjective manager_sys.update_convs(1) prod.collapse)
    ultimately show ?thesis by (rule reach_step)
  qed
  have shutdown: "reach manager_init manager_step (s\<lparr>ms_manager := (ms_manager s)\<lparr>mg_shutdowns := ch\<rparr>\<rparr>)"
    if "chan_recv (mg_shutdowns (ms_manager s)) = RecvOk r ch" for r ch
    using assms(1) m_shutdown [OF that] by (rule reach_step)
  show ?thesis
    using assms(2) close event shutdown by (auto simp: consumer_turn_def split: recv_result.splits if_splits)
qed

text \<open>A turn blocks only while there is nothing to receive and no signal.\<close>

lemma consumer_turn_blocks:
  "consumer_turn stop m = [] \<longleftrightarrow>
     chan_recv (mg_events m) = RecvBlocks \<and> chan_recv (mg_shutdowns m) = RecvBlocks \<and> \<not> stop"
  by (auto simp: consumer_turn_def split: recv_result.splits)

subsection \<open>The demonstrations\<close>

text \<open>\<open>ack-demo\<close> exits normally exactly when neither publish fails, and then prints both results.\<close>

lemma ack_demo_main_results:
  assumes "(lines, r) \<in> set (ack_demo_main net messageID topic env1 env2)"
  shows "r = Exited \<longleftrightarrow> length lines = 2"
    and "r = Exited \<Longrightarrow> set lines \<subseteq> {''published'', ''duplicate'', ''unknown''}"
  using assms
  by (auto simp: ack_demo_main_def ack_demo_def statusName_def Let_def
      split: sum.splits option.splits if_splits PublishStatus.splits)

text \<open>\<open>delivery-ack-demo\<close> acknowledges the event it received first, whatever arrives meanwhile.\<close>

lemma delivery_demo_acknowledges:
  assumes "(p1, c1) \<in> set (delivery_demo_step DemoFirst c)" "(p2, c2) \<in> set (delivery_demo_step p1 c1)"
    and "(p3, c3) \<in> set (delivery_demo_step p2 c2)"
  obtains ev where "chan_recv (cl_events c) = RecvOk ev (cl_events c1)" "p2 = DemoAck ev"
    and "c3 = (case Client_Acknowledge (ev_ID ev) c2 of (None, c') \<Rightarrow> Client_Close c' | (Some e, c') \<Rightarrow> c')"
    "p3 = DemoEnded (case fst (Client_Acknowledge (ev_ID ev) c2) of None \<Rightarrow> Exited | Some e \<Rightarrow> Fatal e)"
proof (cases "chan_recv (cl_events c)")
  case (RecvOk ev ch)
  with assms(1) have p1: "p1 = DemoSecond ev" "c1 = c\<lparr>cl_events := ch\<rparr>" by simp_all
  with assms(2) have p2: "p2 = DemoAck ev" by (auto split: recv_result.splits)
  with assms(3) RecvOk p1 show thesis
    by (intro that [of ev]; cases "Client_Acknowledge (ev_ID ev) c2") (auto split: option.splits)
qed (use assms in auto)

end
