(* ===== verification/Spec2Isabelle.thy ===== *)
theory Spec2Isabelle
  imports Broker_History Concurrency_Properties Server_Properties Manager_Properties Event_Bus Commands
begin

text \<open>
  A verification development of the distributed event bus: a broker that routes events by topic
  to bounded queues, a framed TCP protocol, a server and clients that speak it, a connection
  manager that fails over between brokers, and the programs built from them. Paths are relative
  to \<open>src/\<close>.

  \<^bold>\<open>The program.\<close> A producer publishes an event through a \<open>ConnectionManager\<close> or a \<open>Client\<close>, which
  encodes it as a PUBLISH frame. The server decodes the frame, calls \<open>Broker.PublishWithResult\<close>
  and answers with an ACK. The broker drops repeated idempotency keys, caches events without
  subscribers and otherwise enqueues the event to every subscription of the topic. One goroutine
  per subscription takes events from its queue and sends EVENT frames until the consumer
  acknowledges, three times at most. A graceful shutdown drains the subscriptions and sends
  SHUTDOWN with a redirect, on which a connection manager dials the next broker.

  \<^bold>\<open>Theories and the code they model.\<close>

    \<^item> \<open>Bus_Prelude\<close>, \<open>Go_Runtime\<close>: bytes, big-endian integers, Go maps as association lists, the
      reachability predicate \<open>reach\<close> with the locale \<open>invariant_system\<close>; errors and their texts,
      channels (locale \<open>bounded_queue\<close>), contexts, readers (locale \<open>byte_stream\<close>) and writers of
      the standard library.
    \<^item> \<open>Protocol\<close>: \<open>protocol/frame.go\<close>. \<open>read_frame\<close>, \<open>write_frame\<close>, \<open>write_full\<close> are \<open>ReadFrame\<close>,
      \<open>WriteFrame\<close>, \<open>writeFull\<close>; a byte-level parser is the reference for reading.
    \<^item> \<open>Messages\<close>: \<open>transport/tcp/messages.go\<close>, one encoder and decoder per message kind, each an
      interpretation of the locale \<open>codec\<close>.
    \<^item> \<open>Subscription\<close>, \<open>Broker\<close>: \<open>broker/broker.go\<close>. The record \<open>broker\<close> has the fields of
      \<open>Broker\<close>; subscriptions live in \<open>b_heap\<close> and are referred to by address. \<open>Subscribe\<close>,
      \<open>PublishWithResult\<close>, \<open>Subscription_Close\<close>, \<open>broker_Close\<close>, \<open>BeginShutdown\<close>, \<open>Drain\<close>,
      \<open>seen\<close>, \<open>remember\<close> and \<open>cacheEvent\<close> have the names of the methods.
    \<^item> \<open>Concurrency\<close>: the same operations as goroutines with a program counter between critical
      sections and \<open>select\<close>s (\<open>publisher_step\<close>, \<open>closer_step\<close>), interleaved.
    \<^item> \<open>Memory\<close>: the contract of a bounded memory of identifiers, interpreted on the broker's
      deduplication and on the client's record of deliveries.
    \<^item> \<open>Transport\<close>, \<open>Client\<close>: \<open>net.Conn\<close> and \<open>transport/tcp/client.go\<close>; the points of \<open>readLoop\<close>
      are the datatype \<open>loop\<close>, \<open>client_step\<close> interleaves it with the application.
    \<^item> \<open>Server\<close>: \<open>transport/tcp/server.go\<close>; handlers are \<open>handle_subscribe\<close>, \<open>handle_publish\<close>,
      \<open>handle_ack\<close>, \<open>handle_unsubscribe\<close>, the delivery goroutine is \<open>deliver\<close>, \<open>gracefulClose\<close> and
      \<open>GracefulShutdown\<close> are the shutdown; \<open>server_step\<close> interleaves them.
    \<^item> \<open>Connection_Manager\<close>: \<open>transport/tcp/connection_manager.go\<close>; \<open>run_step\<close> is \<open>run\<close> with \<open>watch\<close>
      and \<open>reconnect\<close>, \<open>connect_step\<close> is \<open>connect\<close>, \<open>publish_step\<close> the retries of \<open>Publish\<close>.
    \<^item> \<open>Logging\<close>: \<open>logging/logger.go\<close>. \<open>Event_Bus\<close>: \<open>cmd/event-bus/main.go\<close>. \<open>Commands\<close>:
      \<open>cmd/producer\<close>, \<open>cmd/consumer\<close>, \<open>cmd/ack-demo\<close> and \<open>cmd/delivery-ack-demo\<close>.

  \<^bold>\<open>What is proved.\<close>

    \<^item> Broker (\<open>Broker_Properties\<close>, \<open>Broker_History\<close>): in every run what a subscriber received and
      has queued is a subsequence of what was published that contains everything it was owed;
      publishing reaches every subscriber and nobody else, never panics, retries are duplicates,
      memory stays within the configuration, the cache keeps and replays the newest events, close
      closes everything; and where \<open>Drop\<close>, \<open>Block\<close> and the eviction of keys fall short.
    \<^item> Concurrency (\<open>Concurrency_Properties\<close>): no schedule panics, closing finishes under every
      schedule, uninterrupted runs are schedules; two schedules show the race of a concurrent
      retry and an event enqueued after \<open>BeginShutdown\<close>.
    \<^item> Wire format (\<open>Protocol\<close>, \<open>Messages\<close>): frames and messages round trip for every segmentation of
      reads and writes, cut streams give prefixes, payloads are canonical.
    \<^item> Client (\<open>Client_Properties\<close>): no panic, acknowledged events are not exposed again, a publisher
      gets its acknowledgement, when the read loop ends after \<open>Close\<close> and when it cannot.
    \<^item> Server (\<open>Server_Invariant\<close>, \<open>Server_Evolution\<close>, \<open>Server_Properties\<close>): the broker inside is
      always one that broker operations reach, every call returns, one ACK per publish, refusal
      while draining, bounded delivery attempts, SHUTDOWN only after draining.
    \<^item> Connection manager (\<open>Manager_Invariant\<close>, \<open>Manager_Properties\<close>): no panic, \<open>connect\<close> equals the
      search for the first endpoint that answers, redirects are dialled first, publishing retries
      one message at most fifty times, \<open>Close\<close> lets \<open>run\<close> end.
    \<^item> Process (\<open>Event_Bus\<close>): the first shutdown request decides and completes once.
    \<^item> This theory: a publish that was acknowledged as published is delivered to a waiting
      consumer unchanged, from the publisher's client over server and broker to the consumer's
      client; a repeated publish is answered as a duplicate.

  \<^bold>\<open>Conventions.\<close> A step with several possible results is the list of them: empty when the
  goroutine blocks, with \<open>None\<close> for a panic or a call that never returns. Errors are values of
  \<open>go_error\<close>. The iteration order of a Go map is an argument constrained by \<open>iteration_order\<close>.
  Random bytes, dialled connections, the arrival of timers and the state of contexts are
  arguments. The subscription counter is a 64 bit word that wraps; other lengths and counters are
  \<open>nat\<close> or \<open>int\<close>, which no run of the program exhausts.

  \<^bold>\<open>Bounds.\<close> All functions are total. Loops that wait for the environment take what the environment
  does as a list, one entry per turn (\<open>Drain\<close>, \<open>connectUntilAvailable\<close>, \<open>producer_loop\<close>), and
  return \<open>None\<close> when it is used up; step relations need no fuel. The constants of the code are
  kept: three delivery attempts, fifty publish attempts, 4096 remembered deliveries, 16 MiB frames,
  channels of 64 and 1.

  \<^bold>\<open>Atomicity.\<close> A step is a critical section, a \<open>select\<close> or a channel operation in \<open>Concurrency\<close>,
  \<open>Client\<close> and \<open>Connection_Manager\<close>. In \<open>Server\<close> a handler runs from one frame to the next in one
  step, \<open>Server.Close\<close> and the beginning of \<open>GracefulShutdown\<close> are one step each, and broker
  operations are uninterrupted; their interleaving is studied in \<open>Concurrency\<close>.

  \<^bold>\<open>Not modelled.\<close> Log calls outside \<open>Logging\<close> and \<open>Event_Bus\<close> and their formatting; durations, of
  which only the order of events is kept; flag parsing, HTTP transport and JSON text, which are
  library code; accessors that only return a channel (\<open>Events\<close>, \<open>Shutdowns\<close>, \<open>Done\<close>), whose
  channels are fields of the states; the tests, benchmarks and shell scripts.
\<close>

section \<open>From publisher to consumer\<close>

text \<open>What a client has put on the wire when its publish is waiting for the acknowledgement.\<close>

lemma publish_on_wire:
  assumes "publish_send random ev c = Inr (a, i, c')"
  obtains ev' p where "identify random ev = Inr ev'" "i = ev_ID ev'" "ev_Topic ev' = ev_Topic ev"
    "encodeEvent ev' = Inr p" "length p \<le> MaxPayloadSize"
    "sent_bytes (cl_conn c') = sent_bytes (cl_conn c) @ frame_bytes (mk_frame TypePublish p)"
proof -
  obtain ev' p where ev': "identify random ev = Inr ev'" "i = ev_ID ev'"
    and p: "encodePublish (message_of_event ev') = Inr p"
    and send: "client_send (mk_frame TypePublish p) (snd (publish_register (ev_ID ev') c)) = (None, c')"
    using assms by (auto simp: publish_send_def split: sum.splits prod.splits option.splits)
  have wire: "valid_frame (mk_frame TypePublish p)"
    "sent_bytes (cl_conn c') = sent_bytes (cl_conn c) @ frame_bytes (mk_frame TypePublish p)"
    using send conn_write_sent [of "mk_frame TypePublish p" "cl_conn c"]
    by (auto simp: client_send_def publish_register_def split: prod.splits if_splits)
  have "ev_Topic ev' = ev_Topic ev"
    using ev'(1) by (auto simp: identify_def Let_def split: sum.splits if_splits)
  with ev' p wire that show thesis
    by (simp add: encodeEvent_def valid_frame_def)
qed

text \<open>One turn of the server on such a frame.\<close>

abbreviation answer :: "string \<Rightarrow> PublishResult \<Rightarrow> go_error option \<Rightarrow> ackMessage" where
  "answer i res err \<equiv> \<lparr>am_ID = i,
     am_Status = (if err \<noteq> None then ackRejected else if res = Duplicate then ackDuplicate else ackPublished),
     am_Error = (case err of None \<Rightarrow> [] | Some e \<Rightarrow> error_text e)\<rparr>"

lemma status_of_answer:
  "status_of_ack (answer i res err) =
     (case err of Some e \<Rightarrow> (PublishNone, Some (ErrorsNew (error_text e)))
      | None \<Rightarrow> (if res = Duplicate then PublishDuplicate else PublishAccepted, None))"
  by (cases err) (simp_all add: status_of_ack_def ackRejected_def ackDuplicate_def ackPublished_def)

lemma event_answered:
  assumes "reach server_init server_step s" "k < length (sv_heap s)" "iteration_order si" "iteration_order ki" "iteration_order ai"
    and "co_phase (the_conn k s) = Serving" "\<not> isDraining k s" "usable_conn (co_net (the_conn k s))"
    and "encodeEvent ev = Inr p" "ev_Topic ev \<noteq> []" "length p \<le> MaxPayloadSize"
    and "rd_pending (cn_in (co_net (the_conn k s))) = frame_bytes (mk_frame TypePublish p) @ rest"
    and "Some s' \<in> set (serve si ki ai k s)"
  obtains res err ap cn' where
    "Some ((res, err), sv_broker s') \<in> set (PublishWithResult si ki None ev (sv_broker s))"
    "sent_bytes (co_net (the_conn k s')) = sent_bytes (co_net (the_conn k s)) @ frame_bytes (mk_frame TypeAck ap)"
    "decodeAck ap = Inr (answer (ev_ID ev) res err)"
    "\<forall>j. j \<noteq> k \<longrightarrow> the_conn j s' = the_conn j s" "length (sv_heap s') = length (sv_heap s)"
    "the_conn k s' = (the_conn k s)\<lparr>co_net := cn'\<rparr>" "usable_conn cn'" "rd_pending (cn_in cn') = rest"
    "reach server_init server_step s'" "\<not> isDraining k s'"
proof -
  have dec: "decodePublish p = Inr (message_of_event ev)"
    using assms(9) by (simp add: encodeEvent_def publish_codec.decode_iff_encode)
  have topic: "pm_Topic (message_of_event ev) \<noteq> []" and i: "pm_ID (message_of_event ev) = ev_ID ev"
    and e: "event_of_message (message_of_event ev) = ev"
    using assms(10) by (simp_all add: message_of_event_def event_of_message_def)
  have r: "reach server_init server_step s'"
    using assms(1) s_serve [OF assms(2-5,13)] by (rule reach_step)
  have "\<not> isDraining k s'" if "the_conn k s' = (the_conn k s)\<lparr>co_net := cn'\<rparr>" for cn'
    using that serve_part [OF assms(13)] assms(7) by (simp add: isDraining_def)
  with publish_answered [OF assms(1-4,6-8) dec topic assms(11-13), unfolded i e] r that show thesis by blast
qed

text \<open>A delivery goroutine that waits on its queue sends the event that arrives there.\<close>

lemma deliver_two_steps:
  assumes "j < length (sv_heap s)" "d < length (co_deliveries (the_conn j s))" "the_delivery j d s = Ranging"
    and "queue (b_heap (sv_broker s) ! fst (co_deliveries (the_conn j s) ! d)) = [ev]"
    and "encodeEvent ev = Inr p" "length p \<le> MaxPayloadSize" "usable_conn (co_net (the_conn j s))"
  obtains s1 s2 where "deliver j d s = [s1]" "deliver j d s1 = [s2]"
    "sent_bytes (co_net (the_conn j s1)) = sent_bytes (co_net (the_conn j s))"
    "sent_bytes (co_net (the_conn j s2)) = sent_bytes (co_net (the_conn j s)) @ frame_bytes (mk_frame TypeEvent p)"
proof -
  let ?co = "the_conn j s" and ?a = "fst (co_deliveries (the_conn j s) ! d)"
  obtain ch where recv: "chan_recv (sub_events (b_heap (sv_broker s) ! ?a)) = RecvOk ev ch"
    using assms(4) by (simp add: chan_recv_def)
  define s1 where "s1 = hd (deliver j d s)"
  have s1: "deliver j d s = [s1]" "the_delivery j d s1 = Sending ev p 1 (length (co_acks ?co))"
    "co_net (the_conn j s1) = co_net ?co" "j < length (sv_heap s1)" "d < length (co_deliveries (the_conn j s1))"
    using assms(1-3,5) recv
    by (simp_all add: s1_def deliver_def deliver_next_def put_delivery_def Let_def split: option.splits)
  have "valid_frame (mk_frame TypeEvent p)" using assms(6) by (simp add: valid_frame_def TypeEvent_def)
  then obtain cn where cn: "conn_send (mk_frame TypeEvent p) j s1 = (None, put_conn j ((the_conn j s1)\<lparr>co_net := cn\<rparr>) s1)"
    "sent_bytes cn = sent_bytes (co_net ?co) @ frame_bytes (mk_frame TypeEvent p)"
    using conn_send_usable [OF s1(4)] assms(7) s1(3) by metis
  define s2 where "s2 = hd (deliver j d s1)"
  have "deliver j d s1 = [s2]" "co_net (the_conn j s2) = cn"
    using s1 cn(1) by (simp_all add: s2_def deliver_def deliver_send_def put_delivery_def Let_def)
  with s1(1,3) cn(2) show thesis by (intro that [of s1 s2]) simp_all
qed

text \<open>
  Every client to which the bytes arrive next, and which has not acknowledged the event before,
  hands the event to the application.
\<close>

definition read_as_event :: "byte list \<Rightarrow> event \<Rightarrow> bool" where
  "read_as_event bs ev \<longleftrightarrow>
     (\<forall>c rest. rd_pending (cn_in (cl_conn c)) = bs @ rest \<longrightarrow> \<not> cn_closed (cl_conn c) \<longrightarrow> \<not> wasDelivered (ev_ID ev) c \<longrightarrow>
        (\<exists>c'. readLoop Reading c = [Some (Exposing ev, c')]))"

lemma read_as_event_frame:
  assumes "encodeEvent ev = Inr p" "length p \<le> MaxPayloadSize"
  shows "read_as_event (frame_bytes (mk_frame TypeEvent p)) ev"
  unfolding read_as_event_def
proof (intro allI impI)
  fix c rest
  assume c: "rd_pending (cn_in (cl_conn c)) = frame_bytes (mk_frame TypeEvent p) @ rest" "\<not> cn_closed (cl_conn c)"
    "\<not> wasDelivered (ev_ID ev) c"
  have "valid_frame (mk_frame TypeEvent p)" using assms(2) by (simp add: valid_frame_def TypeEvent_def)
  then obtain cn where "readLoop Reading c = [Some (client_frame (mk_frame TypeEvent p) (c\<lparr>cl_conn := cn\<rparr>))]"
    using c(2,1) by (rule read_turn)
  moreover have "decodeEvent p = Inr ev" using assms(1) by (simp add: event_codec.decode_iff_encode)
  ultimately show "\<exists>c'. readLoop Reading c = [Some (Exposing ev, c')]"
    using c(3) by (simp add: client_frame_def on_event_def wasDelivered_def)
qed

text \<open>
  C2 (an acknowledged publish reaches the subscriber). A client publishes an event, the
  server reads the frame and answers. If the answer says that the event was published, then a
  subscription of the topic that was waiting with an empty queue gets exactly this event: the
  next two steps of its delivery goroutine, which cannot fail, send one EVENT frame, and a
  client that reads this frame hands the application the event as it was published, with its
  identifiers, unless it has acknowledged that identifier before.
\<close>

theorem acknowledged_publish_is_delivered:
  assumes "publish_send random ev c = Inr (a, i, c')" "ev_Topic ev \<noteq> []"
    and "sent_bytes (cl_conn c') = sent_bytes (cl_conn c) @ bs"
    and "reach server_init server_step s" "k < length (sv_heap s)" "iteration_order si" "iteration_order ki" "iteration_order ai"
    and "co_phase (the_conn k s) = Serving" "\<not> isDraining k s" "usable_conn (co_net (the_conn k s))"
    and "rd_pending (cn_in (co_net (the_conn k s))) = bs @ rest"
    and "Some s' \<in> set (serve si ki ai k s)"
    and "j < length (sv_heap s)" "d < length (co_deliveries (the_conn j s))" "usable_conn (co_net (the_conn j s))"
    and "co_deliveries (the_conn j s) ! d = (sub, Ranging)" "sub \<in> set (subscribers (ev_Topic ev) (sv_broker s))"
    and "queue (b_heap (sv_broker s) ! sub) = []"
  shows "\<exists>ap ack. sent_bytes (co_net (the_conn k s')) = sent_bytes (co_net (the_conn k s)) @ frame_bytes (mk_frame TypeAck ap)
    \<and> decodeAck ap = Inr ack \<and> am_ID ack = i
    \<and> (am_Status ack = ackPublished \<longrightarrow>
        (\<exists>ev' p s1 s2. identify random ev = Inr ev' \<and> deliver j d s' = [s1] \<and> deliver j d s1 = [s2]
          \<and> sent_bytes (co_net (the_conn j s2)) = sent_bytes (co_net (the_conn j s1)) @ frame_bytes (mk_frame TypeEvent p)
          \<and> read_as_event (frame_bytes (mk_frame TypeEvent p)) ev'))"
proof -
  obtain ev' p where ev': "identify random ev = Inr ev'" "i = ev_ID ev'" "ev_Topic ev' = ev_Topic ev"
    and p: "encodeEvent ev' = Inr p" "length p \<le> MaxPayloadSize"
    and wire: "sent_bytes (cl_conn c') = sent_bytes (cl_conn c) @ frame_bytes (mk_frame TypePublish p)"
    using assms(1) by (rule publish_on_wire)
  have ok: "server_ok s" using assms(4) by (rule server_runs.reach_inv)
  note w = reachable_wf [OF server_okD(1) [OF ok]]
  have topic: "ev_Topic ev' \<noteq> []" using assms(2) ev'(3) by simp
  have pend: "rd_pending (cn_in (co_net (the_conn k s))) = frame_bytes (mk_frame TypePublish p) @ rest"
    using assms(3,12) wire by simp
  obtain res err ap cn' where
    pub: "Some ((res, err), sv_broker s') \<in> set (PublishWithResult si ki None ev' (sv_broker s))"
    and ack: "sent_bytes (co_net (the_conn k s')) = sent_bytes (co_net (the_conn k s)) @ frame_bytes (mk_frame TypeAck ap)"
      "decodeAck ap = Inr (answer (ev_ID ev') res err)"
    and frame: "\<forall>j. j \<noteq> k \<longrightarrow> the_conn j s' = the_conn j s" "length (sv_heap s') = length (sv_heap s)"
      "the_conn k s' = (the_conn k s)\<lparr>co_net := cn'\<rparr>" "usable_conn cn'"
    by (rule event_answered [OF assms(4-11) p(1) topic p(2) pend assms(13)])
  have j: "j < length (sv_heap s')" "co_deliveries (the_conn j s') = co_deliveries (the_conn j s)"
    "usable_conn (co_net (the_conn j s'))"
    using frame assms(14,16) by (cases "j = k"; simp)+
  have sub: "sub < length (b_heap (sv_broker s))"
    using routed_addrs(3) [OF w assms(6), of "ev_Topic ev"] assms(18) by blast
  have delivered: "\<exists>s1 s2. deliver j d s' = [s1] \<and> deliver j d s1 = [s2]
      \<and> sent_bytes (co_net (the_conn j s2)) = sent_bytes (co_net (the_conn j s1)) @ frame_bytes (mk_frame TypeEvent p)"
    if "err = None" "res = Published"
  proof -
    have "queue (b_heap (sv_broker s') ! sub) = [ev']"
      using w assms(6) pub
      by (cases rule: publish_outcomes) (use that sub ev'(3) assms(18,19) in auto)
    then have d: "d < length (co_deliveries (the_conn j s'))" "the_delivery j d s' = Ranging"
      "queue (b_heap (sv_broker s') ! fst (co_deliveries (the_conn j s') ! d)) = [ev']"
      using j(2) assms(15,17) by simp_all
    show ?thesis by (rule deliver_two_steps [OF j(1) d p j(3)]) simp
  qed
  have "err = None \<and> res = Published"
    if "(if err \<noteq> None then ackRejected else if res = Duplicate then ackDuplicate else ackPublished) = ackPublished"
    using that by (cases res) (auto simp: ackRejected_def ackDuplicate_def ackPublished_def split: if_splits)
  with ack ev'(1,2) delivered read_as_event_frame [OF p] show ?thesis by fastforce
qed

text \<open>
  C8 (a repeated publish is answered as a duplicate). The same event arrives twice on a
  connection. Each frame is answered with one ACK that carries the event's identifier. When the
  first ACK reports success, the second one reports a duplicate and the broker is as it was
  after the first: nothing is delivered twice. A client that was told \<open>published\<close> the first
  time, as in \<open>ack-demo\<close>, prints \<open>published\<close> and then \<open>duplicate\<close>.
\<close>

theorem repeated_publish_is_duplicate:
  assumes "reach server_init server_step s" "k < length (sv_heap s)"
    and "iteration_order si" "iteration_order ki" "iteration_order ai"
    and "co_phase (the_conn k s) = Serving" "\<not> isDraining k s" "usable_conn (co_net (the_conn k s))"
    and "encodeEvent ev = Inr p" "ev_Topic ev \<noteq> []" "length p \<le> MaxPayloadSize"
    and "rd_pending (cn_in (co_net (the_conn k s))) =
      frame_bytes (mk_frame TypePublish p) @ frame_bytes (mk_frame TypePublish p) @ rest"
    and "Some s1 \<in> set (serve si ki ai k s)"
    and "iteration_order si'" "iteration_order ki'" "iteration_order ai'" "Some s2 \<in> set (serve si' ki' ai' k s1)"
    and "DeduplicationSize (b_config (sv_broker s)) \<noteq> 0" "idempotencyKey ev \<noteq> []"
  shows "\<exists>ap1 ap2 ack1 ack2.
      sent_bytes (co_net (the_conn k s1)) = sent_bytes (co_net (the_conn k s)) @ frame_bytes (mk_frame TypeAck ap1)
    \<and> sent_bytes (co_net (the_conn k s2)) = sent_bytes (co_net (the_conn k s1)) @ frame_bytes (mk_frame TypeAck ap2)
    \<and> decodeAck ap1 = Inr ack1 \<and> decodeAck ap2 = Inr ack2 \<and> am_ID ack1 = ev_ID ev \<and> am_ID ack2 = ev_ID ev
    \<and> (snd (status_of_ack ack1) = None \<longrightarrow> sv_broker s2 = sv_broker s1 \<and> am_Status ack2 = ackDuplicate)
    \<and> (status_of_ack ack1 = (PublishAccepted, None) \<longrightarrow>
         ack_demo (status_of_ack ack1) (status_of_ack ack2) = ([''published'', ''duplicate''], Exited))"
proof -
  obtain res err ap1 cn1 where
    pub1: "Some ((res, err), sv_broker s1) \<in> set (PublishWithResult si ki None ev (sv_broker s))"
    and ack1: "sent_bytes (co_net (the_conn k s1)) = sent_bytes (co_net (the_conn k s)) @ frame_bytes (mk_frame TypeAck ap1)"
      "decodeAck ap1 = Inr (answer (ev_ID ev) res err)"
    and s1: "length (sv_heap s1) = length (sv_heap s)" "the_conn k s1 = (the_conn k s)\<lparr>co_net := cn1\<rparr>" "usable_conn cn1"
      "rd_pending (cn_in cn1) = frame_bytes (mk_frame TypePublish p) @ rest"
      "reach server_init server_step s1" "\<not> isDraining k s1"
    by (rule event_answered [OF assms(1-13)])
  have k1: "k < length (sv_heap s1)" "co_phase (the_conn k s1) = Serving" "usable_conn (co_net (the_conn k s1))"
    "rd_pending (cn_in (co_net (the_conn k s1))) = frame_bytes (mk_frame TypePublish p) @ rest"
    using s1 assms(2,6) by simp_all
  obtain res2 err2 ap2 where
    pub2: "Some ((res2, err2), sv_broker s2) \<in> set (PublishWithResult si' ki' None ev (sv_broker s1))"
    and ack2: "sent_bytes (co_net (the_conn k s2)) = sent_bytes (co_net (the_conn k s1)) @ frame_bytes (mk_frame TypeAck ap2)"
      "decodeAck ap2 = Inr (answer (ev_ID ev) res2 err2)"
    by (rule event_answered [OF s1(5) k1(1) assms(14-16) k1(2) s1(6) k1(3) assms(9-11) k1(4) assms(17)])
  have r: "reachable (sv_broker s)" using server_runs.reach_inv [OF assms(1)] by (rule server_okD)
  have dup: "PublishWithResult si' ki' None ev (sv_broker s1) = [Some ((Duplicate, None), sv_broker s1)]" if "err = None"
    using reachable_wf [OF r] assms(3) pub1
  proof (cases rule: publish_outcomes)
    case duplicate
    then show ?thesis using assms(19) by (simp add: PublishWithResult_def publish_begin_def Let_def)
  qed (use that pub1 retry_duplicate [OF r assms(3,18,19) refl refl] in auto)
  have "snd (status_of_ack (answer (ev_ID ev) res err)) = None \<Longrightarrow> sv_broker s2 = sv_broker s1 \<and> res2 = Duplicate \<and> err2 = None"
    using dup pub2 by (cases err) (simp_all only: status_of_answer, simp_all)
  then show ?thesis
    using ack1 ack2
    by (intro exI [of _ ap1] exI [of _ ap2] exI [of _ "answer (ev_ID ev) res err"] exI [of _ "answer (ev_ID ev) res2 err2"])
      (auto simp only: status_of_answer, auto simp: ack_demo_def statusName_def)
qed

section \<open>Sample exchanges\<close>

lemma sample_ack:
  assumes "reach server_init server_step (one_conn b (subscriber_conn cn))" "usable_conn cn"
    and "rd_pending (cn_in cn) = frame_bytes sample_publish @ rest"
    and "serve id id id 0 (one_conn b (subscriber_conn cn)) = [Some s']"
    and "PublishWithResult id id None keyed_event b = [Some ((res, None), b')]"
    and "sent_bytes (co_net (the_conn 0 s')) = sent_bytes cn @ frame_bytes (mk_frame TypeAck ap)"
  shows "decodeAck ap = Inr (answer ''1'' res None)"
proof (rule event_answered [OF assms(1), of 0 id id id keyed_event "publish_bytes (message_of_event keyed_event)" rest s'])
  fix res' err ap' cn'
  assume a: "Some ((res', err), sv_broker s') \<in> set (PublishWithResult id id None keyed_event (sv_broker (one_conn b (subscriber_conn cn))))"
    "sent_bytes (co_net (the_conn 0 s')) = sent_bytes (co_net (the_conn 0 (one_conn b (subscriber_conn cn)))) @ frame_bytes (mk_frame TypeAck ap')"
    "decodeAck ap' = Inr (answer (ev_ID keyed_event) res' err)"
  have "mk_frame TypeAck ap = mk_frame TypeAck ap'" using a(2) assms(6) by (intro frame_bytes_inj) simp
  then have "ap = ap'" by (simp add: mk_frame_def)
  with a(1,3) assms(5) show ?thesis by simp
qed (use assms(2-4) sample_payload_decodes(2) sample_payload_length in \<open>simp_all add: sample_publish_def\<close>)

theorem acknowledged_publish_is_delivered_witness:
  "\<exists>s s' s1 s2 ap p c3. reach server_init server_step s \<and> server_step s s'
     \<and> sent_bytes (co_net (the_conn 0 s')) = frame_bytes (mk_frame TypeAck ap)
     \<and> decodeAck ap = Inr \<lparr>am_ID = ''1'', am_Status = ackPublished, am_Error = []\<rparr>
     \<and> deliver 0 0 s' = [s1] \<and> deliver 0 0 s1 = [s2]
     \<and> sent_bytes (co_net (the_conn 0 s2)) = sent_bytes (co_net (the_conn 0 s1)) @ frame_bytes (mk_frame TypeEvent p)
     \<and> readLoop Reading (new_client (open_conn (frame_bytes (mk_frame TypeEvent p)))) = [Some (Exposing keyed_event, c3)]"
proof -
  let ?c = "new_client (open_conn [])" and ?r = "Inr [] :: go_error + byte list"
  obtain cn0 where send: "publish_send ?r (sample_event ''1'') ?c = Inr (length (cl_acks ?c), ''1'', snd (publish_register ''1'' ?c)\<lparr>cl_conn := cn0\<rparr>)"
    by (rule publish_send_sample [of ?c ?r]) (simp_all add: new_client_def)
  have id: "identify ?r (sample_event ''1'') = Inr keyed_event" by (simp add: identify_def)
  have wire: "sent_bytes (cl_conn (snd (publish_register ''1'' ?c)\<lparr>cl_conn := cn0\<rparr>)) = sent_bytes (cl_conn ?c) @ frame_bytes sample_publish"
    by (rule publish_on_wire [OF send]) (use id sample_payload_decodes(2) in \<open>simp add: sample_publish_def\<close>)
  obtain cn cn' where r: "reach server_init server_step (one_conn sample_broker (subscriber_conn cn))" "usable_conn cn"
    "rd_pending (cn_in cn) = frame_bytes sample_publish @ []" "sent_bytes cn = []"
    "serve id id id 0 (one_conn sample_broker (subscriber_conn cn)) = [Some (one_conn sample_published (subscriber_conn cn'))]"
    by (rule reach_published [of "[]"])
  let ?s = "one_conn sample_broker (subscriber_conn cn)" and ?s' = "one_conn sample_published (subscriber_conn cn')"
  have step: "server_step ?s ?s'" by (rule s_serve [of 0 _ id id id]) (use r(5) in simp_all)
  from acknowledged_publish_is_delivered [OF send _ wire r(1), of 0 id id id "[]" ?s' 0 0 0] r(2-5) id
  obtain ap ack where ap: "sent_bytes cn' = frame_bytes (mk_frame TypeAck ap)" "decodeAck ap = Inr ack"
    and del: "am_Status ack = ackPublished \<longrightarrow> (\<exists>p s1 s2. deliver 0 0 ?s' = [s1] \<and> deliver 0 0 s1 = [s2]
      \<and> sent_bytes (co_net (the_conn 0 s2)) = sent_bytes (co_net (the_conn 0 s1)) @ frame_bytes (mk_frame TypeEvent p)
      \<and> read_as_event (frame_bytes (mk_frame TypeEvent p)) keyed_event)"
    by (simp, blast)
  have dec: "decodeAck ap = Inr \<lparr>am_ID = ''1'', am_Status = ackPublished, am_Error = []\<rparr>"
    using sample_ack [OF r(1-3,5) publish_sample, of ap] ap(1) r(4) by simp
  with ap(2) del obtain p s1 s2 where d: "deliver 0 0 ?s' = [s1]" "deliver 0 0 s1 = [s2]"
      "sent_bytes (co_net (the_conn 0 s2)) = sent_bytes (co_net (the_conn 0 s1)) @ frame_bytes (mk_frame TypeEvent p)"
    and ex: "read_as_event (frame_bytes (mk_frame TypeEvent p)) keyed_event"
    by auto
  let ?c2 = "new_client (open_conn (frame_bytes (mk_frame TypeEvent p)))"
  obtain c3 where "readLoop Reading ?c2 = [Some (Exposing keyed_event, c3)]"
    using ex [unfolded read_as_event_def, rule_format, of ?c2 "[]"] by (auto simp: new_client_def wasDelivered_def simp del: readLoop.simps)
  moreover have "sent_bytes (co_net (the_conn 0 ?s')) = frame_bytes (mk_frame TypeAck ap)" using ap(1) by simp
  ultimately show ?thesis using r(1) step dec d by blast
qed

theorem repeated_publish_is_duplicate_witness:
  "\<exists>s s1 s2 ap1 ap2. reach server_init server_step s \<and> server_step s s1 \<and> server_step s1 s2
     \<and> sent_bytes (co_net (the_conn 0 s1)) = frame_bytes (mk_frame TypeAck ap1)
     \<and> sent_bytes (co_net (the_conn 0 s2)) = frame_bytes (mk_frame TypeAck ap1) @ frame_bytes (mk_frame TypeAck ap2)
     \<and> decodeAck ap1 = Inr \<lparr>am_ID = ''1'', am_Status = ackPublished, am_Error = []\<rparr>
     \<and> map_sum id am_Status (decodeAck ap2) = Inr ackDuplicate \<and> sv_broker s2 = sv_broker s1"
proof -
  obtain cn cn1 where r: "reach server_init server_step (one_conn sample_broker (subscriber_conn cn))" "usable_conn cn"
    "rd_pending (cn_in cn) = frame_bytes sample_publish @ frame_bytes sample_publish" "sent_bytes cn = []"
    "serve id id id 0 (one_conn sample_broker (subscriber_conn cn)) = [Some (one_conn sample_published (subscriber_conn cn1))]"
    "usable_conn cn1" "rd_pending (cn_in cn1) = frame_bytes sample_publish"
    by (rule reach_published [of "frame_bytes sample_publish"])
  let ?s = "one_conn sample_broker (subscriber_conn cn)" and ?s1 = "one_conn sample_published (subscriber_conn cn1)"
  have dup: "PublishWithResult id id None keyed_event sample_published = [Some ((Duplicate, None), sample_published)]"
    by (rule retry_duplicate [OF reachable_sample_broker, of id keyed_event keyed_event sample_published id None])
      (simp_all add: publish_sample idempotencyKey_def)
  obtain cn2 where turn: "serve id id id 0 ?s1 = [Some (one_conn sample_published (subscriber_conn cn2))]"
    using r(6) _ dup by (rule publish_turn [of cn1 "[]"]) (use r(7) in simp)
  let ?s2 = "one_conn sample_published (subscriber_conn cn2)"
  have step: "server_step ?s ?s1" by (rule s_serve [of 0 _ id id id]) (use r(5) in simp_all)
  have step2: "server_step ?s1 ?s2" by (rule s_serve [of 0 _ id id id]) (use turn in simp_all)
  have "\<exists>ap1 ap2 ack1 ack2. sent_bytes cn1 = frame_bytes (mk_frame TypeAck ap1)
      \<and> sent_bytes cn2 = sent_bytes cn1 @ frame_bytes (mk_frame TypeAck ap2) \<and> decodeAck ap1 = Inr ack1 \<and> decodeAck ap2 = Inr ack2
      \<and> (snd (status_of_ack ack1) = None \<longrightarrow> am_Status ack2 = ackDuplicate)"
    using repeated_publish_is_duplicate [OF r(1), of 0 id id id keyed_event "publish_bytes (message_of_event keyed_event)" "[]"
        ?s1 id id id ?s2] r(2-5) turn sample_payload_decodes(2) sample_payload_length
    by (simp add: sample_publish_def idempotencyKey_def) metis
  then obtain ap1 ap2 ack1 ack2 where a: "sent_bytes cn1 = frame_bytes (mk_frame TypeAck ap1)"
      "sent_bytes cn2 = sent_bytes cn1 @ frame_bytes (mk_frame TypeAck ap2)"
      "decodeAck ap1 = Inr ack1" "decodeAck ap2 = Inr ack2"
    and st: "snd (status_of_ack ack1) = None \<longrightarrow> am_Status ack2 = ackDuplicate"
    by (elim exE conjE) (rule that)
  have dec: "decodeAck ap1 = Inr (answer ''1'' Published None)"
    using sample_ack [OF r(1-3,5) publish_sample, of ap1] a(1) r(4) by simp
  then have "am_Status ack2 = ackDuplicate"
    using a(3) st status_of_answer [of "''1''" None Published] by simp
  with dec r(1) step step2 a show ?thesis
    by (intro exI [of _ ?s] exI [of _ ?s1] exI [of _ ?s2] exI [of _ ap1] exI [of _ ap2]) simp
qed

end
